(* ===== verification/Prelude.thy ===== *)
theory Prelude
  imports Main "HOL-Library.Word" "HOL-Library.List_Lexorder" "HOL-Library.Char_ord"
begin

text \<open>
  Shared vocabulary of the development. Python exceptions are values of
  \<open>py_exc\<close>; a computation that may raise returns \<open>'a res\<close>, with \<open>Inl\<close> for the
  exception. \<open>bind_res\<close> sequences two computations, \<open>map_res\<close> and \<open>fold_res\<close> are a
  comprehension and a \<open>for\<close> loop whose body may raise. Python's \<open>bytes\<close> is a list of
  8-bit words; its order (lexicographic, a proper prefix first) is the order
  that \<open>HOL-Library.List_Lexorder\<close> puts on lists.
\<close>

section \<open>Bytes, exceptions, results\<close>

type_synonym byte = "8 word"
type_synonym bytes = "byte list"
type_synonym u32 = "32 word"
type_synonym u64 = "64 word"

datatype py_exc =
    ValueError | KeyError | IndexError | TypeError | AttributeError
  | OverflowError | RuntimeError | DeterminismError | DatabaseError | OtherError

type_synonym 'a res = "py_exc + 'a"

fun bind_res :: "'e + 'a \<Rightarrow> ('a \<Rightarrow> 'e + 'b) \<Rightarrow> 'e + 'b" where
  "bind_res (Inl e) f = Inl e"
| "bind_res (Inr x) f = f x"

fun map_res :: "('a \<Rightarrow> 'e + 'b) \<Rightarrow> 'a list \<Rightarrow> 'e + 'b list" where
  "map_res f [] = Inr []"
| "map_res f (x # xs) = bind_res (f x) (\<lambda>y. bind_res (map_res f xs) (\<lambda>ys. Inr (y # ys)))"

fun fold_res :: "('a \<Rightarrow> 's \<Rightarrow> 'e + 's) \<Rightarrow> 'a list \<Rightarrow> 's \<Rightarrow> 'e + 's" where
  "fold_res f [] s = Inr s"
| "fold_res f (x # xs) s = bind_res (f x s) (fold_res f xs)"

text \<open>A comprehension \<open>[x for x in xs if p(x)]\<close> whose test may raise.\<close>

fun filter_res :: "('a \<Rightarrow> 'e + bool) \<Rightarrow> 'a list \<Rightarrow> 'e + 'a list" where
  "filter_res p [] = Inr []"
| "filter_res p (x # xs) =
     bind_res (p x) (\<lambda>b. bind_res (filter_res p xs) (\<lambda>ys. Inr (if b then x # ys else ys)))"

named_theorems res_simps \<open>sequencing of computations that may raise\<close>
named_theorems wf_intros \<open>well-formedness of the values the operations return\<close>

lemma bind_res_cong [fundef_cong]:
  "m = m' \<Longrightarrow> (\<And>x. m' = Inr x \<Longrightarrow> f x = f' x) \<Longrightarrow> bind_res m f = bind_res m' f'"
  by (cases m) auto

lemma bind_res_eq_Inr [res_simps]:
  "bind_res m f = Inr y \<longleftrightarrow> (\<exists>x. m = Inr x \<and> f x = Inr y)"
  by (cases m) auto

lemma bind_res_eq_Inl [res_simps]:
  "bind_res m f = Inl e \<longleftrightarrow> m = Inl e \<or> (\<exists>x. m = Inr x \<and> f x = Inl e)"
  by (cases m) auto

lemma bind_res_Inr_right [simp]: "bind_res m Inr = m"
  by (cases m) auto

lemma filter_res_Inr:
  "(\<And>x. x \<in> set xs \<Longrightarrow> p x = Inr (q x)) \<Longrightarrow> filter_res p xs = Inr (filter q xs)"
  by (induction xs) auto

lemma filter_res_dest:
  "filter_res p xs = Inr ys \<Longrightarrow> (\<forall>x\<in>set xs. \<exists>b. p x = Inr b) \<and> ys = filter (\<lambda>x. p x = Inr True) xs"
  by (induction xs arbitrary: ys) (auto simp: res_simps)

lemma map_res_Inr:
  "(\<And>x. x \<in> set xs \<Longrightarrow> f x = Inr (g x)) \<Longrightarrow> map_res f xs = Inr (map g xs)"
  by (induction xs) auto

lemma map_res_dest:
  "map_res f xs = Inr ys \<Longrightarrow> length ys = length xs \<and> (\<forall>i<length xs. f (xs ! i) = Inr (ys ! i))"
proof (induction xs arbitrary: ys)
  case (Cons x xs)
  then obtain y zs where y: "f x = Inr y" and zs: "map_res f xs = Inr zs" and "ys = y # zs"
    by (auto simp: res_simps)
  with Cons.IH [OF zs] show ?case by (auto simp: nth_Cons')
qed simp

lemma map_res_set:
  "map_res f xs = Inr ys \<Longrightarrow> x \<in> set xs \<Longrightarrow> \<exists>y\<in>set ys. f x = Inr y"
  by (induction xs arbitrary: ys) (auto simp: res_simps)

lemma fold_res_append:
  "fold_res f (xs @ ys) s = bind_res (fold_res f xs s) (fold_res f ys)"
proof (induction xs arbitrary: s)
  case (Cons x xs)
  then show ?case by (cases "f x s") auto
qed simp

lemma fold_res_Inr:
  assumes "\<And>x s. x \<in> set xs \<Longrightarrow> f x s = Inr (g x s)"
  shows "fold_res f xs s = Inr (fold g xs s)"
  using assms by (induction xs arbitrary: s) auto

section \<open>Lists and strings\<close>

lemma append_eq_same_length:
  "length xs = length ys \<Longrightarrow> xs @ us = ys @ vs \<longleftrightarrow> xs = ys \<and> us = vs"
  by simp

lemma concat_same_length_inj:
  assumes "concat xs = concat ys"
    and "\<And>x. x \<in> set xs \<Longrightarrow> length x = n" and "\<And>y. y \<in> set ys \<Longrightarrow> length y = n" and "0 < n"
  shows "xs = ys"
  using assms(1-3)
proof (induction xs arbitrary: ys)
  case Nil
  with \<open>0 < n\<close> show ?case
    by (cases ys) (auto dest: arg_cong [where f = length])
next
  case (Cons x xs)
  have "length x = n" using Cons.prems(2) by simp
  with \<open>0 < n\<close> Cons.prems(1) obtain y zs where ys: "ys = y # zs" by (cases ys) auto
  with Cons.prems \<open>length x = n\<close> have "x = y" "concat xs = concat zs" by auto
  moreover have "xs = zs"
    using Cons.prems ys \<open>concat xs = concat zs\<close> by (intro Cons.IH) auto
  ultimately show ?case using ys by simp
qed

text \<open>
  \<open>str.encode()\<close>: UTF-8. A \<open>char\<close> of the model is a code point below 256, so at
  most two bytes are needed.
\<close>

definition utf8_char :: "char \<Rightarrow> bytes" where
  "utf8_char c = (let n = of_char c :: nat in
     if n < 128 then [word_of_nat n]
     else [word_of_nat (192 + n div 64), word_of_nat (128 + n mod 64)])"

definition utf8 :: "string \<Rightarrow> bytes" where
  "utf8 s = concat (map utf8_char s)"

text \<open>\<open>n.to_bytes(8, "big")\<close>: raises OverflowError from \<open>2 ^ 64\<close> on.\<close>

definition be64 :: "nat \<Rightarrow> bytes" where
  "be64 n = map (\<lambda>i. word_of_nat (n div 256 ^ (7 - i))) [0..<8]"

definition to_bytes8 :: "nat \<Rightarrow> bytes res" where
  "to_bytes8 n = (if n < 2 ^ 64 then Inr (be64 n) else Inl OverflowError)"

lemma length_be64 [simp]: "length (be64 n) = 8"
  by (simp add: be64_def)

lemma be64_digit:
  assumes "be64 m = be64 n" and "i < 8"
  shows "m div 256 ^ i mod 256 = n div 256 ^ i mod 256"
proof -
  from assms(1) have "be64 m ! (7 - i) = be64 n ! (7 - i)" by simp
  moreover from assms(2) have "[0..<8] ! (7 - i) = 7 - i" and "7 - (7 - i) = i"
    by (simp_all add: nth_upt del: upt_Suc)
  ultimately have "(word_of_nat (m div 256 ^ i) :: byte) = word_of_nat (n div 256 ^ i)"
    using assms(2) by (simp add: be64_def del: upt_Suc)
  then have "unat (word_of_nat (m div 256 ^ i) :: byte) = unat (word_of_nat (n div 256 ^ i) :: byte)"
    by simp
  then show ?thesis by (simp add: unat_of_nat)
qed

lemma div_mod_256_inj:
  "(m::nat) < 256 ^ k \<Longrightarrow> n < 256 ^ k
    \<Longrightarrow> (\<And>i. i < k \<Longrightarrow> m div 256 ^ i mod 256 = n div 256 ^ i mod 256) \<Longrightarrow> m = n"
proof (induction k arbitrary: m n)
  case (Suc k)
  have "m div 256 = n div 256"
  proof (rule Suc.IH)
    show "m div 256 < 256 ^ k" "n div 256 < 256 ^ k"
      using Suc.prems(1,2) by (simp_all add: less_mult_imp_div_less mult.commute)
  next
    fix i assume "i < k"
    then show "m div 256 div 256 ^ i mod 256 = n div 256 div 256 ^ i mod 256"
      using Suc.prems(3) [of "Suc i"] by (simp add: div_mult2_eq)
  qed
  moreover have "m mod 256 = n mod 256" using Suc.prems(3) [of 0] by simp
  ultimately show ?case by (metis div_mult_mod_eq)
qed simp

lemma be64_inj: "be64 m = be64 n \<Longrightarrow> m < 2 ^ 64 \<Longrightarrow> n < 2 ^ 64 \<Longrightarrow> m = n"
  by (rule div_mod_256_inj [where k = 8]) (auto dest: be64_digit)

end
