(* ===== verification/Sha256.thy ===== *)
theory Sha256
  imports Prelude
begin

text \<open>
  \<open>hashlib.sha256\<close> and \<open>hmac\<close>, the two standard-library functions every digest of the
  program is made with, written out from FIPS 180-4 and RFC 2104 on 32-bit words.
  Nothing of the development unfolds \<open>sha256\<close>: the proofs use only that it is a
  function and that a digest has 32 bytes. Statements about forging a proof end in
  an explicit pair of colliding inputs (\<open>collides\<close>), never in an assumption that the
  hash is injective, which no 32-byte hash is.
\<close>

unbundle bit_operations_syntax

section \<open>SHA-256\<close>

definition sha_K :: "u32 list" where
  "sha_K = [
   1116352408, 1899447441, 3049323471, 3921009573, 961987163, 1508970993, 2453635748, 2870763221,
   3624381080, 310598401, 607225278, 1426881987, 1925078388, 2162078206, 2614888103, 3248222580,
   3835390401, 4022224774, 264347078, 604807628, 770255983, 1249150122, 1555081692, 1996064986,
   2554220882, 2821834349, 2952996808, 3210313671, 3336571891, 3584528711, 113926993, 338241895,
   666307205, 773529912, 1294757372, 1396182291, 1695183700, 1986661051, 2177026350, 2456956037,
   2730485921, 2820302411, 3259730800, 3345764771, 3516065817, 3600352804, 4094571909, 275423344,
   430227734, 506948616, 659060556, 883997877, 958139571, 1322822218, 1537002063, 1747873779,
   1955562222, 2024104815, 2227730452, 2361852424, 2428436474, 2756734187, 3204031479, 3329325298]"

datatype sha_state = Sha_State u32 u32 u32 u32 u32 u32 u32 u32

definition sha_H0 :: sha_state where
  "sha_H0 = Sha_State 1779033703 3144134277 1013904242 2773480762
     1359893119 2600822924 528734635 1541459225"

definition word32_be :: "bytes \<Rightarrow> u32" where
  "word32_be bs = word_of_nat (foldl (\<lambda>a b. 256 * a + unat b) 0 bs)"

definition bytes32_be :: "u32 \<Rightarrow> bytes" where
  "bytes32_be w = map (\<lambda>i. word_of_nat (unat w div 256 ^ (3 - i))) [0..<4]"

definition sha_pad :: "bytes \<Rightarrow> bytes" where
  "sha_pad m = m @ [0x80] @ replicate ((119 - length m mod 64) mod 64) 0 @ be64 (8 * length m mod 2 ^ 64)"

fun chunks :: "nat \<Rightarrow> nat \<Rightarrow> 'a list \<Rightarrow> 'a list list" where
  "chunks k 0 xs = []"
| "chunks k (Suc n) xs = take k xs # chunks k n (drop k xs)"

definition sha_schedule_step :: "nat \<Rightarrow> u32 list \<Rightarrow> u32 list" where
  "sha_schedule_step t w =
     (let x = w ! (t - 15); y = w ! (t - 2);
          s0 = word_rotr 7 x XOR word_rotr 18 x XOR drop_bit 3 x;
          s1 = word_rotr 17 y XOR word_rotr 19 y XOR drop_bit 10 y
      in w @ [w ! (t - 16) + s0 + w ! (t - 7) + s1])"

definition sha_schedule :: "bytes \<Rightarrow> u32 list" where
  "sha_schedule block = fold sha_schedule_step [16..<64] (map word32_be (chunks 4 16 block))"

fun sha_round :: "u32 \<times> u32 \<Rightarrow> sha_state \<Rightarrow> sha_state" where
  "sha_round (k, w) (Sha_State a b c d e f g h) =
     (let s1 = word_rotr 6 e XOR word_rotr 11 e XOR word_rotr 25 e;
          ch = (e AND f) XOR (NOT e AND g);
          t1 = h + s1 + ch + k + w;
          s0 = word_rotr 2 a XOR word_rotr 13 a XOR word_rotr 22 a;
          maj = (a AND b) XOR (a AND c) XOR (b AND c)
      in Sha_State (t1 + s0 + maj) a b c (d + t1) e f g)"

fun sha_add :: "sha_state \<Rightarrow> sha_state \<Rightarrow> sha_state" where
  "sha_add (Sha_State a b c d e f g h) (Sha_State a' b' c' d' e' f' g' h') =
     Sha_State (a + a') (b + b') (c + c') (d + d') (e + e') (f + f') (g + g') (h + h')"

definition sha_compress :: "bytes \<Rightarrow> sha_state \<Rightarrow> sha_state" where
  "sha_compress block s = sha_add s (fold sha_round (zip sha_K (sha_schedule block)) s)"

fun sha_output :: "sha_state \<Rightarrow> bytes" where
  "sha_output (Sha_State a b c d e f g h) = concat (map bytes32_be [a, b, c, d, e, f, g, h])"

definition sha256 :: "bytes \<Rightarrow> bytes" where
  "sha256 m = (let p = sha_pad m in
     sha_output (fold sha_compress (chunks 64 (length p div 64) p) sha_H0))"

lemma length_bytes32_be [simp]: "length (bytes32_be w) = 4"
  by (simp add: bytes32_be_def)

lemma length_sha_output [simp]: "length (sha_output s) = 32"
  by (cases s) simp

lemma length_sha256 [simp]: "length (sha256 m) = 32"
  by (simp add: sha256_def Let_def)

section \<open>HMAC-SHA256\<close>

definition hmac_key :: "bytes \<Rightarrow> bytes" where
  "hmac_key k = (let k' = (if 64 < length k then sha256 k else k) in k' @ replicate (64 - length k') 0)"

definition hmac_sha256 :: "bytes \<Rightarrow> bytes \<Rightarrow> bytes" where
  "hmac_sha256 k m = (let k' = hmac_key k in
     sha256 (map (\<lambda>b. b XOR 0x5c) k' @ sha256 (map (\<lambda>b. b XOR 0x36) k' @ m)))"

lemma length_hmac_sha256 [simp]: "length (hmac_sha256 k m) = 32"
  by (simp add: hmac_sha256_def Let_def)

section \<open>Collisions\<close>

text \<open>
  \<open>collision_in xs\<close>: two different inputs of the list \<open>xs\<close> have the same digest. A
  forged proof yields one among the inputs that building the tree and checking the
  proof hash anyway.
\<close>

definition collides :: "bytes \<Rightarrow> bytes \<Rightarrow> bool" where
  "collides x y \<longleftrightarrow> x \<noteq> y \<and> sha256 x = sha256 y"

definition collision_in :: "bytes list \<Rightarrow> bool" where
  "collision_in xs \<longleftrightarrow> (\<exists>x\<in>set xs. \<exists>y\<in>set xs. collides x y)"

lemma collision_inI:
  "x \<in> set xs \<Longrightarrow> y \<in> set xs \<Longrightarrow> x \<noteq> y \<Longrightarrow> sha256 x = sha256 y \<Longrightarrow> collision_in xs"
  by (auto simp: collision_in_def collides_def)

lemma collision_in_mono: "collision_in xs \<Longrightarrow> set xs \<subseteq> set ys \<Longrightarrow> collision_in ys"
  by (auto simp: collision_in_def)

end
