(* ===== verification/Hexcodec.thy ===== *)
theory Hexcodec
  imports Sha256
begin

text \<open>
  \<open>bytes.hex()\<close> and \<open>bytes.fromhex()\<close>, the codec between digests and the text that
  certificates carry. \<open>fromhex\<close> follows CPython: ASCII white space is skipped
  between bytes and refused inside one, both letter cases are read, everything
  else raises ValueError. The round trip \<open>fromhex_to_hex\<close> is what lets every later
  theory move between a subject's reference (text) and its key (32 bytes).
\<close>

definition hex_digit :: "nat \<Rightarrow> char" where
  "hex_digit n = (if n < 10 then char_of (48 + n) else char_of (87 + n))"

definition digit_value :: "char \<Rightarrow> nat option" where
  "digit_value c = (let n = of_char c :: nat in
     if 48 \<le> n \<and> n \<le> 57 then Some (n - 48)
     else if 97 \<le> n \<and> n \<le> 102 then Some (n - 87)
     else if 65 \<le> n \<and> n \<le> 70 then Some (n - 55)
     else None)"

definition is_space :: "char \<Rightarrow> bool" where
  "is_space c \<longleftrightarrow> (let n = of_char c :: nat in n = 32 \<or> (9 \<le> n \<and> n \<le> 13))"

definition to_hex :: "bytes \<Rightarrow> string" where
  "to_hex bs = concat (map (\<lambda>b. [hex_digit (unat b div 16), hex_digit (unat b mod 16)]) bs)"

fun fromhex :: "string \<Rightarrow> bytes res" where
  "fromhex [] = Inr []"
| "fromhex (c # s) =
     (if is_space c then fromhex s
      else case s of
        [] \<Rightarrow> Inl ValueError
      | d # s' \<Rightarrow>
          (case (digit_value c, digit_value d) of
             (Some a, Some b) \<Rightarrow> bind_res (fromhex s') (\<lambda>bs. Inr (word_of_nat (16 * a + b) # bs))
           | _ \<Rightarrow> Inl ValueError))"

lemma to_hex_Nil [simp]: "to_hex [] = []"
  by (simp add: to_hex_def)

lemma to_hex_Cons:
  "to_hex (b # bs) = hex_digit (unat b div 16) # hex_digit (unat b mod 16) # to_hex bs"
  by (simp add: to_hex_def)

lemma length_to_hex [simp]: "length (to_hex bs) = 2 * length bs"
  by (induction bs) (simp_all add: to_hex_Cons)

lemma of_char_hex_digit: "n < 16 \<Longrightarrow> of_char (hex_digit n) = (if n < 10 then 48 + n else 87 + n)"
  by (simp add: hex_digit_def)

lemma digit_value_hex_digit [simp]: "n < 16 \<Longrightarrow> digit_value (hex_digit n) = Some n"
  by (simp add: digit_value_def of_char_hex_digit Let_def)

lemma hex_digit_not_space [simp]: "n < 16 \<Longrightarrow> \<not> is_space (hex_digit n)"
  by (simp add: is_space_def of_char_hex_digit Let_def)

lemma unat_byte_less [simp]: "unat (b :: byte) < 256"
proof -
  have "unat b < 2 ^ LENGTH(8)" by (rule unsigned_less)
  then show ?thesis by simp
qed

lemma unat_byte_div: "unat (b :: byte) div 16 < 16"
  by (rule less_mult_imp_div_less) (use unat_byte_less [of b] in simp)

lemma fromhex_to_hex [simp]: "fromhex (to_hex bs) = Inr bs"
proof (induction bs)
  case (Cons b bs)
  then show ?case
    by (simp add: to_hex_Cons unat_byte_div del: fromhex.simps(2) add: fromhex.simps(2) [of "hex_digit _"])
qed simp

lemma to_hex_inject [simp]: "to_hex xs = to_hex ys \<longleftrightarrow> xs = ys"
  by (metis fromhex_to_hex sum.inject(2))

text \<open>\<open>fromhex\<close> fails in one way only.\<close>

lemma fromhex_error: "fromhex s = Inl e \<Longrightarrow> e = ValueError"
  by (induction s arbitrary: e rule: fromhex.induct)
    (auto split: if_splits list.splits option.splits simp: res_simps)

text \<open>
  A subject reference that the program accepts as a path: hexadecimal text of exactly
  32 bytes. \<open>key_of\<close> is the byte string it denotes.
\<close>

definition valid_ref :: "string \<Rightarrow> bool" where
  "valid_ref r = (case fromhex r of Inr k \<Rightarrow> length k = 32 | Inl _ \<Rightarrow> False)"

definition key_of :: "string \<Rightarrow> bytes" where
  "key_of r = (case fromhex r of Inr k \<Rightarrow> k | Inl _ \<Rightarrow> [])"

lemma valid_ref_fromhex: "valid_ref r \<Longrightarrow> fromhex r = Inr (key_of r)"
  by (auto simp: valid_ref_def key_of_def split: sum.splits)

lemma valid_ref_length [simp]: "valid_ref r \<Longrightarrow> length (key_of r) = 32"
  by (auto simp: valid_ref_def key_of_def split: sum.splits)

lemma valid_ref_to_hex [simp]: "valid_ref (to_hex k) \<longleftrightarrow> length k = 32"
  by (simp add: valid_ref_def)

lemma key_of_to_hex [simp]: "key_of (to_hex k) = k"
  by (simp add: key_of_def)

lemma map_res_fromhex:
  "list_all valid_ref refs \<Longrightarrow> map_res fromhex refs = Inr (map key_of refs)"
  by (rule map_res_Inr) (auto simp: list_all_iff valid_ref_fromhex)

end
