(* ===== verification/Pyvalue.thy ===== *)
theory Pyvalue
  imports Hexcodec
begin

text \<open>
  The dynamically typed values that cross the program's trust boundary: a proof or a
  certificate is whatever \<open>json.load\<close> returned, so the verifiers have to cope with
  a value of any shape. A dict is an association list in insertion order (keys
  distinct); its keys are strings, or integers before a trip through JSON.
  Non-integral JSON numbers are left out.
\<close>

datatype pykey = KInt int | KStr string

datatype pyval =
    PNone | PBool bool | PInt int | PStr string
  | PList "pyval list" | PDict "(pykey \<times> pyval) list"

text \<open>
  The order Python sorts dict keys by: numbers numerically, strings by code point.
  (A dict that mixes the two cannot be sorted; \<open>mixed_keys\<close> says so.)
\<close>

instantiation pykey :: linorder
begin

fun less_eq_pykey :: "pykey \<Rightarrow> pykey \<Rightarrow> bool" where
  "less_eq_pykey (KInt a) (KInt b) = (a \<le> b)"
| "less_eq_pykey (KInt a) (KStr b) = True"
| "less_eq_pykey (KStr a) (KInt b) = False"
| "less_eq_pykey (KStr a) (KStr b) = (a \<le> b)"

definition less_pykey :: "pykey \<Rightarrow> pykey \<Rightarrow> bool" where
  "less_pykey a b \<longleftrightarrow> a \<le> b \<and> \<not> b \<le> a"

instance
proof
  fix x y z :: pykey
  show "x < y \<longleftrightarrow> x \<le> y \<and> \<not> y \<le> x" by (simp add: less_pykey_def)
  show "x \<le> x" by (cases x) auto
  show "x \<le> y \<Longrightarrow> y \<le> z \<Longrightarrow> x \<le> z" by (cases x; cases y; cases z) auto
  show "x \<le> y \<Longrightarrow> y \<le> x \<Longrightarrow> x = y" by (cases x; cases y) auto
  show "x \<le> y \<or> y \<le> x" by (cases x; cases y) auto
qed

end

section \<open>Operations on values of unknown shape\<close>

text \<open>\<open>v["k"]\<close>, \<open>v.get("k")\<close> and \<open>bytes.fromhex(v)\<close>, with what each raises.\<close>

fun getitem :: "pyval \<Rightarrow> string \<Rightarrow> pyval res" where
  "getitem (PDict d) k = (case map_of d (KStr k) of Some v \<Rightarrow> Inr v | None \<Rightarrow> Inl KeyError)"
| "getitem _ k = Inl TypeError"

fun get_default :: "pyval \<Rightarrow> string \<Rightarrow> pyval \<Rightarrow> pyval res" where
  "get_default (PDict d) k dflt =
     Inr (case map_of d (KStr k) of Some v \<Rightarrow> v | None \<Rightarrow> dflt)"
| "get_default _ k dflt = Inl AttributeError"

fun fromhex_val :: "pyval \<Rightarrow> bytes res" where
  "fromhex_val (PStr s) = fromhex s"
| "fromhex_val _ = Inl TypeError"

text \<open>\<open>isinstance(v, int)\<close> and the number it is: a bool is an int in Python.\<close>

fun int_of_val :: "pyval \<Rightarrow> int option" where
  "int_of_val (PInt i) = Some i"
| "int_of_val (PBool b) = Some (if b then 1 else 0)"
| "int_of_val _ = None"

text \<open>\<open>isinstance(v, dict)\<close>, with the items of the dict.\<close>

fun dict_items :: "pyval \<Rightarrow> (pykey \<times> pyval) list option" where
  "dict_items (PDict d) = Some d"
| "dict_items _ = None"

text \<open>
  \<open>int(k)\<close> on a dict key. On a string: surrounding white space, one sign, and digits
  with single underscores between them; anything else raises ValueError.
\<close>

fun digits_value :: "nat \<Rightarrow> string \<Rightarrow> nat option" where
  "digits_value a [] = Some a"
| "digits_value a (c # s) =
     (if c = CHR ''_'' then
        (case s of d # s' \<Rightarrow>
           (case digit_value d of
              Some n \<Rightarrow> if n < 10 then digits_value (10 * a + n) s' else None
            | None \<Rightarrow> None)
         | [] \<Rightarrow> None)
      else case digit_value c of
             Some n \<Rightarrow> if n < 10 then digits_value (10 * a + n) s else None
           | None \<Rightarrow> None)"

definition strip_ws :: "string \<Rightarrow> string" where
  "strip_ws s = rev (dropWhile is_space (rev (dropWhile is_space s)))"

definition unsigned_value :: "string \<Rightarrow> nat option" where
  "unsigned_value s = (case s of [] \<Rightarrow> None | c # _ \<Rightarrow> if c = CHR ''_'' then None else digits_value 0 s)"

definition int_of_string :: "string \<Rightarrow> int res" where
  "int_of_string s =
     (case strip_ws s of
        [] \<Rightarrow> Inl ValueError
      | c # cs \<Rightarrow>
          (if c = CHR ''-'' then case unsigned_value cs of Some n \<Rightarrow> Inr (- int n) | None \<Rightarrow> Inl ValueError
           else if c = CHR ''+'' then case unsigned_value cs of Some n \<Rightarrow> Inr (int n) | None \<Rightarrow> Inl ValueError
           else case unsigned_value (c # cs) of Some n \<Rightarrow> Inr (int n) | None \<Rightarrow> Inl ValueError))"

fun int_of_key :: "pykey \<Rightarrow> int res" where
  "int_of_key (KInt i) = Inr i"
| "int_of_key (KStr s) = int_of_string s"

text \<open>\<open>try: ... except (ValueError, TypeError, KeyError, AttributeError): return False\<close>\<close>

definition catch_as :: "py_exc set \<Rightarrow> 'a \<Rightarrow> 'a res \<Rightarrow> 'a res" where
  "catch_as E v m = (case m of Inl e \<Rightarrow> if e \<in> E then Inr v else Inl e | Inr x \<Rightarrow> Inr x)"

lemma fromhex_val_error: "fromhex_val v = Inl e \<Longrightarrow> e = ValueError \<or> e = TypeError"
  by (cases v) (auto dest: fromhex_error)

lemma int_of_string_error: "int_of_string s = Inl e \<Longrightarrow> e = ValueError"
  by (auto simp: int_of_string_def split: list.splits if_splits option.splits)

lemma int_of_key_error: "int_of_key k = Inl e \<Longrightarrow> e = ValueError"
  by (cases k) (auto dest: int_of_string_error)

lemma getitem_error: "getitem v k = Inl e \<Longrightarrow> e = KeyError \<or> e = TypeError"
  by (cases v) (auto split: option.splits)

lemma get_default_error: "get_default v k d = Inl e \<Longrightarrow> e = AttributeError"
  by (cases v) auto

end
