(* ===== verification/Absence.thy ===== *)
theory Absence
  imports Pyvalue
begin

text \<open>
  The contract that both proof systems of \<open>verify/\<close> keep towards the certificate
  verifier: an absent reference has a proof that verifies (\<open>complete\<close>), a committed one
  has none, neither from the prover (\<open>refuses\<close>) nor from anybody (\<open>sound\<close>, where a
  forgery exhibits a SHA-256 collision among the inputs listed by \<open>evidence\<close>). The
  facts a client needs follow from these laws alone. The interpretations are at the end
  of \<open>Smt\<close> and of \<open>Merkle\<close>.
\<close>

locale absence_scheme =
  fixes root_of :: "string list \<Rightarrow> string res"
    and prove :: "string \<Rightarrow> string list \<Rightarrow> pyval res"
    and verify :: "pyval \<Rightarrow> pyval \<Rightarrow> pyval \<Rightarrow> bool res"
    and evidence :: "string \<Rightarrow> string list \<Rightarrow> pyval \<Rightarrow> bytes list"
  assumes complete:
      "root_of refs = Inr root \<Longrightarrow> list_all valid_ref refs \<Longrightarrow> valid_ref r
        \<Longrightarrow> key_of r \<notin> key_of ` set refs
        \<Longrightarrow> \<exists>pf. prove r refs = Inr pf \<and> verify (PStr r) pf (PStr root) = Inr True"
    and sound:
      "root_of refs = Inr root \<Longrightarrow> list_all valid_ref refs \<Longrightarrow> valid_ref r
        \<Longrightarrow> key_of r \<in> key_of ` set refs \<Longrightarrow> verify (PStr r) pf (PStr root) = Inr True
        \<Longrightarrow> collision_in (evidence r refs pf)"
    and refuses:
      "list_all valid_ref refs \<Longrightarrow> valid_ref r \<Longrightarrow> key_of r \<in> key_of ` set refs
        \<Longrightarrow> prove r refs = Inl ValueError"
begin

lemma verified_absent:
  assumes "root_of refs = Inr root" "list_all valid_ref refs" "valid_ref r"
    and "verify (PStr r) pf (PStr root) = Inr True" "\<not> collision_in (evidence r refs pf)"
  shows "key_of r \<notin> key_of ` set refs"
  using sound [OF assms(1-3) _ assms(4)] assms(5) by blast

lemma proof_iff_absent:
  assumes "root_of refs = Inr root" "list_all valid_ref refs" "valid_ref r"
  shows "(\<exists>pf. prove r refs = Inr pf) \<longleftrightarrow> key_of r \<notin> key_of ` set refs"
  using complete [OF assms] refuses [OF assms(2,3)] by auto

text \<open>One root for two different sets of references exhibits a collision.\<close>

lemma root_binds:
  assumes "root_of refs = Inr root" "root_of refs' = Inr root"
    and "list_all valid_ref refs" "list_all valid_ref refs'"
    and "r \<in> set refs" "key_of r \<notin> key_of ` set refs'"
  shows "\<exists>pf. prove r refs' = Inr pf \<and> collision_in (evidence r refs pf)"
proof -
  have r: "valid_ref r" using assms(3,5) by (simp add: list_all_iff)
  obtain pf where "prove r refs' = Inr pf" "verify (PStr r) pf (PStr root) = Inr True"
    using complete [OF assms(2,4) r assms(6)] by blast
  with sound [OF assms(1,3) r _ this(2)] assms(5) show ?thesis by blast
qed

end

end
