(* ===== verification/Smt.thy ===== *)
theory Smt
  imports Absence
begin

text \<open>
  \<open>verify/smt.py\<close>: the sparse Merkle tree. The definitions keep the module's names
  (without the leading underscore) and its partiality: a key that is too short makes
  \<open>bit_at\<close> raise IndexError, an index past the defaults table raises IndexError.
  The lemmas relate the collapsed tree to \<open>full_root\<close>, the uncompressed hash tree of
  depth 256 over all positions, through the representation predicate \<open>smt_rep\<close>;
  building, removing and proving are then facts about key lists.
\<close>

unbundle bit_operations_syntax

section \<open>Hashing\<close>

definition DEPTH :: nat where
  "DEPTH = 256"

definition smt_leaf :: "bytes \<Rightarrow> bytes" where
  "smt_leaf key = sha256 (0 # key)"

definition smt_node :: "bytes \<Rightarrow> bytes \<Rightarrow> bytes" where
  "smt_node left right = sha256 (1 # left @ right)"

definition EMPTY_LEAF :: bytes where
  "EMPTY_LEAF = sha256 (2 # utf8 ''unlearnshield-empty'')"

definition default_hashes :: "bytes list" where
  "default_hashes =
     fold (\<lambda>d out. out[d := smt_node (out ! (d + 1)) (out ! (d + 1))]) (rev [0..<DEPTH])
       ((replicate (DEPTH + 1) [])[DEPTH := EMPTY_LEAF])"

definition DEFAULTS :: "bytes list" where
  "DEFAULTS = default_hashes"

definition SMT_EMPTY_ROOT :: string where
  "SMT_EMPTY_ROOT = to_hex (DEFAULTS ! 0)"

definition defaults_at :: "nat \<Rightarrow> bytes res" where
  "defaults_at d = (if d < length DEFAULTS then Inr (DEFAULTS ! d) else Inl IndexError)"

definition bit_at :: "bytes \<Rightarrow> nat \<Rightarrow> byte res" where
  "bit_at key depth =
     (if depth div 8 < length key
      then Inr (drop_bit (7 - depth mod 8) (key ! (depth div 8)) AND 1)
      else Inl IndexError)"

definition singleton_root :: "bytes \<Rightarrow> nat \<Rightarrow> bytes res" where
  "singleton_root key depth =
     fold_res (\<lambda>d node.
         bind_res (defaults_at (d + 1)) (\<lambda>sibling.
         bind_res (bit_at key d) (\<lambda>b.
         Inr (if b = 0 then smt_node node sibling else smt_node sibling node))))
       (rev [depth..<DEPTH]) (smt_leaf key)"

section \<open>Building\<close>

text \<open>The comprehension \<open>[k for k in keys if _bit(k, depth) == b]\<close>.\<close>

definition select :: "byte \<Rightarrow> bytes list \<Rightarrow> nat \<Rightarrow> bytes list res" where
  "select b keys depth = filter_res (\<lambda>k. bind_res (bit_at k depth) (\<lambda>x. Inr (x = b))) keys"

text \<open>
  Each recursive call has passed \<open>bit_at k depth\<close> for every key, so every key is
  longer than the depth: the total of the bits left in the keys decreases.
\<close>

definition bits_left :: "bytes list \<Rightarrow> nat \<Rightarrow> nat" where
  "bits_left keys depth = sum_list (map (\<lambda>k. 8 * length k + 1 - depth) keys)"

lemma bit_at_depth: "bit_at k d = Inr x \<Longrightarrow> d < 8 * length k"
  by (simp add: bit_at_def split: if_splits)

lemma select_dest:
  assumes "select b keys d = Inr ks"
  shows "ks = filter (\<lambda>k. bit_at k d = Inr b) keys" and "\<And>k. k \<in> set keys \<Longrightarrow> d < 8 * length k"
proof -
  note * = filter_res_dest [OF assms [unfolded select_def]]
  from * have "\<forall>k\<in>set keys. \<exists>x. bit_at k d = Inr x" by (auto simp: res_simps)
  then show "\<And>k. k \<in> set keys \<Longrightarrow> d < 8 * length k" by (auto dest: bit_at_depth)
  from * show "ks = filter (\<lambda>k. bit_at k d = Inr b) keys" by (auto simp: res_simps)
qed

lemma bits_left_filter:
  "(\<And>k. k \<in> set keys \<Longrightarrow> d < 8 * length k)
    \<Longrightarrow> bits_left (filter p keys) (Suc d) + length keys \<le> bits_left keys d"
proof (induction keys)
  case (Cons a keys)
  from Cons.prems have "d < 8 * length a" by simp
  then have "Suc (8 * length a) - d = Suc (8 * length a - d)" by (simp add: Suc_diff_le)
  with Cons show ?case by (auto simp: bits_left_def)
qed (simp add: bits_left_def)

lemma bits_left_select:
  assumes "select b (k # keys) d = Inr ks"
  shows "bits_left ks (Suc d) < bits_left (k # keys) d"
proof -
  have "bits_left ks (Suc d) + length (k # keys) \<le> bits_left (k # keys) d"
    unfolding select_dest(1) [OF assms]
    by (rule bits_left_filter) (rule select_dest(2) [OF assms])
  then show ?thesis by simp
qed

function subtree_root :: "bytes list \<Rightarrow> nat \<Rightarrow> bytes res" where
  "subtree_root [] depth = defaults_at depth"
| "subtree_root [k] depth = singleton_root k depth"
| "subtree_root (k # k' # ks) depth =
     bind_res (select 0 (k # k' # ks) depth) (\<lambda>left.
     bind_res (select 1 (k # k' # ks) depth) (\<lambda>right.
     bind_res (subtree_root left (Suc depth)) (\<lambda>l.
     bind_res (subtree_root right (Suc depth)) (\<lambda>r. Inr (smt_node l r)))))"
  by pat_completeness auto
termination
  by (relation "measure (\<lambda>(keys, depth). bits_left keys depth)") (auto intro: bits_left_select)

text \<open>
  \<open>_keys(subject_refs)\<close>: the set of keys, sorted.
\<close>

definition smt_keys_of :: "string list \<Rightarrow> bytes list res" where
  "smt_keys_of refs = bind_res (map_res fromhex refs) (\<lambda>ks. Inr (sort (remdups ks)))"

definition fingerprint_of :: "string list \<Rightarrow> bytes res" where
  "fingerprint_of refs = bind_res (smt_keys_of refs) (\<lambda>ks. Inr (sha256 (concat ks)))"

text \<open>A materialised node: the Python tuple \<open>(hash, left, right, singleton_key)\<close>.\<close>

datatype smt_tree =
    SInternal (node_hash: bytes) smt_tree smt_tree
  | SSingleton (node_hash: bytes) bytes
  | SEmpty (node_hash: bytes)

function build :: "bytes list \<Rightarrow> nat \<Rightarrow> smt_tree res" where
  "build [] depth = bind_res (defaults_at depth) (\<lambda>h. Inr (SEmpty h))"
| "build [k] depth = bind_res (singleton_root k depth) (\<lambda>h. Inr (SSingleton h k))"
| "build (k # k' # ks) depth =
     bind_res (select 0 (k # k' # ks) depth) (\<lambda>left_keys.
     bind_res (build left_keys (Suc depth)) (\<lambda>left.
     bind_res (select 1 (k # k' # ks) depth) (\<lambda>right_keys.
     bind_res (build right_keys (Suc depth)) (\<lambda>right.
     Inr (SInternal (smt_node (node_hash left) (node_hash right)) left right)))))"
  by pat_completeness auto
termination
  by (relation "measure (\<lambda>(keys, depth). bits_left keys depth)") (auto intro: bits_left_select)

fun remove_key :: "smt_tree \<Rightarrow> bytes \<Rightarrow> nat \<Rightarrow> smt_tree res" where
  "remove_key (SInternal h left right) target depth =
     bind_res (bit_at target depth) (\<lambda>b.
       if b = 0 then
         bind_res (remove_key left target (Suc depth)) (\<lambda>new_left.
         Inr (SInternal (smt_node (node_hash new_left) (node_hash right)) new_left right))
       else
         bind_res (remove_key right target (Suc depth)) (\<lambda>new_right.
         Inr (SInternal (smt_node (node_hash left) (node_hash new_right)) left new_right)))"
| "remove_key (SSingleton h key) target depth =
     (if key = target then bind_res (defaults_at depth) (\<lambda>h. Inr (SEmpty h)) else Inl ValueError)"
| "remove_key (SEmpty h) target depth = Inl ValueError"

section \<open>The class SparseMerkleTree\<close>

record smt =
  tree_keys :: "bytes list"
  tree_present :: "bytes set"
  tree_root :: smt_tree

definition from_parts :: "bytes list \<Rightarrow> smt_tree \<Rightarrow> smt" where
  "from_parts keys root = \<lparr>tree_keys = keys, tree_present = set keys, tree_root = root\<rparr>"

definition smt_init :: "string list \<Rightarrow> smt res" where
  "smt_init refs =
     bind_res (smt_keys_of refs) (\<lambda>ks.
     bind_res (build ks 0) (\<lambda>r.
     Inr \<lparr>tree_keys = ks, tree_present = set ks, tree_root = r\<rparr>))"

definition smt_root :: "smt \<Rightarrow> string" where
  "smt_root t = to_hex (node_hash (tree_root t))"

definition smt_fingerprint :: "smt \<Rightarrow> bytes" where
  "smt_fingerprint t = sha256 (concat (tree_keys t))"

definition remove_step :: "bytes \<Rightarrow> smt_tree \<times> bytes set \<Rightarrow> (smt_tree \<times> bytes set) res" where
  "remove_step target = (\<lambda>(root, removed).
     if target \<in> removed then Inr (root, removed)
     else bind_res (remove_key root target 0) (\<lambda>root'. Inr (root', insert target removed)))"

definition smt_remove :: "smt \<Rightarrow> string list \<Rightarrow> smt res" where
  "smt_remove t refs =
     bind_res (map_res fromhex refs) (\<lambda>targets.
       if \<exists>target \<in> set targets. target \<notin> tree_present t then Inl ValueError
       else bind_res (fold_res remove_step targets (tree_root t, {})) (\<lambda>(root, removed).
         Inr (from_parts (filter (\<lambda>k. k \<notin> removed) (tree_keys t)) root)))"

text \<open>
  The walk of \<open>prove_absence\<close>. \<open>siblings\<close> is the dict under construction, in
  insertion order. \<open>split_sibling\<close> is the inner loop over a collapsed singleton.
\<close>

fun split_sibling :: "bytes \<Rightarrow> bytes \<Rightarrow> nat list \<Rightarrow> (nat \<times> string) list res" where
  "split_sibling target key [] = Inr []"
| "split_sibling target key (d # ds) =
     bind_res (bit_at target d) (\<lambda>a.
     bind_res (bit_at key d) (\<lambda>b.
       if a \<noteq> b then bind_res (singleton_root key (d + 1)) (\<lambda>h. Inr [(d, to_hex h)])
       else split_sibling target key ds))"

fun prove_walk :: "bytes \<Rightarrow> smt_tree \<Rightarrow> nat \<Rightarrow> (nat \<times> string) list res" where
  "prove_walk target (SInternal h left right) depth =
     (if DEPTH \<le> depth then Inr []
      else bind_res (bit_at target depth) (\<lambda>b.
        let other = (if b = 0 then right else left) in
        bind_res (defaults_at (depth + 1)) (\<lambda>dflt.
        bind_res (if b = 0 then prove_walk target left (depth + 1)
                  else prove_walk target right (depth + 1)) (\<lambda>rest.
        Inr (if node_hash other \<noteq> dflt then (depth, to_hex (node_hash other)) # rest else rest)))))"
| "prove_walk target (SSingleton h key) depth =
     (if DEPTH \<le> depth then Inr [] else split_sibling target key [depth..<DEPTH])"
| "prove_walk target (SEmpty h) depth = Inr []"

definition proof_of_siblings :: "(nat \<times> string) list \<Rightarrow> pyval" where
  "proof_of_siblings sibs =
     PDict [(KStr ''scheme'', PStr ''smt-256''),
            (KStr ''siblings'', PDict (map (\<lambda>(d, h). (KInt (int d), PStr h)) sibs))]"

definition smt_prove :: "smt \<Rightarrow> string \<Rightarrow> pyval res" where
  "smt_prove t target_ref =
     bind_res (fromhex target_ref) (\<lambda>target.
       if target \<in> tree_present t then Inl ValueError
       else bind_res (prove_walk target (tree_root t) 0) (\<lambda>sibs. Inr (proof_of_siblings sibs)))"

definition build_root :: "string list \<Rightarrow> string res" where
  "build_root refs =
     bind_res (smt_keys_of refs) (\<lambda>ks. bind_res (subtree_root ks 0) (\<lambda>h. Inr (to_hex h)))"

definition prove_absence :: "string \<Rightarrow> string list \<Rightarrow> pyval res" where
  "prove_absence target_ref refs = bind_res (smt_init refs) (\<lambda>t. smt_prove t target_ref)"

section \<open>Verifying\<close>

text \<open>
  The \<open>try\<close> block of \<open>verify_absence\<close>: \<open>None\<close> stands for its early
  \<open>return False\<close>.
\<close>

definition parse_sibling ::
  "pykey \<times> pyval \<Rightarrow> (nat \<rightharpoonup> bytes) option \<Rightarrow> (nat \<rightharpoonup> bytes) option res" where
  "parse_sibling = (\<lambda>(depth, value) acc.
     (case acc of None \<Rightarrow> Inr None
      | Some siblings \<Rightarrow>
          bind_res (int_of_key depth) (\<lambda>d.
            if \<not> (0 \<le> d \<and> d < int DEPTH) then Inr None
            else bind_res (fromhex_val value) (\<lambda>sibling.
              if length sibling \<noteq> 32 then Inr None
              else Inr (Some (siblings(nat d \<mapsto> sibling)))))))"

definition smt_parse_proof :: "pyval \<Rightarrow> pyval \<Rightarrow> (bytes \<times> (nat \<rightharpoonup> bytes)) option res" where
  "smt_parse_proof target_ref pf =
     bind_res (fromhex_val target_ref) (\<lambda>target.
       if length target * 8 \<noteq> DEPTH then Inr None
       else bind_res (get_default pf ''scheme'' PNone) (\<lambda>scheme.
         if scheme \<noteq> PStr ''smt-256'' then Inr None
         else bind_res (getitem pf ''siblings'') (\<lambda>raw.
           case dict_items raw of
             None \<Rightarrow> Inr None
           | Some items \<Rightarrow>
               bind_res (fold_res parse_sibling items (Some Map.empty)) (\<lambda>acc.
               Inr (map_option (Pair target) acc)))))"

definition sibling_at :: "(nat \<rightharpoonup> bytes) \<Rightarrow> nat \<Rightarrow> bytes res" where
  "sibling_at siblings d =
     bind_res (defaults_at (d + 1)) (\<lambda>dflt. Inr (case siblings d of Some s \<Rightarrow> s | None \<Rightarrow> dflt))"

definition climb :: "bytes \<Rightarrow> (nat \<rightharpoonup> bytes) \<Rightarrow> bytes res" where
  "climb target siblings =
     fold_res (\<lambda>d node.
         bind_res (sibling_at siblings d) (\<lambda>sibling.
         bind_res (bit_at target d) (\<lambda>b.
         Inr (if b = 0 then smt_node node sibling else smt_node sibling node))))
       (rev [0..<DEPTH]) EMPTY_LEAF"

definition verify_absence :: "pyval \<Rightarrow> pyval \<Rightarrow> pyval \<Rightarrow> bool res" where
  "verify_absence target_ref pf root_hex =
     bind_res (catch_as {ValueError, TypeError, KeyError, AttributeError} None
                 (smt_parse_proof target_ref pf))
       (\<lambda>parsed. case parsed of
          None \<Rightarrow> Inr False
        | Some (target, siblings) \<Rightarrow>
            bind_res (climb target siblings) (\<lambda>node. Inr (PStr (to_hex node) = root_hex)))"

section \<open>The tree cache\<close>

type_synonym tree_cache = "nat \<rightharpoonup> smt"

definition tree_for_shard :: "tree_cache \<Rightarrow> nat \<Rightarrow> string list \<Rightarrow> smt res" where
  "tree_for_shard cache shard current_refs =
     bind_res (fingerprint_of current_refs) (\<lambda>fp.
       case cache shard of
         Some cached \<Rightarrow> if smt_fingerprint cached = fp then Inr cached else smt_init current_refs
       | None \<Rightarrow> smt_init current_refs)"

definition cache_tree :: "tree_cache \<Rightarrow> nat \<Rightarrow> smt \<Rightarrow> tree_cache" where
  "cache_tree cache shard tree = cache(shard \<mapsto> tree)"

definition clear_tree_cache :: "tree_cache \<Rightarrow> tree_cache" where
  "clear_tree_cache cache = Map.empty"

section \<open>Facts about hashes and bits\<close>

lemma length_smt_leaf [simp]: "length (smt_leaf k) = 32"
  by (simp add: smt_leaf_def)

lemma length_smt_node [simp]: "length (smt_node l r) = 32"
  by (simp add: smt_node_def)

lemma length_EMPTY_LEAF [simp]: "length EMPTY_LEAF = 32"
  by (simp add: EMPTY_LEAF_def)

lemma backward_fill:
  fixes g :: "'a \<Rightarrow> 'a"
  assumes "n < length out"
  defines "r \<equiv> fold (\<lambda>d out. out[d := g (out ! (d + 1))]) (rev [0..<n]) out"
  shows "length r = length out" and "\<And>i. n \<le> i \<Longrightarrow> r ! i = out ! i"
    and "\<And>d. d < n \<Longrightarrow> r ! d = g (r ! (d + 1))"
proof -
  have "length r = length out \<and> (\<forall>i\<ge>n. r ! i = out ! i) \<and> (\<forall>d<n. r ! d = g (r ! (d + 1)))"
    using assms(1) unfolding r_def
  proof (induction n arbitrary: out)
    case (Suc n)
    let ?out = "out[n := g (out ! (n + 1))]"
    let ?r = "fold (\<lambda>d out. out[d := g (out ! (d + 1))]) (rev [0..<n]) ?out"
    have IH: "length ?r = length ?out" "\<forall>i\<ge>n. ?r ! i = ?out ! i" "\<forall>d<n. ?r ! d = g (?r ! (d + 1))"
      using Suc.IH [of ?out] Suc.prems by auto
    then have "?r ! n = g (?r ! (n + 1))" using Suc.prems by simp
    with IH show ?case by (auto simp: less_Suc_eq)
  qed simp
  then show "length r = length out" "\<And>i. n \<le> i \<Longrightarrow> r ! i = out ! i"
    "\<And>d. d < n \<Longrightarrow> r ! d = g (r ! (d + 1))" by auto
qed

lemma length_DEFAULTS [simp]: "length DEFAULTS = Suc DEPTH"
  unfolding DEFAULTS_def default_hashes_def
  by (subst backward_fill(1) [where g = "\<lambda>h. smt_node h h"]) (simp_all del: replicate_Suc)

lemma DEFAULTS_DEPTH: "DEFAULTS ! DEPTH = EMPTY_LEAF"
  unfolding DEFAULTS_def default_hashes_def
  by (subst backward_fill(2) [where g = "\<lambda>h. smt_node h h"]) (simp_all del: replicate_Suc)

lemma DEFAULTS_step:
  "d < DEPTH \<Longrightarrow> DEFAULTS ! d = smt_node (DEFAULTS ! Suc d) (DEFAULTS ! Suc d)"
  unfolding DEFAULTS_def default_hashes_def
  using backward_fill(3) [where g = "\<lambda>h. smt_node h h" and n = DEPTH
      and out = "(replicate (DEPTH + 1) [])[DEPTH := EMPTY_LEAF]" and d = d]
  by (simp del: replicate_Suc)

lemma length_DEFAULTS_nth [simp]: "d \<le> DEPTH \<Longrightarrow> length (DEFAULTS ! d) = 32"
  by (cases "d = DEPTH") (simp_all add: DEFAULTS_DEPTH DEFAULTS_step)

lemma defaults_at_eq [simp]: "d \<le> DEPTH \<Longrightarrow> defaults_at d = Inr (DEFAULTS ! d)"
  by (simp add: defaults_at_def)

text \<open>\<open>kbit k d\<close>: the direction that key \<open>k\<close> takes at depth \<open>d\<close>.\<close>

definition kbit :: "bytes \<Rightarrow> nat \<Rightarrow> bool" where
  "kbit k d = bit (k ! (d div 8)) (7 - d mod 8)"

definition is_key :: "bytes \<Rightarrow> bool" where
  "is_key k \<longleftrightarrow> length k = 32"

lemma is_key_of [simp]: "valid_ref r \<Longrightarrow> is_key (key_of r)"
  by (simp add: is_key_def)

lemma bit_at_key:
  assumes "is_key k" and "d < DEPTH"
  shows "bit_at k d = Inr (if kbit k d then 1 else 0)"
proof -
  have "d div 8 < length k" using assms by (simp add: is_key_def DEPTH_def)
  moreover have "drop_bit n x AND 1 = (if bit x n then 1 else 0)" for x :: byte and n
    by (simp add: and_one_eq mod2_eq_if bit_iff_odd_drop_bit)
  ultimately show ?thesis by (simp add: bit_at_def kbit_def)
qed

lemma select_keys:
  assumes "\<And>k. k \<in> set ks \<Longrightarrow> is_key k" and "d < DEPTH"
  shows "select 0 ks d = Inr (filter (\<lambda>k. \<not> kbit k d) ks)"
    and "select 1 ks d = Inr (filter (\<lambda>k. kbit k d) ks)"
  unfolding select_def by (rule filter_res_Inr; simp add: bit_at_key assms)+

lemma key_bits_inj:
  assumes "is_key k" "is_key k'" and "\<And>d. d < DEPTH \<Longrightarrow> kbit k d = kbit k' d"
  shows "k = k'"
proof (rule nth_equalityI)
  show "length k = length k'" using assms(1,2) by (simp add: is_key_def)
  fix i assume i: "i < length k"
  show "k ! i = k' ! i"
  proof (rule bit_word_eqI)
    fix n assume "n < LENGTH(8)"
    then have n: "n < 8" by simp
    then have "(8 * i + (7 - n)) mod 8 = 7 - n" by (simp only: mod_mult_self4) simp
    with n have "8 * i + (7 - n) < DEPTH" "(8 * i + (7 - n)) div 8 = i" "7 - (8 * i + (7 - n)) mod 8 = n"
      using i assms(1) by (auto simp: is_key_def DEPTH_def)
    then show "bit (k ! i) n = bit (k' ! i) n"
      using assms(3) [of "8 * i + (7 - n)"] by (simp only: kbit_def)
  qed
qed

section \<open>The uncompressed tree\<close>

text \<open>
  The specification: the root of the full binary tree over \<open>n\<close> further levels, with
  one position per bit string and no shortcut for empty or singleton subtrees.
\<close>

fun full_root :: "nat \<Rightarrow> nat \<Rightarrow> bytes list \<Rightarrow> bytes" where
  "full_root 0 d ks = (case ks of [] \<Rightarrow> EMPTY_LEAF | k # _ \<Rightarrow> smt_leaf k)"
| "full_root (Suc n) d ks =
     smt_node (full_root n (Suc d) (filter (\<lambda>k. \<not> kbit k d) ks))
              (full_root n (Suc d) (filter (\<lambda>k. kbit k d) ks))"

definition spec_root :: "nat \<Rightarrow> bytes list \<Rightarrow> bytes" where
  "spec_root d ks = full_root (DEPTH - d) d ks"

lemma spec_root_step:
  "d < DEPTH \<Longrightarrow> spec_root d ks =
     smt_node (spec_root (Suc d) (filter (\<lambda>k. \<not> kbit k d) ks))
              (spec_root (Suc d) (filter (\<lambda>k. kbit k d) ks))"
  by (simp add: spec_root_def flip: Suc_diff_Suc)

lemma spec_root_DEPTH: "spec_root DEPTH ks = (case ks of [] \<Rightarrow> EMPTY_LEAF | k # _ \<Rightarrow> smt_leaf k)"
  by (simp add: spec_root_def)

lemma spec_root_Nil: "d \<le> DEPTH \<Longrightarrow> spec_root d [] = DEFAULTS ! d"
proof (induction rule: inc_induct)
  case base
  show ?case by (simp add: spec_root_DEPTH DEFAULTS_DEPTH)
next
  case (step d)
  then show ?case by (simp add: spec_root_step DEFAULTS_step)
qed

lemma length_spec_root [simp]: "d \<le> DEPTH \<Longrightarrow> length (spec_root d ks) = 32"
  by (cases "d = DEPTH") (auto simp: spec_root_DEPTH spec_root_step split: list.split)

lemma rev_upt_snoc: "d < n \<Longrightarrow> rev [d..<n] = rev [Suc d..<n] @ [d]"
  by (simp add: upt_conv_Cons)

lemma singleton_root_spec:
  assumes "is_key k" and "d \<le> DEPTH"
  shows "singleton_root k d = Inr (spec_root d [k])"
  using assms(2)
proof (induction rule: inc_induct)
  case base
  show ?case by (simp add: singleton_root_def spec_root_DEPTH)
next
  case (step d)
  from step.IH have "fold_res (\<lambda>d node.
         bind_res (defaults_at (d + 1)) (\<lambda>sibling.
         bind_res (bit_at k d) (\<lambda>b.
         Inr (if b = 0 then smt_node node sibling else smt_node sibling node))))
       (rev [Suc d..<DEPTH]) (smt_leaf k) = Inr (spec_root (Suc d) [k])"
    by (simp add: singleton_root_def)
  with step.hyps assms(1) show ?case
    by (simp add: singleton_root_def rev_upt_snoc fold_res_append bit_at_key spec_root_step
        spec_root_Nil)
qed

section \<open>The representation invariant\<close>

fun smt_rep :: "smt_tree \<Rightarrow> nat \<Rightarrow> bytes list \<Rightarrow> bool" where
  "smt_rep (SEmpty h) d ks \<longleftrightarrow> d \<le> DEPTH \<and> ks = [] \<and> h = DEFAULTS ! d"
| "smt_rep (SSingleton h k) d ks \<longleftrightarrow> d \<le> DEPTH \<and> ks = [k] \<and> is_key k \<and> h = spec_root d [k]"
| "smt_rep (SInternal h l r) d ks \<longleftrightarrow>
     d < DEPTH \<and> smt_rep l (Suc d) (filter (\<lambda>k. \<not> kbit k d) ks)
       \<and> smt_rep r (Suc d) (filter (\<lambda>k. kbit k d) ks)
       \<and> h = smt_node (node_hash l) (node_hash r)"

text \<open>The keys below a node at depth \<open>d\<close> agree on their first \<open>d\<close> bits.\<close>

definition agree :: "nat \<Rightarrow> bytes set \<Rightarrow> bool" where
  "agree d K \<longleftrightarrow> (\<forall>k\<in>K. \<forall>k'\<in>K. \<forall>i<d. kbit k i = kbit k' i)"

lemma agree_0 [simp]: "agree 0 K"
  by (simp add: agree_def)

lemma agree_Suc:
  "agree d K \<Longrightarrow> agree (Suc d) {k \<in> K. kbit k d}"
  "agree d K \<Longrightarrow> agree (Suc d) {k \<in> K. \<not> kbit k d}"
  by (auto simp: agree_def less_Suc_eq)

lemma agree_subset: "agree d K \<Longrightarrow> K' \<subseteq> K \<Longrightarrow> agree d K'"
  by (auto simp: agree_def)

lemma agree_two_less:
  assumes "agree d K" "k \<in> K" "k' \<in> K" "k \<noteq> k'" "is_key k" "is_key k'" "d \<le> DEPTH"
  shows "d < DEPTH"
  using assms key_bits_inj [of k k'] by (auto simp: agree_def le_less)

lemma smt_rep_hash: "smt_rep t d ks \<Longrightarrow> node_hash t = spec_root d ks"
  by (induction t d ks rule: smt_rep.induct) (auto simp: spec_root_Nil spec_root_step)

lemma smt_rep_bound: "smt_rep t d ks \<Longrightarrow> d \<le> DEPTH"
  by (cases t) auto

definition wf_keys :: "bytes list \<Rightarrow> bool" where
  "wf_keys ks \<longleftrightarrow> distinct ks \<and> (\<forall>k\<in>set ks. is_key k)"

lemma wf_keys_filter [intro]: "wf_keys ks \<Longrightarrow> wf_keys (filter p ks)"
  by (auto simp: wf_keys_def)

lemma wf_keys_two:
  assumes "wf_keys (k # k' # ks)" "agree d (set (k # k' # ks))" "d \<le> DEPTH"
  shows "d < DEPTH"
  using assms agree_two_less [of d _ k k'] by (simp add: wf_keys_def)

lemma subtree_root_spec:
  "wf_keys ks \<Longrightarrow> agree d (set ks) \<Longrightarrow> d \<le> DEPTH \<Longrightarrow> subtree_root ks d = Inr (spec_root d ks)"
proof (induction ks d rule: subtree_root.induct)
  case (3 k k' ks d)
  let ?ks = "k # k' # ks"
  have d: "d < DEPTH" by (rule wf_keys_two [OF 3(3,4,5)])
  have sel: "select 0 ?ks d = Inr (filter (\<lambda>k. \<not> kbit k d) ?ks)"
            "select 1 ?ks d = Inr (filter (\<lambda>k. kbit k d) ?ks)"
    using 3(3) d by (auto intro!: select_keys simp only: wf_keys_def)
  have l: "subtree_root (filter (\<lambda>k. \<not> kbit k d) ?ks) (Suc d) = Inr (spec_root (Suc d) (filter (\<lambda>k. \<not> kbit k d) ?ks))"
    using 3(3,4) d agree_Suc(2) [OF 3(4)] by (intro 3(1) [OF sel]) (auto simp only: set_filter)
  have r: "subtree_root (filter (\<lambda>k. kbit k d) ?ks) (Suc d) = Inr (spec_root (Suc d) (filter (\<lambda>k. kbit k d) ?ks))"
    using 3(3,4) d agree_Suc(1) [OF 3(4)] by (intro 3(2) [OF sel l]) (auto simp only: set_filter)
  show ?case unfolding subtree_root.simps sel bind_res.simps l r spec_root_step [OF d] ..
qed (auto simp: spec_root_Nil singleton_root_spec wf_keys_def)

lemma build_rep:
  "wf_keys ks \<Longrightarrow> agree d (set ks) \<Longrightarrow> d \<le> DEPTH \<Longrightarrow> \<exists>t. build ks d = Inr t \<and> smt_rep t d ks"
proof (induction ks d rule: build.induct)
  case (3 k k' ks d)
  let ?ks = "k # k' # ks"
  have d: "d < DEPTH" by (rule wf_keys_two [OF 3(3,4,5)])
  have sel: "select 0 ?ks d = Inr (filter (\<lambda>k. \<not> kbit k d) ?ks)"
            "select 1 ?ks d = Inr (filter (\<lambda>k. kbit k d) ?ks)"
    using 3(3) d by (auto intro!: select_keys simp only: wf_keys_def)
  obtain l where l: "build (filter (\<lambda>k. \<not> kbit k d) ?ks) (Suc d) = Inr l"
      "smt_rep l (Suc d) (filter (\<lambda>k. \<not> kbit k d) ?ks)"
    using 3(1) [OF sel(1) wf_keys_filter [OF 3(3)]] d agree_Suc(2) [OF 3(4)]
    by (auto simp only: set_filter Suc_le_eq)
  obtain r where r: "build (filter (\<lambda>k. kbit k d) ?ks) (Suc d) = Inr r"
      "smt_rep r (Suc d) (filter (\<lambda>k. kbit k d) ?ks)"
    using 3(2) [OF sel(1) l(1) sel(2) wf_keys_filter [OF 3(3)]] d agree_Suc(1) [OF 3(4)]
    by (auto simp only: set_filter Suc_le_eq)
  show ?case unfolding build.simps sel bind_res.simps l(1) r(1) using l(2) r(2) d by auto
qed (auto simp: spec_root_Nil singleton_root_spec wf_keys_def)

section \<open>Removing keys\<close>

lemma smt_rep_is_key: "smt_rep t d ks \<Longrightarrow> k \<in> set ks \<Longrightarrow> is_key k"
  by (induction t d ks rule: smt_rep.induct) auto

lemma remove_key_rep:
  "smt_rep t d ks \<Longrightarrow> target \<in> set ks
    \<Longrightarrow> \<exists>t'. remove_key t target d = Inr t' \<and> smt_rep t' d (filter (\<lambda>k. k \<noteq> target) ks)"
proof (induction t d ks rule: smt_rep.induct)
  case (3 h l r d ks)
  have bit: "bit_at target d = Inr (if kbit target d then 1 else 0)"
    using 3(3,4) smt_rep_is_key [OF 3(3)] by (intro bit_at_key) auto
  have same: "filter (\<lambda>k. k \<noteq> target) (filter p ks) = filter p (filter (\<lambda>k. k \<noteq> target) ks)"
    and other: "\<not> p target \<Longrightarrow> filter p (filter (\<lambda>k. k \<noteq> target) ks) = filter p ks" for p
    by (auto simp: conj_commute intro: filter_cong)
  show ?case
  proof (cases "kbit target d")
    case True
    with 3 obtain r' where "remove_key r target (Suc d) = Inr r'"
      "smt_rep r' (Suc d) (filter (\<lambda>k. k \<noteq> target) (filter (\<lambda>k. kbit k d) ks))" by auto
    with True 3(3) bit show ?thesis
      by (auto simp: same other [of "\<lambda>k. \<not> kbit k d"] simp del: filter_filter)
  next
    case False
    with 3 obtain l' where "remove_key l target (Suc d) = Inr l'"
      "smt_rep l' (Suc d) (filter (\<lambda>k. k \<noteq> target) (filter (\<lambda>k. \<not> kbit k d) ks))" by auto
    with False 3(3) bit show ?thesis
      by (auto simp: same other [of "\<lambda>k. kbit k d"] simp del: filter_filter)
  qed
qed auto

lemma remove_steps_rep:
  "smt_rep root 0 (filter (\<lambda>k. k \<notin> removed) ks) \<Longrightarrow> set targets \<subseteq> set ks
    \<Longrightarrow> \<exists>root'. fold_res remove_step targets (root, removed) = Inr (root', removed \<union> set targets)
          \<and> smt_rep root' 0 (filter (\<lambda>k. k \<notin> removed \<union> set targets) ks)"
proof (induction targets arbitrary: root removed)
  case (Cons t ts)
  show ?case
  proof (cases "t \<in> removed")
    case True
    with Cons show ?thesis by (simp add: remove_step_def insert_absorb)
  next
    case False
    with Cons.prems obtain root' where r: "remove_key root t 0 = Inr root'"
      "smt_rep root' 0 (filter (\<lambda>k. k \<noteq> t) (filter (\<lambda>k. k \<notin> removed) ks))"
      using remove_key_rep [OF Cons.prems(1), of t] by auto
    then have "smt_rep root' 0 (filter (\<lambda>k. k \<notin> insert t removed) ks)" by (simp add: conj_commute)
    from Cons.IH [OF this] Cons.prems(2) r(1) False show ?thesis by (auto simp: remove_step_def)
  qed
qed simp

text \<open>The invariant of a \<open>SparseMerkleTree\<close> object.\<close>

definition tree_ok :: "smt \<Rightarrow> bool" where
  "tree_ok t \<longleftrightarrow> wf_keys (tree_keys t) \<and> sorted (tree_keys t)
     \<and> tree_present t = set (tree_keys t) \<and> smt_rep (tree_root t) 0 (tree_keys t)"

lemma tree_ok_root: "tree_ok t \<Longrightarrow> smt_root t = to_hex (spec_root 0 (tree_keys t))"
  by (simp add: tree_ok_def smt_root_def smt_rep_hash)

definition ref_keys :: "string list \<Rightarrow> bytes list" where
  "ref_keys refs = sort (remdups (map key_of refs))"

lemma set_ref_keys [simp]: "set (ref_keys refs) = key_of ` set refs"
  by (simp add: ref_keys_def)

lemma smt_keys_of_valid:
  "list_all valid_ref refs \<Longrightarrow> smt_keys_of refs = Inr (ref_keys refs)"
  by (simp add: smt_keys_of_def map_res_fromhex ref_keys_def)

lemma wf_ref_keys [intro]: "list_all valid_ref refs \<Longrightarrow> wf_keys (ref_keys refs)"
  by (auto simp: wf_keys_def ref_keys_def list_all_iff)

lemma smt_init_ok [wf_intros]:
  assumes "list_all valid_ref refs"
  obtains t where "smt_init refs = Inr t" "tree_ok t" "tree_keys t = ref_keys refs"
proof -
  obtain r where "build (ref_keys refs) 0 = Inr r" "smt_rep r 0 (ref_keys refs)"
    using build_rep [OF wf_ref_keys [OF assms], of 0] by auto
  with assms show thesis
    by (intro that) (auto simp: smt_init_def smt_keys_of_valid tree_ok_def ref_keys_def
        intro: wf_ref_keys [unfolded ref_keys_def])
qed

lemma smt_remove_ok [wf_intros]:
  assumes "tree_ok t" "list_all valid_ref refs" "key_of ` set refs \<subseteq> set (tree_keys t)"
  obtains t' where "smt_remove t refs = Inr t'" "tree_ok t'"
    "tree_keys t' = filter (\<lambda>k. k \<notin> key_of ` set refs) (tree_keys t)"
proof -
  obtain root' where
    "fold_res remove_step (map key_of refs) (tree_root t, {}) = Inr (root', key_of ` set refs)"
    "smt_rep root' 0 (filter (\<lambda>k. k \<notin> key_of ` set refs) (tree_keys t))"
    using remove_steps_rep [of "tree_root t" "{}" "tree_keys t" "map key_of refs"] assms(1,3)
    by (auto simp: tree_ok_def)
  note root' = this
  let ?t = "from_parts (filter (\<lambda>k. k \<notin> key_of ` set refs) (tree_keys t)) root'"
  have "set (map key_of refs) \<subseteq> tree_present t" using assms(1,3) by (simp add: tree_ok_def)
  then have "smt_remove t refs = Inr ?t"
    using root'(1) by (auto simp: smt_remove_def map_res_fromhex [OF assms(2)])
  moreover have "tree_ok ?t"
    using assms(1) root'(2) by (simp add: tree_ok_def from_parts_def wf_keys_filter sorted_wrt_filter)
  ultimately show thesis by (rule that) (simp add: from_parts_def)
qed

lemma smt_remove_missing:
  assumes "tree_ok t" "list_all valid_ref refs" "\<not> key_of ` set refs \<subseteq> set (tree_keys t)"
  shows "smt_remove t refs = Inl ValueError"
proof -
  have "\<exists>k\<in>set (map key_of refs). k \<notin> tree_present t"
    using assms(1,3) unfolding tree_ok_def set_map subset_iff by blast
  then show ?thesis
    unfolding smt_remove_def map_res_fromhex [OF assms(2)] bind_res.simps by (rule if_P)
qed

section \<open>Completeness of absence proofs\<close>

lemma agreeD: "agree d K \<Longrightarrow> k \<in> K \<Longrightarrow> k' \<in> K \<Longrightarrow> i < d \<Longrightarrow> kbit k i = kbit k' i"
  unfolding agree_def by blast

lemma agree_SucI: "agree d K \<Longrightarrow> (\<And>k. k \<in> K \<Longrightarrow> kbit k d = b) \<Longrightarrow> agree (Suc d) K"
proof -
  assume a: "agree d K" and b: "\<And>k. k \<in> K \<Longrightarrow> kbit k d = b"
  have "kbit k i = kbit k' i" if "k \<in> K" "k' \<in> K" "i < Suc d" for k k' i
  proof (cases "i = d")
    case True
    with b [OF that(1)] b [OF that(2)] show ?thesis by simp
  next
    case False
    with that show ?thesis by (intro agreeD [OF a]) simp_all
  qed
  then show ?thesis unfolding agree_def by blast
qed

definition sib :: "(nat \<rightharpoonup> bytes) \<Rightarrow> nat \<Rightarrow> bytes" where
  "sib s d = (case s d of Some h \<Rightarrow> h | None \<Rightarrow> DEFAULTS ! Suc d)"

definition path_node :: "bytes \<Rightarrow> (nat \<rightharpoonup> bytes) \<Rightarrow> nat \<Rightarrow> bytes" where
  "path_node target s d =
     fold (\<lambda>d node. if kbit target d then smt_node (sib s d) node else smt_node node (sib s d))
       (rev [d..<DEPTH]) EMPTY_LEAF"

lemma path_node_DEPTH: "path_node target s DEPTH = EMPTY_LEAF"
  by (simp add: path_node_def)

lemma path_node_step:
  "d < DEPTH \<Longrightarrow> path_node target s d =
     (if kbit target d then smt_node (sib s d) (path_node target s (Suc d))
      else smt_node (path_node target s (Suc d)) (sib s d))"
  by (simp add: path_node_def rev_upt_snoc)

lemma length_path_node [simp]: "d \<le> DEPTH \<Longrightarrow> length (path_node target s d) = 32"
  by (cases "d = DEPTH") (simp_all add: path_node_DEPTH path_node_step)

lemma climb_eq: "is_key target \<Longrightarrow> climb target s = Inr (path_node target s 0)"
  unfolding climb_def path_node_def
  by (rule fold_res_Inr) (auto simp: sibling_at_def bit_at_key sib_def)

lemma path_node_cong:
  "d \<le> DEPTH \<Longrightarrow> (\<And>i. d \<le> i \<Longrightarrow> s i = s' i) \<Longrightarrow> path_node target s d = path_node target s' d"
proof (induction rule: inc_induct)
  case base
  show ?case by (simp only: path_node_DEPTH)
next
  case (step d)
  then have "path_node target s (Suc d) = path_node target s' (Suc d)" "sib s d = sib s' d"
    by (auto simp: sib_def)
  then show ?case by (simp only: path_node_step [OF step.hyps(2)])
qed

lemma path_node_empty: "d \<le> DEPTH \<Longrightarrow> path_node target Map.empty d = DEFAULTS ! d"
  by (induction rule: inc_induct)
    (simp_all add: path_node_DEPTH path_node_step sib_def DEFAULTS_DEPTH DEFAULTS_step)

lemma split_sibling_first:
  assumes "is_key target" "is_key key" "target \<noteq> key" "agree d {target, key}" "d \<le> DEPTH"
  shows "\<exists>i. d \<le> i \<and> i < DEPTH \<and> agree i {target, key} \<and> kbit target i \<noteq> kbit key i
           \<and> split_sibling target key [d..<DEPTH] = Inr [(i, to_hex (spec_root (Suc i) [key]))]"
  using assms(5,4)
proof (induction rule: inc_induct)
  case base
  then have "target = key" using assms(1,2) by (intro key_bits_inj agreeD [OF base]) simp_all
  with assms(3) show ?case by simp
next
  case (step d)
  then have *: "split_sibling target key [d..<DEPTH] =
     (if kbit target d \<noteq> kbit key d then Inr [(d, to_hex (spec_root (Suc d) [key]))]
      else split_sibling target key [Suc d..<DEPTH])"
    using assms(1,2) by (auto simp: upt_conv_Cons bit_at_key singleton_root_spec)
  show ?case
  proof (cases "kbit target d = kbit key d")
    case True
    then have "agree (Suc d) {target, key}" by (intro agree_SucI [OF step.prems, of "kbit key d"]) auto
    then obtain i where "Suc d \<le> i" "i < DEPTH" "agree i {target, key}" "kbit target i \<noteq> kbit key i"
      "split_sibling target key [Suc d..<DEPTH] = Inr [(i, to_hex (spec_root (Suc i) [key]))]"
      using step.IH by blast
    note i = this
    have "split_sibling target key [d..<DEPTH] = split_sibling target key [Suc d..<DEPTH]"
      using * True by simp
    with i show ?thesis by (intro exI [of _ i] conjI) (simp_all add: Suc_leD)
  next
    case False
    with * step show ?thesis by (intro exI [of _ d]) auto
  qed
qed

lemma singleton_path:
  assumes "i < DEPTH" "agree i {target, key}" "kbit target i \<noteq> kbit key i" "d \<le> i"
  shows "path_node target [i \<mapsto> spec_root (Suc i) [key]] d = spec_root d [key]"
  using assms(4)
proof (induction rule: inc_induct)
  case base
  define s where "s = [i \<mapsto> spec_root (Suc i) [key]]"
  have "path_node target s (Suc i) = path_node target Map.empty (Suc i)"
    using assms(1) by (intro path_node_cong) (auto simp: s_def)
  moreover have "sib s i = spec_root (Suc i) [key]" by (simp add: s_def sib_def)
  ultimately show ?case
    using assms(1,3) unfolding s_def [symmetric] path_node_step [OF assms(1)] spec_root_step [OF assms(1)]
    by (auto simp: path_node_empty spec_root_Nil)
next
  case (step d)
  then have "kbit target d = kbit key d" by (intro agreeD [OF assms(2)]) simp_all
  moreover have "d < DEPTH" using step.hyps assms(1) by simp
  moreover have "sib [i \<mapsto> spec_root (Suc i) [key]] d = DEFAULTS ! Suc d"
    using step.hyps by (simp add: sib_def)
  ultimately show ?case
    unfolding path_node_step [OF \<open>d < DEPTH\<close>] spec_root_step [OF \<open>d < DEPTH\<close>] step.IH
    by (simp add: spec_root_Nil)
qed

text \<open>What the verifier reads out of the proof's dict.\<close>

definition decoded :: "(nat \<times> string) list \<Rightarrow> nat \<rightharpoonup> bytes" where
  "decoded sibs = map_of (map (\<lambda>(i, h). (i, key_of h)) sibs)"

definition siblings_ok :: "nat \<Rightarrow> (nat \<times> string) list \<Rightarrow> bool" where
  "siblings_ok d sibs \<longleftrightarrow> sorted_wrt (<) (map fst sibs)
     \<and> (\<forall>(i, h)\<in>set sibs. d \<le> i \<and> i < DEPTH \<and> (\<exists>x. length x = 32 \<and> h = to_hex x))"

lemma siblings_ok_Nil [simp]: "siblings_ok d []"
  by (simp add: siblings_ok_def)

lemma siblings_ok_mono: "siblings_ok (Suc d) sibs \<Longrightarrow> siblings_ok d sibs"
  by (auto simp: siblings_ok_def)

lemma siblings_ok_Cons:
  "siblings_ok (Suc d) sibs \<Longrightarrow> d < DEPTH \<Longrightarrow> length x = 32 \<Longrightarrow> siblings_ok d ((d, to_hex x) # sibs)"
  by (auto simp: siblings_ok_def)

lemma decoded_Cons: "decoded ((d, to_hex x) # sibs) = (decoded sibs)(d \<mapsto> x)"
  by (simp add: decoded_def)

lemma decoded_below: "siblings_ok (Suc d) sibs \<Longrightarrow> decoded sibs d = None"
  by (force simp: siblings_ok_def decoded_def map_of_eq_None_iff)

lemma prove_walk_correct:
  "smt_rep t d ks \<Longrightarrow> is_key target \<Longrightarrow> target \<notin> set ks \<Longrightarrow> agree d (insert target (set ks))
    \<Longrightarrow> \<exists>sibs. prove_walk target t d = Inr sibs \<and> siblings_ok d sibs
          \<and> path_node target (decoded sibs) d = spec_root d ks"
proof (induction t d ks rule: smt_rep.induct)
  case (1 h d ks)
  then show ?case by (simp add: decoded_def path_node_empty spec_root_Nil)
next
  case (2 h k d ks)
  then have "d \<le> DEPTH" "is_key k" "ks = [k]" "target \<noteq> k" "agree d {target, k}" by auto
  with split_sibling_first [OF \<open>is_key target\<close> this(2,4,5,1)] obtain i where
    i: "d \<le> i" "i < DEPTH" "agree i {target, k}" "kbit target i \<noteq> kbit k i"
    and "split_sibling target k [d..<DEPTH] = Inr [(i, to_hex (spec_root (Suc i) [k]))]" by auto
  with \<open>ks = [k]\<close> singleton_path [OF i(2,3,4,1)] show ?case
    by (auto simp: siblings_ok_def decoded_def)
next
  case (3 h l r d ks)
  let ?L = "filter (\<lambda>k. \<not> kbit k d) ks" and ?R = "filter (\<lambda>k. kbit k d) ks"
  let ?sub = "if kbit target d then r else l" and ?oth = "if kbit target d then l else r"
  let ?K = "if kbit target d then ?R else ?L" and ?K' = "if kbit target d then ?L else ?R"
  have d: "d < DEPTH" and bit: "bit_at target d = Inr (if kbit target d then 1 else 0)"
    using 3(3,4) by (auto simp: bit_at_key)
  have "agree (Suc d) (insert target (set ?K))"
    by (rule agree_SucI [OF agree_subset [OF 3(6)], of _ "kbit target d"]) (auto split: if_splits)
  then obtain sibs where sibs: "prove_walk target ?sub (Suc d) = Inr sibs" "siblings_ok (Suc d) sibs"
      "path_node target (decoded sibs) (Suc d) = spec_root (Suc d) ?K"
    using 3 by (auto split: if_splits)
  have oth: "node_hash ?oth = spec_root (Suc d) ?K'" using 3(3) by (auto simp: smt_rep_hash)
  let ?sibs = "if node_hash ?oth \<noteq> DEFAULTS ! Suc d then (d, to_hex (node_hash ?oth)) # sibs else sibs"
  have walk: "prove_walk target (SInternal h l r) d = Inr ?sibs"
    using d bit sibs(1) by (cases "kbit target d") (simp_all add: Let_def)
  have len: "length (node_hash ?oth) = 32" using oth d by simp
  have "siblings_ok d ?sibs"
    using sibs(2) d len by (simp add: siblings_ok_Cons siblings_ok_mono)
  moreover have "path_node target (decoded ?sibs) (Suc d) = spec_root (Suc d) ?K"
    "sib (decoded ?sibs) d = spec_root (Suc d) ?K'"
  proof -
    have "path_node target ((decoded sibs)(d \<mapsto> node_hash ?oth)) (Suc d) = path_node target (decoded sibs) (Suc d)"
      using d by (intro path_node_cong) auto
    then show "path_node target (decoded ?sibs) (Suc d) = spec_root (Suc d) ?K"
      using sibs(3) by (cases "kbit target d") (simp_all add: decoded_Cons)
    show "sib (decoded ?sibs) d = spec_root (Suc d) ?K'"
      unfolding oth [symmetric] by (simp add: decoded_Cons sib_def decoded_below [OF sibs(2)])
  qed
  moreover have "path_node target s (Suc d) = spec_root (Suc d) ?K \<Longrightarrow> sib s d = spec_root (Suc d) ?K'
      \<Longrightarrow> path_node target s d = spec_root d ks" for s
    unfolding path_node_step [OF d] spec_root_step [OF d] by (cases "kbit target d") simp_all
  ultimately show ?case using walk by blast
qed

lemma siblings_ok_tl: "siblings_ok d (x # sibs) \<Longrightarrow> siblings_ok d sibs"
  by (auto simp: siblings_ok_def)

lemma parse_sibling_hex:
  "i < DEPTH \<Longrightarrow> length x = 32
    \<Longrightarrow> parse_sibling (KInt (int i), PStr (to_hex x)) (Some m) = Inr (Some (m(i \<mapsto> x)))"
  by (simp add: parse_sibling_def)

lemma parse_siblings:
  "siblings_ok d sibs \<Longrightarrow>
   fold_res parse_sibling (map (\<lambda>(i, h). (KInt (int i), PStr h)) sibs) (Some m) = Inr (Some (m ++ decoded sibs))"
proof (induction sibs arbitrary: m)
  case (Cons p sibs)
  from Cons.prems obtain i x where p: "p = (i, to_hex x)" "i < DEPTH" "length x = 32"
    by (cases p) (auto simp: siblings_ok_def)
  with Cons.prems have "i \<notin> dom (decoded sibs)"
    by (auto simp: siblings_ok_def decoded_def domIff map_of_eq_None_iff)
  then have eq: "m(i \<mapsto> x) ++ decoded sibs = m ++ (decoded sibs)(i \<mapsto> x)"
    by (simp add: map_add_upd_left)
  show ?case
    unfolding p(1) list.map prod.case fold_res.simps parse_sibling_hex [OF p(2,3)] bind_res.simps
      Cons.IH [OF siblings_ok_tl [OF Cons.prems]] decoded_Cons eq ..
qed (simp add: decoded_def)

lemma parse_proof_of_siblings:
  "valid_ref r \<Longrightarrow> siblings_ok 0 sibs
    \<Longrightarrow> smt_parse_proof (PStr r) (proof_of_siblings sibs) = Inr (Some (key_of r, decoded sibs))"
  by (simp add: smt_parse_proof_def proof_of_siblings_def valid_ref_fromhex parse_siblings DEPTH_def)

lemma smt_prove_verifies:
  assumes "tree_ok t" "valid_ref r" "key_of r \<notin> set (tree_keys t)"
  obtains pf where "smt_prove t r = Inr pf"
    "verify_absence (PStr r) pf (PStr (smt_root t)) = Inr True"
proof -
  obtain sibs where s: "prove_walk (key_of r) (tree_root t) 0 = Inr sibs" "siblings_ok 0 sibs"
      "path_node (key_of r) (decoded sibs) 0 = spec_root 0 (tree_keys t)"
    using prove_walk_correct [of "tree_root t" 0 "tree_keys t" "key_of r"] assms
    by (auto simp: tree_ok_def)
  show thesis
  proof (rule that)
    show "smt_prove t r = Inr (proof_of_siblings sibs)"
      using assms s(1) by (simp add: smt_prove_def valid_ref_fromhex tree_ok_def)
    show "verify_absence (PStr r) (proof_of_siblings sibs) (PStr (smt_root t)) = Inr True"
      using assms(1,2) s(2,3)
      by (simp add: verify_absence_def parse_proof_of_siblings catch_as_def climb_eq tree_ok_root)
  qed
qed

lemma smt_prove_present:
  "tree_ok t \<Longrightarrow> valid_ref r \<Longrightarrow> key_of r \<in> set (tree_keys t) \<Longrightarrow> smt_prove t r = Inl ValueError"
  by (simp add: smt_prove_def valid_ref_fromhex tree_ok_def)

section \<open>The verifier is total\<close>

lemma fold_res_error:
  "fold_res f xs s = Inl e \<Longrightarrow> \<exists>x\<in>set xs. \<exists>s'. f x s' = Inl e"
  by (induction xs arbitrary: s) (auto simp: res_simps)

lemma parse_sibling_error: "parse_sibling p acc = Inl e \<Longrightarrow> e \<in> {ValueError, TypeError}"
  by (cases p)
    (auto simp: parse_sibling_def res_simps split: option.splits if_splits
      dest: int_of_key_error fromhex_val_error)

lemma parse_siblings_error:
  "fold_res parse_sibling items acc = Inl e \<Longrightarrow> e = ValueError \<or> e = TypeError"
  by (drule fold_res_error) (auto dest: parse_sibling_error)

lemma smt_parse_error:
  "smt_parse_proof r pf = Inl e \<Longrightarrow> e \<in> {ValueError, TypeError, KeyError, AttributeError}"
  by (auto simp: smt_parse_proof_def res_simps split: if_splits option.splits
      dest!: fromhex_val_error get_default_error getitem_error parse_siblings_error)

lemma parse_sibling_lengths:
  assumes "parse_sibling p (Some m) = Inr (Some m')" "\<And>h. h \<in> ran m \<Longrightarrow> length h = 32"
  shows "h \<in> ran m' \<Longrightarrow> length h = 32"
proof -
  from assms(1) obtain d x where "m' = m(d \<mapsto> x)" "length x = 32"
    by (cases p) (auto simp: parse_sibling_def res_simps split: if_splits)
  moreover assume "h \<in> ran m'"
  ultimately show ?thesis using assms(2) [of h] by (auto simp: ran_def split: if_splits)
qed

lemma fold_parse_None: "fold_res parse_sibling items None = Inr None"
  by (induction items) (auto simp: parse_sibling_def)

lemma fold_parse_lengths:
  "fold_res parse_sibling items (Some m) = Inr (Some m') \<Longrightarrow> (\<And>h. h \<in> ran m \<Longrightarrow> length h = 32)
    \<Longrightarrow> h \<in> ran m' \<Longrightarrow> length h = 32"
proof (induction items arbitrary: m)
  case (Cons p items)
  from Cons.prems(1) obtain acc where acc: "parse_sibling p (Some m) = Inr acc"
      "fold_res parse_sibling items acc = Inr (Some m')" by (auto simp: res_simps)
  then obtain m1 where "acc = Some m1" by (cases acc) (auto simp: fold_parse_None)
  with acc Cons.IH [of m1] parse_sibling_lengths [of p m m1] Cons.prems(2,3) show ?case by blast
qed simp

lemma parsed_lengths:
  "fold_res parse_sibling items (Some Map.empty) = Inr (Some s) \<Longrightarrow> h \<in> ran s \<Longrightarrow> length h = 32"
  by (rule fold_parse_lengths) auto

lemma smt_parse_dest:
  assumes "smt_parse_proof r pf = Inr (Some (target, s))"
  shows "is_key target" and "fromhex_val r = Inr target" and "h \<in> ran s \<Longrightarrow> length h = 32"
  using assms
  by (auto simp: smt_parse_proof_def res_simps is_key_def DEPTH_def split: if_splits option.splits
      dest: parsed_lengths)

lemma verify_absence_eq:
  "verify_absence r pf root =
     Inr (case smt_parse_proof r pf of
            Inr (Some (target, s)) \<Rightarrow> PStr (to_hex (path_node target s 0)) = root
          | _ \<Rightarrow> False)"
proof (cases "smt_parse_proof r pf")
  case (Inl e)
  with smt_parse_error [OF Inl] show ?thesis by (simp add: verify_absence_def catch_as_def)
next
  case (Inr parsed)
  then show ?thesis
    by (cases parsed) (auto simp: verify_absence_def catch_as_def climb_eq dest: smt_parse_dest(1))
qed

section \<open>Soundness of absence proofs\<close>

text \<open>
  The inputs hashed along the target's path: those of the honest tree over the keys
  \<open>ks\<close> (a node over the keys that share the target's first \<open>d\<close> bits), and those that
  checking a proof hashes.
\<close>

definition on_path :: "bytes \<Rightarrow> nat \<Rightarrow> bytes list \<Rightarrow> bytes list" where
  "on_path target d ks = filter (\<lambda>k. \<forall>i<d. kbit k i = kbit target i) ks"

definition tree_input :: "bytes \<Rightarrow> bytes list \<Rightarrow> nat \<Rightarrow> bytes" where
  "tree_input target ks d =
     (let K = on_path target d ks in
      1 # spec_root (Suc d) (filter (\<lambda>k. \<not> kbit k d) K) @ spec_root (Suc d) (filter (\<lambda>k. kbit k d) K))"

definition climb_input :: "bytes \<Rightarrow> (nat \<rightharpoonup> bytes) \<Rightarrow> nat \<Rightarrow> bytes" where
  "climb_input target s d =
     (if kbit target d then 1 # sib s d @ path_node target s (Suc d)
      else 1 # path_node target s (Suc d) @ sib s d)"

definition smt_inputs :: "bytes \<Rightarrow> bytes list \<Rightarrow> (nat \<rightharpoonup> bytes) \<Rightarrow> bytes list" where
  "smt_inputs target ks s =
     (0 # target) # (2 # utf8 ''unlearnshield-empty'')
       # map (tree_input target ks) [0..<DEPTH] @ map (climb_input target s) [0..<DEPTH]"

lemma on_path_Suc:
  "on_path target (Suc d) ks = filter (\<lambda>k. kbit k d = kbit target d) (on_path target d ks)"
  by (auto simp: on_path_def less_Suc_eq intro!: filter_cong)

lemma on_path_0 [simp]: "on_path target 0 ks = ks"
  by (simp add: on_path_def)

lemma on_path_mem: "target \<in> set ks \<Longrightarrow> target \<in> set (on_path target d ks)"
  by (simp add: on_path_def)

lemma on_path_DEPTH:
  assumes "\<And>k. k \<in> set ks \<Longrightarrow> is_key k" "target \<in> set ks"
  obtains rest where "on_path target DEPTH ks = target # rest"
proof -
  have "k = target" if k: "k \<in> set (on_path target DEPTH ks)" for k
  proof (rule key_bits_inj)
    from k have *: "k \<in> set ks" "\<forall>i<DEPTH. kbit k i = kbit target i"
      unfolding on_path_def set_filter by blast+
    show "is_key k" "is_key target" by (intro assms *)+
    show "i < DEPTH \<Longrightarrow> kbit k i = kbit target i" for i using *(2) by blast
  qed
  then have "\<forall>k\<in>set (on_path target DEPTH ks). k = target" by blast
  moreover have "on_path target DEPTH ks \<noteq> []"
    using on_path_mem [OF assms(2), of DEPTH] by (metis list.set_sel(1) list.set(1) empty_iff)
  ultimately have "on_path target DEPTH ks = target # tl (on_path target DEPTH ks)"
    by (metis list.collapse list.set_sel(1))
  then show thesis by (rule that)
qed

lemma spec_root_input: "d < DEPTH \<Longrightarrow> spec_root d (on_path target d ks) = sha256 (tree_input target ks d)"
  by (simp add: spec_root_step tree_input_def smt_node_def Let_def)

lemma path_node_input: "d < DEPTH \<Longrightarrow> path_node target s d = sha256 (climb_input target s d)"
  by (simp add: path_node_step [of d] climb_input_def smt_node_def)

lemma length_sib: "(\<And>h. h \<in> ran s \<Longrightarrow> length h = 32) \<Longrightarrow> d < DEPTH \<Longrightarrow> length (sib s d) = 32"
  by (auto simp: sib_def ran_def split: option.split)

lemma input_eq_step:
  assumes "tree_input target ks d = climb_input target s d" "d < DEPTH"
    and "\<And>h. h \<in> ran s \<Longrightarrow> length h = 32"
  shows "path_node target s (Suc d) = spec_root (Suc d) (on_path target (Suc d) ks)"
  using assms(1,2) length_sib [OF assms(3) assms(2)]
  by (cases "kbit target d") (simp_all add: tree_input_def climb_input_def on_path_Suc Let_def)

lemma forged_path_collides:
  assumes keys: "\<And>k. k \<in> set ks \<Longrightarrow> is_key k" "target \<in> set ks"
    and len: "\<And>h. h \<in> ran s \<Longrightarrow> length h = 32"
    and d: "d \<le> DEPTH"
  shows "path_node target s d = spec_root d (on_path target d ks) \<Longrightarrow> collision_in (smt_inputs target ks s)"
  using d
proof (induction rule: inc_induct)
  case base
  obtain rest where "on_path target DEPTH ks = target # rest" by (rule on_path_DEPTH [OF keys])
  with base have "sha256 (2 # utf8 ''unlearnshield-empty'') = sha256 (0 # target)"
    by (simp add: path_node_DEPTH spec_root_DEPTH EMPTY_LEAF_def smt_leaf_def)
  then show ?case by (rule collision_inI [rotated 3]) (auto simp: smt_inputs_def)
next
  case (step d)
  show ?case
  proof (cases "tree_input target ks d = climb_input target s d")
    case True
    from step.IH [OF input_eq_step [OF True step.hyps(2) len]] show ?thesis .
  next
    case False
    moreover have "sha256 (tree_input target ks d) = sha256 (climb_input target s d)"
      using step.prems step.hyps by (simp add: spec_root_input path_node_input)
    ultimately show ?thesis
      using step.hyps
      by (intro collision_inI [of "tree_input target ks d" _ "climb_input target s d"])
        (auto simp: smt_inputs_def)
  qed
qed

definition smt_evidence :: "string \<Rightarrow> bytes list \<Rightarrow> pyval \<Rightarrow> bytes list" where
  "smt_evidence r ks pf =
     (case smt_parse_proof (PStr r) pf of
        Inr (Some (target, s)) \<Rightarrow> smt_inputs target ks s
      | _ \<Rightarrow> [])"

lemma smt_sound:
  assumes "\<And>k. k \<in> set ks \<Longrightarrow> is_key k" "valid_ref r" "key_of r \<in> set ks"
  shows "verify_absence (PStr r) pf (PStr (to_hex (spec_root 0 ks))) = Inr False
     \<or> collision_in (smt_evidence r ks pf)"
proof (cases "smt_parse_proof (PStr r) pf")
  case (Inl e)
  then show ?thesis by (simp add: verify_absence_eq)
next
  case (Inr parsed)
  show ?thesis
  proof (cases parsed)
    case None
    with Inr show ?thesis by (simp add: verify_absence_eq)
  next
    case (Some p)
    then obtain target s where p: "smt_parse_proof (PStr r) pf = Inr (Some (target, s))"
      using Inr by (cases p) auto
    from smt_parse_dest(2) [OF p] assms(2) have "target = key_of r" by (simp add: valid_ref_fromhex)
    with p show ?thesis
      using forged_path_collides [where ks = ks and target = "key_of r" and s = s and d = 0, OF assms(1)]
        smt_parse_dest(3) [OF p] assms(3)
      by (auto simp: verify_absence_eq smt_evidence_def)
  qed
qed

section \<open>The cache never answers for another key set\<close>

lemma tree_for_shard_ok:
  assumes "list_all valid_ref refs" "\<And>t. cache shard = Some t \<Longrightarrow> tree_ok t"
  obtains t where "tree_for_shard cache shard refs = Inr t" "tree_ok t"
    "tree_keys t = ref_keys refs \<or> collides (concat (tree_keys t)) (concat (ref_keys refs))"
proof (cases "\<exists>t. cache shard = Some t \<and> smt_fingerprint t = sha256 (concat (ref_keys refs))")
  case True
  then obtain t where t: "cache shard = Some t" "sha256 (concat (tree_keys t)) = sha256 (concat (ref_keys refs))"
    by (auto simp: smt_fingerprint_def)
  have "tree_keys t = ref_keys refs" if "concat (tree_keys t) = concat (ref_keys refs)"
  proof (rule concat_same_length_inj [OF that, of 32])
    show "k \<in> set (tree_keys t) \<Longrightarrow> length k = 32" for k
      using assms(2) [OF t(1)] by (auto simp: tree_ok_def wf_keys_def is_key_def)
    show "k \<in> set (ref_keys refs) \<Longrightarrow> length k = 32" for k
      using assms(1) by (auto simp: list_all_iff)
  qed simp
  with t assms show thesis
    by (intro that [of t]) (auto simp: tree_for_shard_def fingerprint_of_def smt_keys_of_valid
        smt_fingerprint_def collides_def)
next
  case False
  obtain t where "smt_init refs = Inr t" "tree_ok t" "tree_keys t = ref_keys refs"
    by (rule smt_init_ok [OF assms(1)])
  with False assms(1) show thesis
    by (intro that [of t]) (auto simp: tree_for_shard_def fingerprint_of_def smt_keys_of_valid
        split: option.split)
qed

section \<open>The size of a proof\<close>

text \<open>
  Every sibling in a proof stands for a subtree that holds at least one key, and
  these subtrees are disjoint: a proof has no more siblings than the tree has keys.
\<close>

lemma split_sibling_length: "split_sibling target key ds = Inr sibs \<Longrightarrow> length sibs \<le> 1"
  by (induction target key ds rule: split_sibling.induct) (auto simp: res_simps split: if_splits)

lemma prove_walk_length:
  "prove_walk target t d = Inr sibs \<Longrightarrow> smt_rep t d ks \<Longrightarrow> length sibs \<le> length ks"
proof (induction t d ks arbitrary: sibs rule: smt_rep.induct)
  case (3 h l r d ks)
  let ?oth = "if kbit target d then l else r"
  have sum: "length (filter (\<lambda>k. \<not> kbit k d) ks) + length (filter (\<lambda>k. kbit k d) ks) = length ks"
    using sum_length_filter_compl [of "\<lambda>k. kbit k d" ks] by simp
  have d: "d < DEPTH" and l: "smt_rep l (Suc d) (filter (\<lambda>k. \<not> kbit k d) ks)"
    and r: "smt_rep r (Suc d) (filter (\<lambda>k. kbit k d) ks)" using 3(4) by auto
  have nonempty: "node_hash t \<noteq> DEFAULTS ! Suc d \<Longrightarrow> smt_rep t (Suc d) K \<Longrightarrow> 1 \<le> length K" for t K
    using d by (cases K) (auto simp: smt_rep_hash spec_root_Nil)
  from 3(3) d obtain b rest where b: "bit_at target d = Inr b"
    and rest: "prove_walk target (if b = 0 then l else r) (Suc d) = Inr rest"
    and sibs: "sibs = (if node_hash (if b = 0 then r else l) \<noteq> DEFAULTS ! Suc d
        then (d, to_hex (node_hash (if b = 0 then r else l))) # rest else rest)"
    by (auto simp: res_simps Let_def split: if_splits)
  show ?case
  proof (cases "b = 0")
    case True
    with rest 3(1) [of rest] l have "length rest \<le> length (filter (\<lambda>k. \<not> kbit k d) ks)" by simp
    with sum nonempty [OF _ r] sibs True show ?thesis by (auto simp del: length_filter_le)
  next
    case False
    with rest 3(2) [of rest] r have "length rest \<le> length (filter (\<lambda>k. kbit k d) ks)" by simp
    with sum nonempty [OF _ l] sibs False show ?thesis by (auto simp del: length_filter_le)
  qed
qed (auto split: if_splits dest: split_sibling_length)

section \<open>The module's contract\<close>

lemma build_root_spec:
  "list_all valid_ref refs \<Longrightarrow> build_root refs = Inr (to_hex (spec_root 0 (ref_keys refs)))"
  by (simp add: build_root_def smt_keys_of_valid subtree_root_spec wf_ref_keys)

lemma smt_init_root:
  assumes "list_all valid_ref refs"
  shows "\<exists>t. smt_init refs = Inr t \<and> tree_ok t \<and> tree_keys t = ref_keys refs
           \<and> smt_root t = to_hex (spec_root 0 (ref_keys refs))"
proof -
  obtain t where "smt_init refs = Inr t" "tree_ok t" "tree_keys t = ref_keys refs"
    by (rule smt_init_ok [OF assms])
  then show ?thesis by (auto simp: tree_ok_root)
qed

lemma spec_root_set:
  "d \<le> DEPTH \<Longrightarrow> agree d (set ks) \<Longrightarrow> (\<And>k. k \<in> set ks \<Longrightarrow> is_key k) \<Longrightarrow> set ks = set ks'
    \<Longrightarrow> spec_root d ks = spec_root d ks'"
proof (induction arbitrary: ks ks' rule: inc_induct)
  case base
  have eq: "k = k'" if "k \<in> set ks" "k' \<in> set ks" for k k'
    using that base(2) agreeD [OF base(1) that] by (intro key_bits_inj) auto
  show ?case
  proof (cases ks)
    case Nil
    with base(3) show ?thesis by simp
  next
    case (Cons k rest)
    with base(3) obtain k' rest' where "ks' = k' # rest'" by (cases ks') auto
    moreover have "k = k'" using base(3) Cons calculation by (intro eq) auto
    ultimately show ?thesis using Cons by (simp add: spec_root_DEPTH)
  qed
next
  case (step d)
  have "spec_root (Suc d) (filter p ks) = spec_root (Suc d) (filter p ks')"
    if "p = (\<lambda>k. kbit k d) \<or> p = (\<lambda>k. \<not> kbit k d)" for p
    using that step.prems(2,3) agree_Suc [OF step.prems(1)]
    by (intro step.IH) (auto simp only: set_filter)
  then show ?case unfolding spec_root_step [OF step.hyps(2)] by metis
qed

lemma ref_keys_survivors:
  "set (filter (\<lambda>k. k \<notin> key_of ` set gone) (ref_keys refs))
     = set (ref_keys (filter (\<lambda>r. key_of r \<notin> key_of ` set gone) refs))"
  by auto

lemma smt_remove_rebuild:
  assumes "smt_init refs = Inr t" "list_all valid_ref refs" "list_all valid_ref gone"
    "key_of ` set gone \<subseteq> key_of ` set refs"
  defines "left \<equiv> filter (\<lambda>r. key_of r \<notin> key_of ` set gone) refs"
  shows "\<exists>t'. smt_remove t gone = Inr t' \<and> tree_ok t' \<and> set (tree_keys t') = set (ref_keys left)
           \<and> Inr (smt_root t') = build_root left"
proof -
  have t: "tree_ok t" "tree_keys t = ref_keys refs" using smt_init_root [OF assms(2)] assms(1) by auto
  obtain t' where t': "smt_remove t gone = Inr t'" "tree_ok t'"
      "tree_keys t' = filter (\<lambda>k. k \<notin> key_of ` set gone) (tree_keys t)"
    using smt_remove_ok [OF t(1) assms(3)] assms(4) t(2) by auto
  have same: "set (tree_keys t') = set (ref_keys left)"
    unfolding t'(3) t(2) left_def by (rule ref_keys_survivors)
  moreover have "spec_root 0 (tree_keys t') = spec_root 0 (ref_keys left)"
    using t'(2) by (intro spec_root_set same) (auto simp: tree_ok_def wf_keys_def)
  moreover have "list_all valid_ref left" using assms(2) by (auto simp: left_def list_all_iff)
  ultimately show ?thesis using t'(1,2) by (auto simp: build_root_spec tree_ok_root)
qed

lemma smt_prove_shape:
  assumes "tree_ok t" "valid_ref r" "smt_prove t r = Inr pf"
  shows "\<exists>sibs. pf = proof_of_siblings sibs \<and> siblings_ok 0 sibs \<and> length sibs \<le> length (tree_keys t)"
proof -
  have rep: "smt_rep (tree_root t) 0 (tree_keys t)" using assms(1) by (simp add: tree_ok_def)
  from assms obtain sibs where "key_of r \<notin> set (tree_keys t)" "pf = proof_of_siblings sibs"
      "prove_walk (key_of r) (tree_root t) 0 = Inr sibs"
    by (auto simp: smt_prove_def valid_ref_fromhex tree_ok_def res_simps split: if_splits)
  with prove_walk_correct [OF rep, of "key_of r"] prove_walk_length [OF _ rep] assms(2)
  show ?thesis by (intro exI [of _ sibs]) simp
qed

lemma length_ref_keys: "length (ref_keys refs) = card (key_of ` set refs)"
  by (simp add: ref_keys_def length_remdups_card_conv)

section \<open>The contract of an absence scheme\<close>

interpretation sparse: absence_scheme build_root prove_absence verify_absence
  "\<lambda>r refs. smt_evidence r (ref_keys refs)"
proof
  fix refs root r pf
  assume refs: "list_all valid_ref refs" and r: "valid_ref r"
  obtain t where t: "smt_init refs = Inr t" "tree_ok t" "tree_keys t = ref_keys refs"
    by (rule smt_init_ok [OF refs])
  {
    assume "build_root refs = Inr root"
    then have root: "root = to_hex (spec_root 0 (ref_keys refs))" using build_root_spec [OF refs] by simp
    show "\<exists>pf. prove_absence r refs = Inr pf \<and> verify_absence (PStr r) pf (PStr root) = Inr True"
      if "key_of r \<notin> key_of ` set refs"
      using smt_prove_verifies [OF t(2) r] that t by (auto simp: prove_absence_def root tree_ok_root)
    show "collision_in (smt_evidence r (ref_keys refs) pf)"
      if "key_of r \<in> key_of ` set refs" "verify_absence (PStr r) pf (PStr root) = Inr True"
      using smt_sound [of "ref_keys refs" r pf] that r wf_ref_keys [OF refs]
      by (auto simp: root wf_keys_def)
  }
  show "prove_absence r refs = Inl ValueError" if "key_of r \<in> key_of ` set refs"
    using smt_prove_present [OF t(2) r] that t by (simp add: prove_absence_def)
qed

section \<open>Properties\<close>

text \<open>
  C15 The compressed computation of the root (singleton and empty subtrees cut short)
  and the materialised tree both give the root of the uncompressed tree of depth 256
  over the same keys.
\<close>

theorem smt_root_is_full_root:
  assumes "list_all valid_ref refs"
  shows "build_root refs = Inr (to_hex (full_root 256 0 (ref_keys refs)))
     \<and> (\<exists>t. smt_init refs = Inr t \<and> smt_root t = to_hex (full_root 256 0 (ref_keys refs)))"
  using build_root_spec [OF assms] smt_init_root [OF assms] by (auto simp: spec_root_def DEPTH_def)

theorem smt_root_is_full_root_witness:
  "build_root [to_hex (replicate 32 1), to_hex (replicate 32 0)]
     = Inr (to_hex (full_root 256 0 (ref_keys [to_hex (replicate 32 1), to_hex (replicate 32 0)])))"
  by (rule smt_root_is_full_root [THEN conjunct1]) simp

text \<open>
  C10 Removing keys from a tree hashes only the paths of the removed keys, and gives the
  root that a fresh build over the surviving references has.
\<close>

theorem smt_remove_is_rebuild:
  assumes "smt_init refs = Inr t" "list_all valid_ref refs" "list_all valid_ref gone"
    and "key_of ` set gone \<subseteq> key_of ` set refs"
  shows "\<exists>t'. smt_remove t gone = Inr t'
     \<and> build_root (filter (\<lambda>r. key_of r \<notin> key_of ` set gone) refs) = Inr (smt_root t')"
  using smt_remove_rebuild [OF assms] by metis

theorem smt_remove_is_rebuild_witness:
  "\<exists>t t'. smt_init [to_hex (replicate 32 1), to_hex (replicate 32 0)] = Inr t
     \<and> smt_remove t [to_hex (replicate 32 1)] = Inr t'
     \<and> build_root (filter (\<lambda>r. key_of r \<notin> key_of ` set [to_hex (replicate 32 1)])
          [to_hex (replicate 32 1), to_hex (replicate 32 0)]) = Inr (smt_root t')"
proof -
  let ?refs = "[to_hex (replicate 32 1), to_hex (replicate 32 0)]"
  obtain t where "smt_init ?refs = Inr t" by (rule smt_init_ok [of ?refs]) simp
  with smt_remove_is_rebuild [OF this, of "[to_hex (replicate 32 1)]"] show ?thesis by auto
qed

text \<open>
  A removal that names a reference outside the tree is refused as a whole with
  ValueError.
\<close>

theorem smt_remove_unknown:
  assumes "smt_init refs = Inr t" "list_all valid_ref refs" "list_all valid_ref gone"
    and "\<not> key_of ` set gone \<subseteq> key_of ` set refs"
  shows "smt_remove t gone = Inl ValueError"
  using smt_init_root [OF assms(2)] assms(1,4) by (intro smt_remove_missing assms(3)) auto

theorem smt_remove_unknown_witness:
  "\<exists>t. smt_init [to_hex (replicate 32 1)] = Inr t
     \<and> smt_remove t [to_hex (replicate 32 1), to_hex (replicate 32 2)] = Inl ValueError"
proof -
  let ?refs = "[to_hex (replicate 32 1)]"
  obtain t where "smt_init ?refs = Inr t" by (rule smt_init_ok [of ?refs]) simp
  with smt_remove_unknown [OF this, of "[to_hex (replicate 32 1), to_hex (replicate 32 2)]"]
  show ?thesis by (auto simp: replicate_eq_replicate)
qed

text \<open>
  C8 Completeness over the life of a tree: after any removal, every reference that is
  no longer committed, the removed ones among them, has a proof that verifies against
  the tree's root, and that root is the one anybody rebuilds from the survivors.
\<close>

theorem smt_erased_provable:
  assumes "smt_init refs = Inr t" "smt_remove t gone = Inr t'"
    and "list_all valid_ref refs" "list_all valid_ref gone" "valid_ref r"
    and "key_of r \<in> key_of ` set gone \<or> key_of r \<notin> key_of ` set refs"
  shows "\<exists>pf. smt_prove t' r = Inr pf \<and> verify_absence (PStr r) pf (PStr (smt_root t')) = Inr True
     \<and> build_root (filter (\<lambda>r. key_of r \<notin> key_of ` set gone) refs) = Inr (smt_root t')"
proof -
  have t: "tree_ok t" "set (tree_keys t) = key_of ` set refs"
    using smt_init_root [OF assms(3)] assms(1) by auto
  have "key_of ` set gone \<subseteq> key_of ` set refs"
  proof (rule ccontr)
    assume "\<not> ?thesis"
    then have "smt_remove t gone = Inl ValueError"
      by (intro smt_remove_missing t(1) assms(4)) (simp only: t(2) not_False_eq_True)
    with assms(2) show False by simp
  qed
  from smt_remove_rebuild [OF assms(1,3,4) this] assms(2)
  have t': "tree_ok t'"
    "set (tree_keys t') = set (ref_keys (filter (\<lambda>r. key_of r \<notin> key_of ` set gone) refs))"
    "build_root (filter (\<lambda>r. key_of r \<notin> key_of ` set gone) refs) = Inr (smt_root t')" by auto
  have "key_of r \<notin> set (tree_keys t')" using assms(6)
    unfolding t'(2) set_ref_keys set_filter by (metis (mono_tags, lifting) imageE imageI mem_Collect_eq)
  with smt_prove_verifies [OF t'(1) assms(5)] t'(3) show ?thesis by metis
qed

theorem smt_erased_provable_witness:
  "\<exists>t' pf. smt_prove t' (to_hex (replicate 32 1)) = Inr pf
     \<and> verify_absence (PStr (to_hex (replicate 32 1))) pf (PStr (smt_root t')) = Inr True"
proof -
  let ?refs = "[to_hex (replicate 32 1), to_hex (replicate 32 0)]" and ?gone = "[to_hex (replicate 32 1)]"
  obtain t where t: "smt_init ?refs = Inr t" "tree_ok t" "tree_keys t = ref_keys ?refs"
    by (rule smt_init_ok [of ?refs]) simp
  obtain t' where "smt_remove t ?gone = Inr t'"
    by (rule smt_remove_ok [OF t(2), of ?gone]) (auto simp: t(3))
  from smt_erased_provable [OF t(1) this, of "to_hex (replicate 32 1)"] show ?thesis by auto
qed

text \<open>
  C7 Soundness: a committed reference has no proof. Generating one raises ValueError,
  and whatever value is presented as a proof, the verifier rejects it, or two
  explicitly listed inputs (among those hashed for the tree and for the check) collide
  under SHA-256.
\<close>

theorem smt_absence_sound:
  assumes "build_root refs = Inr root" "list_all valid_ref refs" "valid_ref r"
    and "key_of r \<in> key_of ` set refs"
  shows "prove_absence r refs = Inl ValueError
     \<and> (verify_absence (PStr r) pf (PStr root) = Inr False
        \<or> collision_in (smt_evidence r (ref_keys refs) pf))"
proof -
  obtain t where t: "smt_init refs = Inr t" "tree_ok t" "tree_keys t = ref_keys refs"
    by (rule smt_init_ok [OF assms(2)])
  then have "prove_absence r refs = Inl ValueError"
    using assms(3,4) by (simp add: prove_absence_def smt_prove_present)
  moreover have "root = to_hex (spec_root 0 (ref_keys refs))"
    using assms(1) build_root_spec [OF assms(2)] by simp
  moreover have "k \<in> set (ref_keys refs) \<Longrightarrow> is_key k" for k
    using wf_ref_keys [OF assms(2)] by (auto simp: wf_keys_def)
  ultimately show ?thesis using smt_sound [of "ref_keys refs" r pf] assms(3,4) by simp
qed

theorem smt_absence_sound_witness:
  "\<exists>root. build_root [to_hex (replicate 32 1)] = Inr root
     \<and> (verify_absence (PStr (to_hex (replicate 32 1))) (proof_of_siblings []) (PStr root) = Inr False
        \<or> collision_in (smt_evidence (to_hex (replicate 32 1))
             (ref_keys [to_hex (replicate 32 1)]) (proof_of_siblings [])))"
proof -
  let ?r = "to_hex (replicate 32 1)"
  have "build_root [?r] = Inr (to_hex (spec_root 0 (ref_keys [?r])))" by (rule build_root_spec) simp
  with smt_absence_sound [OF this, of ?r "proof_of_siblings []"] show ?thesis by auto
qed

text \<open>
  The verifier never raises: whatever the reference, the proof and the root are, the
  answer is a boolean.
\<close>

theorem smt_verify_total: "\<exists>b. verify_absence target_ref pf root_hex = Inr b"
  unfolding verify_absence_eq by blast

text \<open>
  A proof is small and well formed: at most one sibling for each committed
  reference, at strictly increasing depths below 256, each the hex text of 32 bytes.
\<close>

theorem smt_proof_size:
  assumes "prove_absence r refs = Inr pf" "list_all valid_ref refs" "valid_ref r"
  shows "\<exists>sibs. pf = proof_of_siblings sibs \<and> sorted_wrt (<) (map fst sibs)
     \<and> list_all (\<lambda>(d, h). d < 256 \<and> valid_ref h) sibs \<and> length sibs \<le> card (key_of ` set refs)"
proof -
  obtain t where t: "smt_init refs = Inr t" "tree_ok t" "tree_keys t = ref_keys refs"
    by (rule smt_init_ok [OF assms(2)])
  with assms(1) have "smt_prove t r = Inr pf" by (simp add: prove_absence_def)
  from smt_prove_shape [OF t(2) assms(3) this] t(3) show ?thesis
    unfolding siblings_ok_def list_all_iff DEPTH_def length_ref_keys
    by (elim exE conjE) (rule exI, auto simp: length_ref_keys)
qed

theorem smt_proof_size_witness:
  "\<exists>sibs. prove_absence (to_hex (replicate 32 1)) [to_hex (replicate 32 0)] = Inr (proof_of_siblings sibs)
     \<and> length sibs \<le> 1"
proof -
  let ?refs = "[to_hex (replicate 32 0)]" and ?r = "to_hex (replicate 32 1)"
  obtain t where t: "smt_init ?refs = Inr t" "tree_ok t" "tree_keys t = ref_keys ?refs"
    by (rule smt_init_ok [of ?refs]) simp
  obtain pf where "smt_prove t ?r = Inr pf"
    by (rule smt_prove_verifies [OF t(2), of ?r]) (auto simp: t(3) replicate_eq_replicate)
  with t(1) have "prove_absence ?r ?refs = Inr pf" by (simp add: prove_absence_def)
  with smt_proof_size [OF this] show ?thesis by auto
qed

text \<open>
  The tree cache: the tree that a lookup returns is well formed and is over exactly
  the current references, or the cached key set collides with them under the
  fingerprint hash.
\<close>

theorem tree_for_shard_current:
  assumes "list_all valid_ref refs" "cache shard = None \<or> (\<exists>old. list_all valid_ref old \<and> smt_init old = Inr t0 \<and> cache shard = Some t0)"
  shows "\<exists>t. tree_for_shard cache shard refs = Inr t
     \<and> (build_root refs = Inr (smt_root t) \<or> collides (concat (tree_keys t)) (concat (ref_keys refs)))"
proof -
  have "tree_ok t" if "cache shard = Some t" for t using that assms(2) smt_init_root by fastforce
  then obtain t where t: "tree_for_shard cache shard refs = Inr t" "tree_ok t"
      "tree_keys t = ref_keys refs \<or> collides (concat (tree_keys t)) (concat (ref_keys refs))"
    using tree_for_shard_ok [OF assms(1)] by metis
  then show ?thesis using build_root_spec [OF assms(1)] by (auto simp: tree_ok_root)
qed

theorem tree_for_shard_current_witness:
  "\<exists>t. tree_for_shard Map.empty 0 [to_hex (replicate 32 1)] = Inr t
     \<and> (build_root [to_hex (replicate 32 1)] = Inr (smt_root t)
        \<or> collides (concat (tree_keys t)) (concat (ref_keys [to_hex (replicate 32 1)])))"
  by (rule tree_for_shard_current) simp_all

end
