(* ===== verification/Merkle.thy ===== *)
theory Merkle
  imports Absence
begin

text \<open>
  \<open>verify/merkle.py\<close>: the sorted RFC 6962 Merkle tree and its non-inclusion proofs
  (names without the leading underscore; \<open>_mth\<close>, \<open>_audit_path\<close> and \<open>_split\<close> are \<open>mth\<close>,
  \<open>audit_path\<close> and \<open>split\<close>). The verifier's loop over \<open>fn\<close> and \<open>sn\<close> is related to the
  recursive splitting of the tree by the list of directions that each takes
  (\<open>dirs\<close> and \<open>tree_dirs\<close>); completeness and soundness of audit paths follow by
  induction on the tree.
\<close>

unbundle bit_operations_syntax

section \<open>Hashing\<close>

definition commit_input :: "nat \<Rightarrow> bytes \<Rightarrow> bytes" where
  "commit_input tree_size mth_root = 2 # be64 tree_size @ mth_root"

text \<open>\<open>_commit\<close>: OverflowError when the size does not fit into eight bytes.\<close>

definition commit :: "nat \<Rightarrow> bytes \<Rightarrow> string res" where
  "commit tree_size mth_root =
     bind_res (to_bytes8 tree_size) (\<lambda>b. Inr (to_hex (sha256 (2 # b @ mth_root))))"

definition EMPTY_ROOT :: string where
  "EMPTY_ROOT = (case commit 0 (sha256 []) of Inr h \<Rightarrow> h | Inl _ \<Rightarrow> [])"

definition leaf_hash :: "bytes \<Rightarrow> bytes" where
  "leaf_hash data = sha256 (0 # data)"

definition node_hash2 :: "bytes \<Rightarrow> bytes \<Rightarrow> bytes" where
  "node_hash2 left right = sha256 (1 # left @ right)"

fun bit_length :: "nat \<Rightarrow> nat" where
  "bit_length n = (if n = 0 then 0 else Suc (bit_length (n div 2)))"

declare bit_length.simps [simp del]

text \<open>\<open>_split\<close>, which the code calls with \<open>n \<ge> 2\<close> only.\<close>

definition split :: "nat \<Rightarrow> nat" where
  "split n = 2 ^ (bit_length (n - 1) - 1)"

lemma bit_length_bounds: "0 < n \<Longrightarrow> 2 ^ (bit_length n - 1) \<le> n \<and> n < 2 ^ bit_length n \<and> 0 < bit_length n"
proof (induction n rule: bit_length.induct)
  case (1 n)
  show ?case
  proof (cases "n div 2 = 0")
    case True
    with 1(2) have "n = 1" by simp
    then show ?thesis
      unfolding bit_length.simps [of n] True by (simp add: bit_length.simps [of 0])
  next
    case False
    then have "2 ^ (bit_length (n div 2) - 1) \<le> n div 2" "n div 2 < 2 ^ bit_length (n div 2)"
        "0 < bit_length (n div 2)" using 1 by auto
    moreover from this obtain m where m: "bit_length (n div 2) = Suc m" by (cases "bit_length (n div 2)") auto
    moreover have "bit_length n = Suc (Suc m)" using 1(2) m by (subst bit_length.simps) simp
    ultimately show ?thesis by simp linarith
  qed
qed

lemma split_bounds:
  assumes "2 \<le> n"
  obtains m where "split n = 2 ^ m" "2 ^ m < n" "n \<le> 2 ^ Suc m"
proof -
  have "0 < n - 1" using assms by simp
  from bit_length_bounds [OF this] obtain m where m: "bit_length (n - 1) = Suc m" "2 ^ m \<le> n - 1"
    "n - 1 < 2 ^ Suc m" by (cases "bit_length (n - 1)") auto
  show thesis
  proof (rule that)
    show "split n = 2 ^ m" using m(1) by (simp add: split_def)
    show "2 ^ m < n" using m(2) assms by linarith
    show "n \<le> 2 ^ Suc m" using m(3) assms by linarith
  qed
qed

lemma split_less: "2 \<le> n \<Longrightarrow> 0 < split n \<and> split n < n"
  by (erule split_bounds) simp

function mth :: "bytes list \<Rightarrow> bytes" where
  "mth leaves =
     (if length leaves = 0 then sha256 []
      else if length leaves = 1 then leaf_hash (leaves ! 0)
      else node_hash2 (mth (take (split (length leaves)) leaves)) (mth (drop (split (length leaves)) leaves)))"
  by pat_completeness auto
termination
proof (relation "measure length")
  fix leaves :: "bytes list"
  assume "length leaves \<noteq> 0" "length leaves \<noteq> 1"
  then have "2 \<le> length leaves" by linarith
  from split_less [OF this] show "(take (split (length leaves)) leaves, leaves) \<in> measure length"
    "(drop (split (length leaves)) leaves, leaves) \<in> measure length" by auto
qed simp

declare mth.simps [simp del]

function audit_path :: "nat \<Rightarrow> bytes list \<Rightarrow> bytes list" where
  "audit_path index leaves =
     (if length leaves \<le> 1 then []
      else let k = split (length leaves) in
        if index < k then audit_path index (take k leaves) @ [mth (drop k leaves)]
        else audit_path (index - k) (drop k leaves) @ [mth (take k leaves)])"
  by pat_completeness auto
termination
proof (relation "measure (\<lambda>(index, leaves). length leaves)")
  fix leaves :: "bytes list" and k index
  assume "\<not> length leaves \<le> 1" and k: "k = split (length leaves)"
  then have "2 \<le> length leaves" by simp
  from split_less [OF this] k show
    "((index, take k leaves), index, leaves) \<in> measure (\<lambda>(index, leaves). length leaves)"
    "((index - k, drop k leaves), index, leaves) \<in> measure (\<lambda>(index, leaves). length leaves)" by auto
qed simp

declare audit_path.simps [simp del]

definition sorted_leaves :: "string list \<Rightarrow> bytes list res" where
  "sorted_leaves refs = bind_res (map_res fromhex refs) (\<lambda>ks. Inr (sort (remdups ks)))"

definition merkle_build_root :: "string list \<Rightarrow> string res" where
  "merkle_build_root refs = bind_res (sorted_leaves refs) (\<lambda>leaves. commit (length leaves) (mth leaves))"

section \<open>Audit paths\<close>

text \<open>\<open>while fn != 0 and not (fn & 1)\<close>.\<close>

fun strip_zeros :: "nat \<Rightarrow> nat \<Rightarrow> nat \<times> nat" where
  "strip_zeros fn sn =
     (if fn \<noteq> 0 \<and> \<not> odd fn then strip_zeros (fn div 2) (sn div 2) else (fn, sn))"

declare strip_zeros.simps [simp del]

fun path_loop :: "bytes list \<Rightarrow> nat \<Rightarrow> nat \<Rightarrow> bytes \<Rightarrow> bytes option" where
  "path_loop [] fn sn node = (if sn = 0 then Some node else None)"
| "path_loop (sibling # path) fn sn node =
     (if sn = 0 then None
      else if odd fn \<or> fn = sn then
        (let (fn, sn) = strip_zeros fn sn in
         path_loop path (fn div 2) (sn div 2) (node_hash2 sibling node))
      else path_loop path (fn div 2) (sn div 2) (node_hash2 node sibling))"

definition reconstruct_root :: "bytes \<Rightarrow> int \<Rightarrow> nat \<Rightarrow> bytes list \<Rightarrow> bytes option" where
  "reconstruct_root leaf index tree_size path =
     (if int tree_size \<le> index \<or> index < 0 then None
      else path_loop path (nat index) (tree_size - 1) (leaf_hash leaf))"

definition verify_audit_path :: "bytes \<Rightarrow> int \<Rightarrow> nat \<Rightarrow> bytes list \<Rightarrow> pyval \<Rightarrow> bool res" where
  "verify_audit_path leaf index tree_size path committed_root =
     (case reconstruct_root leaf index tree_size path of
        None \<Rightarrow> Inr False
      | Some node \<Rightarrow> bind_res (commit tree_size node) (\<lambda>c. Inr (PStr c = committed_root)))"

section \<open>Absence proofs\<close>

text \<open>The bisection loop; \<open>lo < hi \<le> len(leaves)\<close> keeps the subscript in range.\<close>

function bisect :: "bytes list \<Rightarrow> bytes \<Rightarrow> nat \<Rightarrow> nat \<Rightarrow> nat" where
  "bisect leaves target lo hi =
     (if lo < hi then
        let mid = (lo + hi) div 2 in
        if leaves ! mid < target then bisect leaves target (mid + 1) hi
        else bisect leaves target lo mid
      else lo)"
  by pat_completeness auto
termination by (relation "measure (\<lambda>(_, _, lo, hi). hi - lo)") auto

declare bisect.simps [simp del]

definition absence_entry :: "bytes list \<Rightarrow> nat \<Rightarrow> pyval" where
  "absence_entry leaves i =
     PDict [(KStr ''leaf'', PStr (to_hex (leaves ! i))), (KStr ''index'', PInt (int i)),
            (KStr ''path'', PList (map (\<lambda>h. PStr (to_hex h)) (audit_path i leaves)))]"

definition merkle_prove_absence :: "string \<Rightarrow> string list \<Rightarrow> pyval res" where
  "merkle_prove_absence target_ref refs =
     bind_res (sorted_leaves refs) (\<lambda>leaves.
     bind_res (fromhex target_ref) (\<lambda>target.
       let n = length leaves; lo = bisect leaves target 0 n in
       if lo < n \<and> leaves ! lo = target then Inl ValueError
       else Inr (PDict [(KStr ''tree_size'', PInt (int n)),
         (KStr ''predecessor'', if 0 < lo then absence_entry leaves (lo - 1) else PNone),
         (KStr ''successor'', if lo < n then absence_entry leaves lo else PNone)])))"

text \<open>Iteration over a value, as in \<open>for h in entry["path"]\<close>.\<close>

fun key_val :: "pykey \<Rightarrow> pyval" where
  "key_val (KInt i) = PInt i"
| "key_val (KStr s) = PStr s"

fun iter_val :: "pyval \<Rightarrow> pyval list res" where
  "iter_val (PList xs) = Inr xs"
| "iter_val (PStr s) = Inr (map (\<lambda>c. PStr [c]) s)"
| "iter_val (PDict d) = Inr (map (key_val \<circ> fst) d)"
| "iter_val _ = Inl TypeError"

text \<open>The two \<open>try\<close> blocks; \<open>check\<close> returns \<open>None\<close> where the code does.\<close>

definition parse_entry :: "pyval \<Rightarrow> (bytes \<times> bytes list \<times> pyval) res" where
  "parse_entry entry =
     bind_res (getitem entry ''leaf'') (\<lambda>l. bind_res (fromhex_val l) (\<lambda>leaf.
     bind_res (getitem entry ''path'') (\<lambda>p. bind_res (iter_val p) (\<lambda>hs.
     bind_res (map_res fromhex_val hs) (\<lambda>path.
     bind_res (getitem entry ''index'') (\<lambda>index. Inr (leaf, path, index)))))))"

definition check :: "nat \<Rightarrow> pyval \<Rightarrow> pyval \<Rightarrow> bytes option res" where
  "check tree_size root_hex entry =
     bind_res (catch_as {ValueError, TypeError, KeyError} None (map_sum id Some (parse_entry entry)))
       (\<lambda>parsed. case parsed of
          None \<Rightarrow> Inr None
        | Some (leaf, path, index) \<Rightarrow>
            (case int_of_val index of
               None \<Rightarrow> Inr None
             | Some i \<Rightarrow> bind_res (verify_audit_path leaf i tree_size path root_hex)
                          (\<lambda>ok. Inr (if ok then Some leaf else None))))"

definition parse_absence :: "pyval \<Rightarrow> pyval \<Rightarrow> (bytes \<times> pyval \<times> pyval \<times> pyval) res" where
  "parse_absence target_ref pf =
     bind_res (fromhex_val target_ref) (\<lambda>target.
     bind_res (getitem pf ''tree_size'') (\<lambda>n.
     bind_res (get_default pf ''predecessor'' PNone) (\<lambda>pred.
     bind_res (get_default pf ''successor'' PNone) (\<lambda>succ. Inr (target, n, pred, succ)))))"

text \<open>\<open>v + 1\<close>: a bool counts as a number, anything else raises TypeError.\<close>

definition add_one :: "pyval \<Rightarrow> int res" where
  "add_one v = (case int_of_val v of Some i \<Rightarrow> Inr (i + 1) | None \<Rightarrow> Inl TypeError)"

definition brackets :: "bytes \<Rightarrow> nat \<Rightarrow> pyval \<Rightarrow> pyval \<Rightarrow> pyval \<Rightarrow> bool res" where
  "brackets target tree_size pred succ root_hex =
     (if pred = PNone then
        if succ = PNone then Inr False
        else bind_res (get_default succ ''index'' PNone) (\<lambda>i.
          if int_of_val i \<noteq> Some 0 then Inr False
          else bind_res (check tree_size root_hex succ) (\<lambda>leaf.
            Inr (case leaf of Some l \<Rightarrow> target < l | None \<Rightarrow> False)))
      else if succ = PNone then
        bind_res (get_default pred ''index'' PNone) (\<lambda>i.
          if int_of_val i \<noteq> Some (int tree_size - 1) then Inr False
          else bind_res (check tree_size root_hex pred) (\<lambda>leaf.
            Inr (case leaf of Some l \<Rightarrow> l < target | None \<Rightarrow> False)))
      else
        bind_res (get_default succ ''index'' PNone) (\<lambda>j.
        bind_res (get_default pred ''index'' (PInt (- 99))) (\<lambda>i.
        bind_res (add_one i) (\<lambda>i1.
          if int_of_val j \<noteq> Some i1 then Inr False
          else bind_res (check tree_size root_hex pred) (\<lambda>lo.
            bind_res (check tree_size root_hex succ) (\<lambda>hi.
            Inr (case (lo, hi) of (Some l, Some h) \<Rightarrow> l < target \<and> target < h | _ \<Rightarrow> False)))))))"

definition merkle_verify_absence :: "pyval \<Rightarrow> pyval \<Rightarrow> pyval \<Rightarrow> bool res" where
  "merkle_verify_absence target_ref pf root_hex =
     bind_res (catch_as {ValueError, TypeError, KeyError} None (map_sum id Some (parse_absence target_ref pf)))
       (\<lambda>parsed. case parsed of
          None \<Rightarrow> Inr False
        | Some (target, sz, pred, succ) \<Rightarrow>
            (case root_hex of
               PStr _ \<Rightarrow>
                 (case int_of_val sz of
                    None \<Rightarrow> Inr False
                  | Some n \<Rightarrow>
                      if n < 0 then Inr False
                      else if n = 0 then Inr (pred = PNone \<and> succ = PNone \<and> root_hex = PStr EMPTY_ROOT)
                      else brackets target (nat n) pred succ root_hex)
             | _ \<Rightarrow> Inr False))"

section \<open>The directions of an audit path\<close>

lemma strip_zeros_le: "strip_zeros fn sn = (f, s) \<Longrightarrow> f \<le> fn \<and> s \<le> sn"
proof (induction fn sn rule: strip_zeros.induct)
  case (1 fn sn)
  show ?case
  proof (cases "fn \<noteq> 0 \<and> \<not> odd fn")
    case True
    with 1 have "f \<le> fn div 2 \<and> s \<le> sn div 2" by (simp add: strip_zeros.simps [of fn])
    then show ?thesis by linarith
  next
    case False
    with 1(2) show ?thesis by (auto simp: strip_zeros.simps [of fn])
  qed
qed

lemma strip_zeros_odd [simp]: "odd fn \<Longrightarrow> strip_zeros fn sn = (fn, sn)"
  by (simp add: strip_zeros.simps)

lemma strip_zeros_same: "\<exists>f. strip_zeros fn fn = (f, f)"
proof (induction fn rule: less_induct)
  case (less fn)
  then show ?case by (cases "fn \<noteq> 0 \<and> \<not> odd fn") (auto simp: strip_zeros.simps [of fn])
qed

text \<open>The directions that the verifier's loop takes: \<open>True\<close> where the node is a right child.\<close>

function dirs :: "nat \<Rightarrow> nat \<Rightarrow> bool list" where
  "dirs fn sn =
     (if sn = 0 then []
      else if odd fn \<or> fn = sn then
        True # dirs (fst (strip_zeros fn sn) div 2) (snd (strip_zeros fn sn) div 2)
      else False # dirs (fn div 2) (sn div 2))"
  by pat_completeness auto
termination
proof (relation "measure snd")
  fix fn sn :: nat
  assume "sn \<noteq> 0"
  moreover have "snd (strip_zeros fn sn) \<le> sn"
    using strip_zeros_le [of fn sn] by (cases "strip_zeros fn sn") simp
  ultimately show "((fst (strip_zeros fn sn) div 2, snd (strip_zeros fn sn) div 2), fn, sn) \<in> measure snd"
    by simp
qed simp_all

declare dirs.simps [simp del]

lemma dirs_0 [simp]: "dirs fn 0 = []"
  by (simp add: dirs.simps)

lemma dirs_odd: "sn \<noteq> 0 \<Longrightarrow> odd fn \<Longrightarrow> dirs fn sn = True # dirs (fn div 2) (sn div 2)"
  by (simp add: dirs.simps [of fn sn])

lemma dirs_even: "sn \<noteq> 0 \<Longrightarrow> even fn \<Longrightarrow> fn \<noteq> sn \<Longrightarrow> dirs fn sn = False # dirs (fn div 2) (sn div 2)"
  by (simp add: dirs.simps [of fn sn])

lemma dirs_halve:
  assumes "fn \<noteq> 0" "even fn"
  shows "dirs fn fn = dirs (fn div 2) (fn div 2)"
proof -
  have h: "fn div 2 \<noteq> 0" "strip_zeros fn fn = strip_zeros (fn div 2) (fn div 2)"
    using assms by (auto simp: strip_zeros.simps [of fn] elim: evenE)
  show ?thesis unfolding dirs.simps [of fn fn] dirs.simps [of "fn div 2" "fn div 2"] using assms(1) h by simp
qed

definition climb_step :: "bool \<times> bytes \<Rightarrow> bytes \<Rightarrow> bytes" where
  "climb_step = (\<lambda>(right, sibling) node. if right then node_hash2 sibling node else node_hash2 node sibling)"

lemma path_loop_dirs:
  "fn \<le> sn \<Longrightarrow> path_loop path fn sn node =
     (if length path = length (dirs fn sn) then Some (fold climb_step (zip (dirs fn sn) path) node) else None)"
proof (induction path fn sn node rule: path_loop.induct)
  case (1 fn sn node)
  then show ?case by (auto simp: dirs.simps [of fn sn])
next
  case (2 sibling path fn sn node)
  obtain f s where fs: "strip_zeros fn sn = (f, s)" by fastforce
  show ?case
  proof (cases "sn = 0")
    case False
    show ?thesis
    proof (cases "odd fn \<or> fn = sn")
      case True
      have "f \<le> s"
      proof (cases "odd fn")
        case True
        with fs 2(3) show ?thesis by simp
      next
        case False
        with True fs strip_zeros_same [of fn] show ?thesis by auto
      qed
      then have "f div 2 \<le> s div 2" by (rule div_le_mono)
      from 2(1) [OF False True fs [symmetric] refl this] fs False True show ?thesis
        by (simp add: dirs.simps [of fn sn] climb_step_def)
    next
      case right: False
      have "fn div 2 \<le> sn div 2" using 2(3) by (rule div_le_mono)
      from 2(2) [OF False right this] False right show ?thesis
        by (simp add: dirs.simps [of fn sn] climb_step_def)
    qed
  qed simp
qed

subsection \<open>The directions in the tree\<close>

function tree_dirs :: "nat \<Rightarrow> nat \<Rightarrow> bool list" where
  "tree_dirs i n =
     (if n \<le> 1 then []
      else if i < split n then tree_dirs i (split n) @ [False]
      else tree_dirs (i - split n) (n - split n) @ [True])"
  by pat_completeness auto
termination
proof (relation "measure snd")
  fix i n :: nat
  assume "\<not> n \<le> 1"
  then have "2 \<le> n" by simp
  from split_less [OF this] show "((i, split n), i, n) \<in> measure snd"
    "((i - split n, n - split n), i, n) \<in> measure snd" by auto
qed simp

declare tree_dirs.simps [simp del]

lemma half_bounds:
  "(i::nat) < 2 ^ Suc m \<Longrightarrow> i div 2 < 2 ^ m" "2 ^ Suc m \<le> (s::nat) \<Longrightarrow> 2 ^ m \<le> s div 2"
  by auto

lemma dirs_left:
  "i < 2 ^ m \<Longrightarrow> 2 ^ m \<le> sn \<Longrightarrow> sn < 2 ^ Suc m
    \<Longrightarrow> dirs i sn = map (\<lambda>j. odd (i div 2 ^ j)) [0..<m] @ [False]"
proof (induction m arbitrary: i sn)
  case 0
  then have "i = 0" "sn = 1" by auto
  then show ?case by (simp add: dirs_even)
next
  case (Suc m)
  then have ne: "sn \<noteq> 0" "i \<noteq> sn" by auto
  have "sn div 2 < 2 ^ Suc m" using Suc.prems(3) by simp
  from Suc.IH [OF half_bounds(1) [OF Suc.prems(1)] half_bounds(2) [OF Suc.prems(2)] this]
  have "dirs (i div 2) (sn div 2) = map (\<lambda>j. odd (i div 2 ^ Suc j)) [0..<m] @ [False]"
    by (simp add: div_mult2_eq)
  moreover have "dirs i sn = odd i # dirs (i div 2) (sn div 2)"
    using ne by (cases "odd i") (simp_all add: dirs_odd dirs_even)
  moreover have "map (\<lambda>j. odd (i div 2 ^ j)) [0..<Suc m] = odd i # map (\<lambda>j. odd (i div 2 ^ Suc j)) [0..<m]"
    by (simp only: map_upt_Suc power_0 div_by_1)
  ultimately show ?case by simp
qed

lemma dirs_perfect:
  "i < 2 ^ m \<Longrightarrow> dirs i (2 ^ m - 1) = map (\<lambda>j. odd (i div 2 ^ j)) [0..<m]"
proof (induction m arbitrary: i)
  case (Suc m)
  have half: "(2 ^ Suc m - 1) div 2 = (2 ^ m - 1 :: nat)" and odd: "odd (2 ^ Suc m - 1 :: nat)" by auto
  then have ne: "2 ^ Suc m - 1 \<noteq> (0::nat)" by (metis even_zero)
  have "dirs i (2 ^ Suc m - 1) = odd i # dirs (i div 2) (2 ^ m - 1)"
  proof (cases "odd i")
    case True
    then show ?thesis unfolding dirs_odd [OF ne True] half by simp
  next
    case False
    with odd have "i \<noteq> 2 ^ Suc m - 1" by metis
    with False show ?thesis by (simp only: dirs_even ne half not_False_eq_True not_True_eq_False not_not)
  qed
  moreover have "dirs (i div 2) (2 ^ m - 1) = map (\<lambda>j. odd (i div 2 ^ Suc j)) [0..<m]"
    using Suc.IH [OF half_bounds(1) [OF Suc.prems]] by (simp add: div_mult2_eq)
  moreover have "map (\<lambda>j. odd (i div 2 ^ j)) [0..<Suc m] = odd i # map (\<lambda>j. odd (i div 2 ^ Suc j)) [0..<m]"
    by (simp only: map_upt_Suc power_0 div_by_1)
  ultimately show ?case by simp
qed simp

lemma dirs_pow2: "dirs (2 ^ m) (2 ^ m) = [True]"
proof (induction m)
  case 0
  show ?case by (simp add: dirs_odd)
next
  case (Suc m)
  then show ?case by (simp add: dirs_halve)
qed

lemma dirs_right: "a \<le> b \<Longrightarrow> b < 2 ^ m \<Longrightarrow> dirs (2 ^ m + a) (2 ^ m + b) = dirs a b @ [True]"
proof (induction m arbitrary: a b)
  case 0
  then show ?case by (simp add: dirs_odd)
next
  case (Suc m)
  have half: "(2 ^ Suc m + x) div 2 = 2 ^ m + x div 2" and par: "odd (2 ^ Suc m + x) = odd x" for x :: nat
    by auto
  have IH: "dirs (2 ^ m + a div 2) (2 ^ m + b div 2) = dirs (a div 2) (b div 2) @ [True]"
    using Suc.prems by (intro Suc.IH div_le_mono half_bounds(1))
  have ne: "2 ^ Suc m + b \<noteq> 0" by simp
  consider "b = 0" | "b \<noteq> 0" "odd a" | "b \<noteq> 0" "even a" "a \<noteq> b" | "b \<noteq> 0" "even a" "a = b" by blast
  then show ?case
  proof cases
    case 1
    with Suc.prems(1) show ?thesis using dirs_pow2 [of "Suc m"] by simp
  next
    case 2
    with par [of a] show ?thesis using IH by (simp only: dirs_odd ne half append_Cons not_False_eq_True)
  next
    case 3
    then have "even (2 ^ Suc m + a)" "2 ^ Suc m + a \<noteq> 2 ^ Suc m + b" by simp_all
    with 3 show ?thesis using IH by (simp only: dirs_even ne half append_Cons not_False_eq_True)
  next
    case 4
    then have "even (2 ^ Suc m + b)" by simp
    with 4 show ?thesis using IH by (simp only: dirs_halve ne half not_False_eq_True)
  qed
qed

theorem dirs_tree_dirs: "i < n \<Longrightarrow> dirs i (n - 1) = tree_dirs i n"
proof (induction n arbitrary: i rule: less_induct)
  case (less n)
  show ?case
  proof (cases "n \<le> 1")
    case True
    with less.prems show ?thesis by (simp add: tree_dirs.simps [of i n])
  next
    case False
    then have "2 \<le> n" by simp
    then obtain m where m: "split n = 2 ^ m" "2 ^ m < n" "n \<le> 2 ^ Suc m" by (rule split_bounds)
    show ?thesis
    proof (cases "i < 2 ^ m")
      case True
      have "dirs i (n - 1) = dirs i (2 ^ m - 1) @ [False]"
        using dirs_left [OF True, of "n - 1"] dirs_perfect [OF True] m(2,3) by simp
      also have "dirs i (2 ^ m - 1) = tree_dirs i (2 ^ m)" by (rule less.IH [OF m(2) True])
      finally show ?thesis using False m(1) True by (simp add: tree_dirs.simps [of i n])
    next
      case right: False
      have "dirs (2 ^ m + (i - 2 ^ m)) (2 ^ m + (n - 2 ^ m - 1)) = dirs (i - 2 ^ m) (n - 2 ^ m - 1) @ [True]"
        using less.prems m right by (intro dirs_right) auto
      moreover have "dirs (i - 2 ^ m) (n - 2 ^ m - 1) = tree_dirs (i - 2 ^ m) (n - 2 ^ m)"
        using less.prems right m(2) by (intro less.IH) auto
      moreover have "2 ^ m + (i - 2 ^ m) = i" "2 ^ m + (n - 2 ^ m - 1) = n - 1" using right m(2) by auto
      ultimately show ?thesis using False m(1) right by (simp add: tree_dirs.simps [of i n])
    qed
  qed
qed

section \<open>Audit paths reconstruct the root, and only for the leaf at the index\<close>

lemma length_leaf_hash [simp]: "length (leaf_hash x) = 32"
  by (simp add: leaf_hash_def)

lemma length_node_hash2 [simp]: "length (node_hash2 l r) = 32"
  by (simp add: node_hash2_def)

lemma length_mth [simp]: "length (mth leaves) = 32"
  by (subst mth.simps) simp

lemma mth_one: "length leaves = 1 \<Longrightarrow> mth leaves = leaf_hash (leaves ! 0)"
  by (subst mth.simps) simp

lemma mth_split:
  "2 \<le> length leaves \<Longrightarrow> mth leaves =
     node_hash2 (mth (take (split (length leaves)) leaves)) (mth (drop (split (length leaves)) leaves))"
  by (subst mth.simps) auto

lemma length_audit_path: "i < length leaves \<Longrightarrow> length (audit_path i leaves) = length (tree_dirs i (length leaves))"
proof (induction i leaves rule: audit_path.induct)
  case (1 i leaves)
  show ?case
  proof (cases "length leaves \<le> 1")
    case False
    then have s: "split (length leaves) < length leaves" using split_less [of "length leaves"] by simp
    show ?thesis
    proof (cases "i < split (length leaves)")
      case True
      with 1(1) [OF False refl True] s False show ?thesis
        by (simp add: audit_path.simps [of i leaves] tree_dirs.simps [of i "length leaves"] Let_def)
    next
      case right: False
      with 1(2) [OF False refl right] s False 1(3) show ?thesis
        by (simp add: audit_path.simps [of i leaves] tree_dirs.simps [of i "length leaves"] Let_def)
    qed
  qed (simp add: audit_path.simps [of i leaves] tree_dirs.simps [of i "length leaves"])
qed

definition climb_path :: "bytes \<Rightarrow> bool list \<Rightarrow> bytes list \<Rightarrow> bytes" where
  "climb_path leaf ds path = fold climb_step (zip ds path) (leaf_hash leaf)"

lemma climb_path_snoc:
  "length ds = length path \<Longrightarrow>
   climb_path leaf (ds @ [d]) (path @ [s]) = climb_step (d, s) (climb_path leaf ds path)"
  by (simp add: climb_path_def)

lemma length_climb_path [simp]: "length (climb_path leaf ds path) = 32"
proof -
  have "length node = 32 \<Longrightarrow> length (fold climb_step xs node) = 32" for xs node
    by (induction xs arbitrary: node) (auto simp: climb_step_def)
  then show ?thesis by (simp add: climb_path_def)
qed

lemma climb_audit_path:
  "i < length leaves \<Longrightarrow> climb_path (leaves ! i) (tree_dirs i (length leaves)) (audit_path i leaves) = mth leaves"
proof (induction i leaves rule: audit_path.induct)
  case (1 i leaves)
  let ?k = "split (length leaves)"
  show ?case
  proof (cases "length leaves \<le> 1")
    case True
    with 1(3) have "length leaves = 1" "i = 0" by linarith+
    then show ?thesis by (simp add: audit_path.simps tree_dirs.simps climb_path_def mth_one)
  next
    case False
    then have s: "?k < length leaves" using split_less [of "length leaves"] by simp
    show ?thesis
    proof (cases "i < ?k")
      case True
      with 1(1) [OF False refl True] s length_audit_path [of i "take ?k leaves"] False show ?thesis
        by (simp add: audit_path.simps [of i leaves] tree_dirs.simps [of i "length leaves"] Let_def
            climb_path_snoc mth_split climb_step_def)
    next
      case right: False
      with 1(2) [OF False refl right] s length_audit_path [of "i - ?k" "drop ?k leaves"] False 1(3)
      show ?thesis
        by (simp add: audit_path.simps [of i leaves] tree_dirs.simps [of i "length leaves"] Let_def
            climb_path_snoc mth_split climb_step_def)
    qed
  qed
qed

lemma reconstruct_root_eq:
  "reconstruct_root leaf index tree_size path =
     (if 0 \<le> index \<and> index < int tree_size \<and> length path = length (tree_dirs (nat index) tree_size)
      then Some (climb_path leaf (tree_dirs (nat index) tree_size) path) else None)"
proof (cases "0 \<le> index \<and> index < int tree_size")
  case True
  then have "nat index < tree_size" by auto
  then have "path_loop path (nat index) (tree_size - 1) (leaf_hash leaf) =
     (if length path = length (tree_dirs (nat index) tree_size)
      then Some (climb_path leaf (tree_dirs (nat index) tree_size) path) else None)"
    using path_loop_dirs [of "nat index" "tree_size - 1"] dirs_tree_dirs [of "nat index" tree_size]
    by (simp add: climb_path_def)
  with True show ?thesis by (simp add: reconstruct_root_def)
qed (auto simp: reconstruct_root_def)

lemma reconstruct_audit_path:
  "i < length leaves \<Longrightarrow> reconstruct_root (leaves ! i) (int i) (length leaves) (audit_path i leaves) = Some (mth leaves)"
  by (simp add: reconstruct_root_eq length_audit_path climb_audit_path)

subsection \<open>Inputs that are hashed\<close>

function mth_inputs :: "bytes list \<Rightarrow> bytes list" where
  "mth_inputs leaves =
     (if length leaves = 0 then [[]]
      else if length leaves = 1 then [0 # leaves ! 0]
      else let k = split (length leaves) in
        (1 # mth (take k leaves) @ mth (drop k leaves)) # mth_inputs (take k leaves) @ mth_inputs (drop k leaves))"
  by pat_completeness auto
termination
proof (relation "measure length")
  fix leaves :: "bytes list" and k
  assume "length leaves \<noteq> 0" "length leaves \<noteq> 1" and k: "k = split (length leaves)"
  then have "2 \<le> length leaves" by linarith
  from split_less [OF this] k show "(take k leaves, leaves) \<in> measure length"
    "(drop k leaves, leaves) \<in> measure length" by auto
qed simp

declare mth_inputs.simps [simp del]

lemma mth_inputs_one: "length leaves = 1 \<Longrightarrow> mth_inputs leaves = [0 # leaves ! 0]"
  by (subst mth_inputs.simps) simp

lemma mth_inputs_split:
  assumes "2 \<le> length leaves"
  defines "k \<equiv> split (length leaves)"
  shows "mth_inputs leaves =
     (1 # mth (take k leaves) @ mth (drop k leaves)) # mth_inputs (take k leaves) @ mth_inputs (drop k leaves)"
  using assms(1) unfolding k_def by (subst mth_inputs.simps) (auto simp: Let_def)

text \<open>The inputs of a climb, the last one first.\<close>

definition step_input :: "bool \<Rightarrow> bytes \<Rightarrow> bytes \<Rightarrow> bytes" where
  "step_input right sibling node = (if right then 1 # sibling @ node else 1 # node @ sibling)"

lemma climb_step_input: "climb_step (d, s) node = sha256 (step_input d s node)"
  by (simp add: climb_step_def step_input_def node_hash2_def)

definition climb_inputs :: "bytes \<Rightarrow> bool list \<Rightarrow> bytes list \<Rightarrow> bytes list" where
  "climb_inputs leaf ds path =
     (0 # leaf) # map (\<lambda>j. step_input (ds ! j) (path ! j) (climb_path leaf (take j ds) (take j path)))
                    [0..<length path]"

lemma climb_inputs_snoc:
  assumes "length ds = length path"
  shows "set (climb_inputs leaf (ds @ [d]) (path @ [s])) =
     insert (step_input d s (climb_path leaf ds path)) (set (climb_inputs leaf ds path))"
  using assms by (auto simp: climb_inputs_def nth_append)

lemma forged_leaf_collides:
  "i < length leaves \<Longrightarrow> length path = length (tree_dirs i (length leaves))
    \<Longrightarrow> climb_path leaf (tree_dirs i (length leaves)) path = mth leaves
    \<Longrightarrow> leaf = leaves ! i
       \<or> collision_in (mth_inputs leaves @ climb_inputs leaf (tree_dirs i (length leaves)) path)"
proof (induction i leaves arbitrary: path rule: audit_path.induct)
  case (1 i leaves)
  let ?n = "length leaves"
  let ?k = "split ?n"
  show ?case
  proof (cases "?n \<le> 1")
    case True
    with 1(3) have n: "?n = 1" "i = 0" by linarith+
    with 1(4,5) have "sha256 (0 # leaf) = sha256 (0 # leaves ! 0)"
      by (simp add: tree_dirs.simps climb_path_def mth_one leaf_hash_def)
    moreover have "0 # leaf \<in> set (mth_inputs leaves @ climb_inputs leaf (tree_dirs i ?n) path)"
      "0 # leaves ! 0 \<in> set (mth_inputs leaves @ climb_inputs leaf (tree_dirs i ?n) path)"
      using n by (simp_all add: climb_inputs_def mth_inputs_one)
    ultimately show ?thesis using n(2) by (metis collision_inI list.inject)
  next
    case False
    then have n: "2 \<le> ?n" by simp
    then have s: "0 < ?k" "?k < ?n" using split_less [of ?n] by auto
    define right where "right \<longleftrightarrow> \<not> i < ?k"
    define sub where "sub = (if right then drop ?k leaves else take ?k leaves)"
    define j where "j = (if right then i - ?k else i)"
    have ds: "tree_dirs i ?n = tree_dirs j (length sub) @ [right]"
      using n s by (auto simp: right_def sub_def j_def tree_dirs.simps [of i ?n])
    with 1(4) obtain path' x where path: "path = path' @ [x]" "length path' = length (tree_dirs j (length sub))"
      by (cases path rule: rev_exhaust) auto
    define c where "c = climb_path leaf (tree_dirs j (length sub)) path'"
    have j: "j < length sub" "sub ! j = leaves ! i"
      using 1(3) s by (auto simp: right_def sub_def j_def)
    have IH: "c = mth sub \<Longrightarrow> leaf = sub ! j
        \<or> collision_in (mth_inputs sub @ climb_inputs leaf (tree_dirs j (length sub)) path')"
      using 1(1) [OF False refl, of path'] 1(2) [OF False refl, of path'] j(1) path(2)
      by (auto simp: right_def sub_def j_def c_def split: if_splits)
    have inputs: "set (climb_inputs leaf (tree_dirs i ?n) path) =
        insert (step_input right x c) (set (climb_inputs leaf (tree_dirs j (length sub)) path'))"
      unfolding ds path(1) c_def by (rule climb_inputs_snoc) (simp add: path(2))
    let ?t = "1 # mth (take ?k leaves) @ mth (drop ?k leaves)"
    have eq: "sha256 (step_input right x c) = sha256 ?t"
      using 1(5) unfolding ds path(1) climb_path_snoc [OF path(2) [symmetric]] climb_step_input c_def
      by (simp add: mth_split [OF n] node_hash2_def)
    have sub: "set (mth_inputs sub) \<subseteq> set (mth_inputs leaves)" "?t \<in> set (mth_inputs leaves)"
      unfolding mth_inputs_split [OF n] sub_def by auto
    show ?thesis
    proof (cases "step_input right x c = ?t")
      case True
      have "length c = 32" by (simp add: c_def)
      with True have "c = mth sub"
        by (auto simp: step_input_def sub_def split: if_splits)
      from IH [OF this] show ?thesis
      proof
        assume "collision_in (mth_inputs sub @ climb_inputs leaf (tree_dirs j (length sub)) path')"
        then show ?thesis by (rule disjI2 [OF collision_in_mono]) (use sub(1) inputs in auto)
      qed (simp add: j(2))
    next
      case False
      have "collision_in (mth_inputs leaves @ climb_inputs leaf (tree_dirs i ?n) path)"
        by (rule collision_inI [OF _ _ False eq]) (use sub(2) inputs in auto)
      then show ?thesis ..
    qed
  qed
qed

section \<open>The committed root\<close>

lemma commit_eq: "commit n h = (if n < 2 ^ 64 then Inr (to_hex (sha256 (commit_input n h))) else Inl OverflowError)"
  by (simp add: commit_def to_bytes8_def commit_input_def)

lemma commit_input_inject:
  "m < 2 ^ 64 \<Longrightarrow> n < 2 ^ 64 \<Longrightarrow> commit_input m h = commit_input n h' \<Longrightarrow> m = n \<and> h = h'"
  by (auto simp: commit_input_def dest: be64_inj)

lemma EMPTY_ROOT_eq: "EMPTY_ROOT = to_hex (sha256 (commit_input 0 (sha256 [])))"
  by (simp add: EMPTY_ROOT_def commit_eq)

definition audit_inputs :: "bytes list \<Rightarrow> bytes \<Rightarrow> int \<Rightarrow> nat \<Rightarrow> bytes list \<Rightarrow> bytes list" where
  "audit_inputs leaves leaf index tree_size path =
     commit_input (length leaves) (mth leaves) # mth_inputs leaves @
       (case reconstruct_root leaf index tree_size path of
          None \<Rightarrow> []
        | Some node \<Rightarrow>
            commit_input tree_size node # climb_inputs leaf (tree_dirs (nat index) tree_size) path)"

lemma verify_audit_path_sound:
  assumes "verify_audit_path leaf index tree_size path (PStr root) = Inr True"
    and "commit (length leaves) (mth leaves) = Inr root"
  shows "(tree_size = length leaves \<and> 0 \<le> index \<and> index < int (length leaves) \<and> leaf = leaves ! nat index)
    \<or> collision_in (audit_inputs leaves leaf index tree_size path)"
proof -
  let ?ds = "tree_dirs (nat index) tree_size"
  let ?node = "climb_path leaf ?ds path"
  from assms(1) have rec: "reconstruct_root leaf index tree_size path = Some ?node"
    and i: "0 \<le> index" "index < int tree_size" "length path = length ?ds"
    and c: "commit tree_size ?node = Inr root"
    by (auto simp: verify_audit_path_def reconstruct_root_eq res_simps split: if_splits)
  have sz: "tree_size < 2 ^ 64" "length leaves < 2 ^ 64"
    and eq: "sha256 (commit_input tree_size ?node) = sha256 (commit_input (length leaves) (mth leaves))"
    using c assms(2) by (auto simp: commit_eq split: if_splits)
  show ?thesis
  proof (cases "commit_input tree_size ?node = commit_input (length leaves) (mth leaves)")
    case True
    then have "tree_size = length leaves" "?node = mth leaves"
      using commit_input_inject [OF sz] by auto
    with forged_leaf_collides [of "nat index" leaves path leaf] i
    have "leaf = leaves ! nat index \<or> collision_in (mth_inputs leaves @ climb_inputs leaf ?ds path)"
      by simp
    moreover have "set (mth_inputs leaves @ climb_inputs leaf ?ds path)
        \<subseteq> set (audit_inputs leaves leaf index tree_size path)"
      by (auto simp: audit_inputs_def rec)
    ultimately show ?thesis using \<open>tree_size = length leaves\<close> i(1,2) collision_in_mono by blast
  next
    case False
    from collision_inI [OF _ _ False eq, of "audit_inputs leaves leaf index tree_size path"]
    show ?thesis by (simp add: audit_inputs_def rec)
  qed
qed

lemma verify_audit_path_complete:
  "i < length leaves \<Longrightarrow> commit (length leaves) (mth leaves) = Inr root
    \<Longrightarrow> verify_audit_path (leaves ! i) (int i) (length leaves) (audit_path i leaves) (PStr root) = Inr True"
  by (simp add: verify_audit_path_def reconstruct_audit_path)

section \<open>The verifier\<close>

lemma check_eq:
  "check tree_size root entry =
     (case parse_entry entry of
        Inl e \<Rightarrow> if e \<in> {ValueError, TypeError, KeyError} then Inr None else Inl e
      | Inr (leaf, path, index) \<Rightarrow>
          (case int_of_val index of
             None \<Rightarrow> Inr None
           | Some i \<Rightarrow> bind_res (verify_audit_path leaf i tree_size path root)
                        (\<lambda>ok. Inr (if ok then Some leaf else None))))"
  by (auto simp: check_def catch_as_def split: sum.split)

definition entry_inputs :: "bytes list \<Rightarrow> nat \<Rightarrow> pyval \<Rightarrow> bytes list" where
  "entry_inputs leaves tree_size entry =
     (case parse_entry entry of
        Inr (leaf, path, index) \<Rightarrow>
          (case int_of_val index of Some i \<Rightarrow> audit_inputs leaves leaf i tree_size path | None \<Rightarrow> [])
      | Inl _ \<Rightarrow> [])"

lemma check_sound:
  assumes "check tree_size (PStr root) entry = Inr (Some leaf)" "commit (length leaves) (mth leaves) = Inr root"
    and "\<not> collision_in (entry_inputs leaves tree_size entry)"
    and "get_default entry ''index'' dflt = Inr v"
  obtains i where "int_of_val v = Some (int i)" "tree_size = length leaves" "i < length leaves" "leaf = leaves ! i"
proof -
  obtain path v' i where p: "parse_entry entry = Inr (leaf, path, v')" "int_of_val v' = Some i"
      "verify_audit_path leaf i tree_size path (PStr root) = Inr True"
    using assms(1) by (auto simp: check_eq res_simps split: sum.splits option.splits if_splits)
  have "getitem entry ''index'' = Inr v'" using p(1) by (auto simp: parse_entry_def res_simps)
  then have "v' = v" using assms(4) by (cases entry) (auto split: option.splits)
  moreover have "tree_size = length leaves \<and> 0 \<le> i \<and> i < int (length leaves) \<and> leaf = leaves ! nat i"
    using verify_audit_path_sound [OF p(3) assms(2)] assms(3) by (auto simp: entry_inputs_def p(1,2))
  ultimately show thesis using p(2) by (intro that [of "nat i"]) auto
qed

definition merkle_evidence :: "string \<Rightarrow> bytes list \<Rightarrow> pyval \<Rightarrow> bytes list" where
  "merkle_evidence r leaves pf =
     (case parse_absence (PStr r) pf of
        Inr (_, sz, pred, succ) \<Rightarrow>
          (case int_of_val sz of
             Some n \<Rightarrow> commit_input 0 (sha256 []) # commit_input (length leaves) (mth leaves)
               # entry_inputs leaves (nat n) pred @ entry_inputs leaves (nat n) succ
           | None \<Rightarrow> [])
      | Inl _ \<Rightarrow> [])"

lemma strict_less_nth: "sorted_wrt (<) (xs :: bytes list) \<Longrightarrow> i < length xs \<Longrightarrow> j < length xs
    \<Longrightarrow> xs ! i < xs ! j \<longleftrightarrow> i < j"
  by (metis linorder_neqE_nat order_less_asym order_less_irrefl sorted_wrt_nth_less)

lemma brackets_sound:
  assumes "brackets target tree_size pred succ (PStr root) = Inr True"
    and root: "commit (length leaves) (mth leaves) = Inr root" and sorted: "sorted_wrt (<) leaves"
    and nc: "\<not> collision_in (entry_inputs leaves tree_size pred)"
      "\<not> collision_in (entry_inputs leaves tree_size succ)"
  shows "target \<notin> set leaves"
proof
  assume "target \<in> set leaves"
  then obtain t where t: "t < length leaves" "target = leaves ! t" by (auto simp: in_set_conv_nth)
  consider "pred = PNone" "succ \<noteq> PNone" | "pred \<noteq> PNone" "succ = PNone" | "pred \<noteq> PNone" "succ \<noteq> PNone"
    using assms(1) by (cases "pred = PNone"; cases "succ = PNone") (auto simp: brackets_def)
  then show False
  proof cases
    case 1
    with assms(1) obtain v l where v: "get_default succ ''index'' PNone = Inr v" "int_of_val v = Some 0"
        "check tree_size (PStr root) succ = Inr (Some l)" "target < l"
      by (auto simp: brackets_def res_simps split: if_splits option.splits)
    from check_sound [OF v(3) root nc(2) v(1)] v(2,4) t sorted show False
      by (metis less_nat_zero_code of_nat_eq_0_iff option.inject strict_less_nth)
  next
    case 2
    with assms(1) obtain v l where v: "get_default pred ''index'' PNone = Inr v"
        "int_of_val v = Some (int tree_size - 1)"
        "check tree_size (PStr root) pred = Inr (Some l)" "l < target"
      by (auto simp: brackets_def res_simps split: if_splits option.splits)
    obtain i where i: "int_of_val v = Some (int i)" "tree_size = length leaves" "i < length leaves" "l = leaves ! i"
      by (rule check_sound [OF v(3) root nc(1) v(1)])
    with v(2,4) t strict_less_nth [OF sorted i(3) t(1)] show False by simp
  next
    case 3
    with assms(1) obtain vj vi i1 l h where v: "get_default succ ''index'' PNone = Inr vj"
        "get_default pred ''index'' (PInt (- 99)) = Inr vi" "add_one vi = Inr i1" "int_of_val vj = Some i1"
        "check tree_size (PStr root) pred = Inr (Some l)" "check tree_size (PStr root) succ = Inr (Some h)"
        "l < target" "target < h"
      by (auto simp: brackets_def res_simps split: if_splits option.splits)
    obtain i where i: "int_of_val vi = Some (int i)" "i < length leaves" "l = leaves ! i"
      by (rule check_sound [OF v(5) root nc(1) v(2)])
    obtain j where j: "int_of_val vj = Some (int j)" "j < length leaves" "h = leaves ! j"
      by (rule check_sound [OF v(6) root nc(2) v(1)])
    have "j = Suc i" using v(3,4) i(1) j(1) by (auto simp: add_one_def)
    with v(7,8) i j t strict_less_nth [OF sorted i(2) t(1)] strict_less_nth [OF sorted t(1) j(2)]
    show False by simp
  qed
qed

lemma merkle_sound:
  assumes "merkle_verify_absence (PStr r) pf (PStr root) = Inr True" "valid_ref r"
    and root: "commit (length leaves) (mth leaves) = Inr root" and sorted: "sorted_wrt (<) leaves"
    and nc: "\<not> collision_in (merkle_evidence r leaves pf)"
  shows "key_of r \<notin> set leaves"
proof -
  from assms(1) obtain target sz pred succ where p: "parse_absence (PStr r) pf = Inr (target, sz, pred, succ)"
    by (cases "parse_absence (PStr r) pf")
      (auto simp: merkle_verify_absence_def catch_as_def split: if_splits)
  with assms(2) have target: "target = key_of r" by (auto simp: parse_absence_def res_simps valid_ref_fromhex)
  from assms(1) p obtain n where n: "int_of_val sz = Some n" "0 \<le> n"
    by (auto simp: merkle_verify_absence_def catch_as_def split: option.splits if_splits)
  show ?thesis
  proof (cases "n = 0")
    case True
    with assms(1) p n have "root = EMPTY_ROOT"
      by (simp add: merkle_verify_absence_def catch_as_def)
    with root have lt: "length leaves < 2 ^ 64"
      and eq: "sha256 (commit_input (length leaves) (mth leaves)) = sha256 (commit_input 0 (sha256 []))"
      by (auto simp: commit_eq EMPTY_ROOT_eq split: if_splits)
    have "commit_input (length leaves) (mth leaves) = commit_input 0 (sha256 [])"
    proof (rule ccontr)
      assume "\<not> ?thesis"
      from collision_inI [OF _ _ this eq, of "merkle_evidence r leaves pf"] nc show False
        by (simp add: merkle_evidence_def p n)
    qed
    from commit_input_inject [OF lt _ this] show ?thesis by simp
  next
    case False
    with assms(1) p n have b: "brackets target (nat n) pred succ (PStr root) = Inr True"
      by (auto simp: merkle_verify_absence_def catch_as_def)
    have "set (entry_inputs leaves (nat n) pred) \<subseteq> set (merkle_evidence r leaves pf)"
      "set (entry_inputs leaves (nat n) succ) \<subseteq> set (merkle_evidence r leaves pf)"
      by (auto simp: merkle_evidence_def p n)
    with nc have "\<not> collision_in (entry_inputs leaves (nat n) pred)"
      "\<not> collision_in (entry_inputs leaves (nat n) succ)" by (metis collision_in_mono)+
    from brackets_sound [OF b root sorted this] target show ?thesis by simp
  qed
qed

section \<open>The prover\<close>

lemma bisect_bounds:
  "hi \<le> length leaves \<Longrightarrow> lo \<le> hi \<Longrightarrow> sorted_wrt (<) leaves \<Longrightarrow> (\<forall>i<lo. leaves ! i < target)
    \<Longrightarrow> (\<forall>i<length leaves. hi \<le> i \<longrightarrow> target \<le> leaves ! i)
    \<Longrightarrow> bisect leaves target lo hi \<le> length leaves \<and> (\<forall>i<bisect leaves target lo hi. leaves ! i < target)
      \<and> (\<forall>i<length leaves. bisect leaves target lo hi \<le> i \<longrightarrow> target \<le> leaves ! i)"
proof (induction leaves target lo hi rule: bisect.induct)
  case (1 leaves target lo hi)
  show ?case
  proof (cases "lo < hi")
    case True
    define mid where "mid = (lo + hi) div 2"
    have mid: "lo \<le> mid" "mid < hi" using True by (auto simp: mid_def)
    have nth_le: "leaves ! i \<le> leaves ! j" if "i \<le> j" "j < length leaves" for i j
      using that 1(5) by (cases "i = j") (auto simp: sorted_wrt_nth_less order_less_imp_le)
    show ?thesis
    proof (cases "leaves ! mid < target")
      case less: True
      then have "\<forall>i<mid + 1. leaves ! i < target"
        using mid(2) 1(3) by (auto intro: le_less_trans [OF nth_le [of _ mid]])
      with 1(1) [OF True mid_def] less 1(3-) mid True show ?thesis
        by (simp add: bisect.simps [of leaves target lo hi] mid_def [symmetric])
    next
      case False
      then have "\<forall>i<length leaves. mid \<le> i \<longrightarrow> target \<le> leaves ! i"
        using nth_le [of mid] by (meson le_less_linear order_trans not_less)
      with 1(2) [OF True mid_def] False 1(3-) mid True show ?thesis
        by (simp add: bisect.simps [of leaves target lo hi] mid_def [symmetric])
    qed
  next
    case False
    then have "bisect leaves target lo hi = lo" by (subst bisect.simps) simp
    with False 1(3-) show ?thesis by simp
  qed
qed

lemma parse_absence_entry:
  "parse_entry (absence_entry leaves i) = Inr (leaves ! i, audit_path i leaves, PInt (int i))"
proof -
  have "map_res fromhex_val (map (\<lambda>h. PStr (to_hex h)) hs) = Inr hs" for hs
    by (induction hs) auto
  then show ?thesis by (simp add: parse_entry_def absence_entry_def)
qed

lemma check_absence_entry:
  "i < length leaves \<Longrightarrow> commit (length leaves) (mth leaves) = Inr root
    \<Longrightarrow> check (length leaves) (PStr root) (absence_entry leaves i) = Inr (Some (leaves ! i))"
  by (simp add: check_eq parse_absence_entry verify_audit_path_complete)

lemma absence_entry_index [simp]:
  "get_default (absence_entry leaves i) ''index'' dflt = Inr (PInt (int i))"
  "absence_entry leaves i \<noteq> PNone"
  by (simp_all add: absence_entry_def)

definition sorted_keys :: "string list \<Rightarrow> bytes list" where
  "sorted_keys refs = sort (remdups (map key_of refs))"

lemma sorted_leaves_valid: "list_all valid_ref refs \<Longrightarrow> sorted_leaves refs = Inr (sorted_keys refs)"
  by (simp add: sorted_leaves_def map_res_fromhex sorted_keys_def)

lemma set_sorted_keys [simp]: "set (sorted_keys refs) = key_of ` set refs"
  by (simp add: sorted_keys_def)

lemma sorted_sorted_keys [simp]: "sorted_wrt (<) (sorted_keys refs)"
  by (simp add: sorted_keys_def strict_sorted_iff)

lemma length_sorted_keys: "length (sorted_keys refs) = card (key_of ` set refs)"
  by (simp add: sorted_keys_def length_remdups_card_conv)

lemma merkle_build_root_eq:
  "list_all valid_ref refs
    \<Longrightarrow> merkle_build_root refs = commit (length (sorted_keys refs)) (mth (sorted_keys refs))"
  by (simp add: merkle_build_root_def sorted_leaves_valid)

lemma brackets_complete:
  assumes "target \<notin> set leaves" "sorted_wrt (<) leaves" "leaves \<noteq> []"
    and root: "commit (length leaves) (mth leaves) = Inr root"
  defines "lo \<equiv> bisect leaves target 0 (length leaves)"
  shows "brackets target (length leaves)
      (if 0 < lo then absence_entry leaves (lo - 1) else PNone)
      (if lo < length leaves then absence_entry leaves lo else PNone) (PStr root) = Inr True"
proof -
  have lo: "lo \<le> length leaves" "\<And>i. i < lo \<Longrightarrow> leaves ! i < target"
    "\<And>i. i < length leaves \<Longrightarrow> lo \<le> i \<Longrightarrow> target \<le> leaves ! i"
    using bisect_bounds [of "length leaves" leaves 0 target] assms(2) unfolding lo_def by auto
  have above: "target < leaves ! i" if "i < length leaves" "lo \<le> i" for i
    using lo(3) [OF that] that(1) assms(1) by (metis nth_mem order_le_imp_less_or_eq)
  consider "lo = 0" | "0 < lo" "lo = length leaves" | "0 < lo" "lo < length leaves" using lo(1) by linarith
  then show ?thesis
  proof cases
    case 1
    with assms(3) above [of 0] show ?thesis by (simp add: brackets_def check_absence_entry root)
  next
    case 2
    have last: "int (length leaves - 1) = int (length leaves) - 1" "length leaves - 1 < length leaves"
      using assms(3) by (cases leaves; simp)+
    moreover have "leaves ! (length leaves - 1) < target" using 2 lo(2) [of "lo - 1"] by simp
    ultimately show ?thesis
      unfolding brackets_def if_P [OF 2(1)] 2(2)
      by (simp add: check_absence_entry root last assms(3) del: One_nat_def)
  next
    case 3
    have "int (lo - 1) + 1 = int lo" using 3 by simp
    moreover have "lo - 1 < length leaves" "leaves ! (lo - 1) < target" using 3 lo(2) by simp_all
    ultimately show ?thesis
      unfolding brackets_def if_P [OF 3(1)] if_P [OF 3(2)] using 3 above [of lo]
      by (simp add: add_one_def check_absence_entry root del: One_nat_def)
  qed
qed

lemma merkle_complete:
  assumes "list_all valid_ref refs" "valid_ref r" "key_of r \<notin> key_of ` set refs"
    and "merkle_build_root refs = Inr root"
  shows "\<exists>pf. merkle_prove_absence r refs = Inr pf \<and> merkle_verify_absence (PStr r) pf (PStr root) = Inr True"
proof -
  let ?L = "sorted_keys refs"
  define lo where "lo = bisect ?L (key_of r) 0 (length ?L)"
  have root: "commit (length ?L) (mth ?L) = Inr root"
    using assms(4) by (simp add: merkle_build_root_eq [OF assms(1)])
  define P where "P = (if 0 < lo then absence_entry ?L (lo - 1) else PNone)"
  define S where "S = (if lo < length ?L then absence_entry ?L lo else PNone)"
  let ?pf = "PDict [(KStr ''tree_size'', PInt (int (length ?L))), (KStr ''predecessor'', P), (KStr ''successor'', S)]"
  have parsed: "parse_absence (PStr r) ?pf = Inr (key_of r, PInt (int (length ?L)), P, S)"
    by (simp add: parse_absence_def valid_ref_fromhex [OF assms(2)])
  have "\<not> (lo < length ?L \<and> ?L ! lo = key_of r)"
    using assms(3) by (metis nth_mem set_sorted_keys)
  then have prove: "merkle_prove_absence r refs = Inr ?pf"
    using assms(1,2) unfolding lo_def P_def S_def
    by (auto simp: merkle_prove_absence_def sorted_leaves_valid valid_ref_fromhex Let_def)
  have "merkle_verify_absence (PStr r) ?pf (PStr root) = Inr True"
  proof (cases "?L = []")
    case True
    then have "lo = 0" "root = EMPTY_ROOT"
      using root by (auto simp: lo_def bisect.simps commit_eq EMPTY_ROOT_eq mth.simps)
    with True have "P = PNone" "S = PNone" by (simp_all add: P_def S_def)
    with True \<open>root = EMPTY_ROOT\<close> show ?thesis
      unfolding merkle_verify_absence_def parsed by (simp add: catch_as_def)
  next
    case False
    have "brackets (key_of r) (length ?L) P S (PStr root) = Inr True"
      unfolding P_def S_def lo_def by (rule brackets_complete [OF _ _ False root]) (simp_all add: assms(3))
    with False show ?thesis by (simp add: merkle_verify_absence_def parsed catch_as_def)
  qed
  with prove show ?thesis by blast
qed

lemma merkle_prove_present:
  assumes "list_all valid_ref refs" "valid_ref r" "key_of r \<in> key_of ` set refs"
  shows "merkle_prove_absence r refs = Inl ValueError"
proof -
  let ?L = "sorted_keys refs"
  define lo where "lo = bisect ?L (key_of r) 0 (length ?L)"
  have lo: "lo \<le> length ?L" "\<And>i. i < lo \<Longrightarrow> ?L ! i < key_of r"
    "\<And>i. i < length ?L \<Longrightarrow> lo \<le> i \<Longrightarrow> key_of r \<le> ?L ! i"
    using bisect_bounds [of "length ?L" ?L 0 "key_of r"] unfolding lo_def by auto
  obtain t where t: "t < length ?L" "?L ! t = key_of r"
    using assms(3) by (metis in_set_conv_nth set_sorted_keys)
  have "lo \<le> t" using lo(2) [of t] t(2) by (cases "t < lo") auto
  moreover have "\<not> lo < t"
  proof
    assume "lo < t"
    then have "?L ! lo < ?L ! t" using t(1) by (simp add: sorted_wrt_nth_less)
    with lo(3) [of lo] t \<open>lo < t\<close> show False by simp
  qed
  ultimately have "lo < length ?L \<and> ?L ! lo = key_of r" using t by auto
  then show ?thesis
    using assms(1,2) unfolding lo_def
    by (simp add: merkle_prove_absence_def sorted_leaves_valid valid_ref_fromhex Let_def)
qed

section \<open>What the verifier raises\<close>

lemma verify_audit_path_raises:
  "tree_size < 2 ^ 64 \<Longrightarrow> \<exists>b. verify_audit_path leaf index tree_size path root = Inr b"
  by (auto simp: verify_audit_path_def commit_eq split: option.split)

lemma parse_entry_error:
  "parse_entry entry = Inl e \<Longrightarrow> e = ValueError \<or> e = TypeError \<or> e = KeyError"
proof -
  have map: "map_res fromhex_val hs = Inl e \<Longrightarrow> e = ValueError \<or> e = TypeError" for hs
    by (induction hs) (auto simp: res_simps dest: fromhex_val_error)
  have iter: "iter_val v = Inl e \<Longrightarrow> e = TypeError" for v by (cases v) auto
  show "parse_entry entry = Inl e \<Longrightarrow> ?thesis"
    by (auto simp: parse_entry_def res_simps dest: map iter fromhex_val_error getitem_error)
qed

lemma check_total: "tree_size < 2 ^ 64 \<Longrightarrow> \<exists>l. check tree_size root entry = Inr l"
proof (cases "parse_entry entry")
  case (Inl e)
  with parse_entry_error [OF Inl] show ?thesis by (simp add: check_eq)
next
  case (Inr p)
  obtain leaf path index where p: "p = (leaf, path, index)" by (cases p)
  assume "tree_size < 2 ^ 64"
  from verify_audit_path_raises [OF this] Inr p show ?thesis
    by (cases "int_of_val index") (auto simp: check_eq res_simps)
qed

text \<open>An entry that the verifier can subscript: absent, or a dict with a numeric index.\<close>

definition entry_shaped :: "pyval \<Rightarrow> bool" where
  "entry_shaped v \<longleftrightarrow> v = PNone \<or>
     (case get_default v ''index'' PNone of Inr i \<Rightarrow> int_of_val i \<noteq> None | Inl _ \<Rightarrow> False)"

lemma entry_shapedD:
  assumes "entry_shaped v" "v \<noteq> PNone"
  obtains i where "\<forall>d. get_default v ''index'' d = Inr i" "int_of_val i \<noteq> None"
proof (cases v)
  case (PDict d)
  with assms(1) obtain i where "map_of d (KStr ''index'') = Some i" "int_of_val i \<noteq> None"
    by (auto simp: entry_shaped_def split: option.splits)
  then show thesis by (intro that [of i]) (simp_all add: PDict)
qed (use assms in \<open>auto simp: entry_shaped_def\<close>)

lemma brackets_total:
  assumes "tree_size < 2 ^ 64" "entry_shaped pred" "entry_shaped succ"
  shows "\<exists>b. brackets target tree_size pred succ root = Inr b"
proof -
  note c = check_total [OF assms(1), of root]
  show ?thesis
  proof (cases "pred = PNone"; cases "succ = PNone")
    assume "pred \<noteq> PNone" "succ \<noteq> PNone"
    moreover obtain i where "\<forall>d. get_default pred ''index'' d = Inr i" "int_of_val i \<noteq> None"
      by (rule entry_shapedD [OF assms(2) \<open>pred \<noteq> PNone\<close>])
    moreover obtain j where "\<forall>d. get_default succ ''index'' d = Inr j" "int_of_val j \<noteq> None"
      by (rule entry_shapedD [OF assms(3) \<open>succ \<noteq> PNone\<close>])
    moreover obtain l h where "check tree_size root pred = Inr l" "check tree_size root succ = Inr h"
      using c by metis
    ultimately show ?thesis by (auto simp: brackets_def add_one_def)
  next
    assume "pred \<noteq> PNone" "succ = PNone"
    moreover obtain i where "\<forall>d. get_default pred ''index'' d = Inr i"
      by (rule entry_shapedD [OF assms(2) \<open>pred \<noteq> PNone\<close>])
    moreover obtain l where "check tree_size root pred = Inr l" using c by metis
    ultimately show ?thesis by (auto simp: brackets_def)
  next
    assume "pred = PNone" "succ \<noteq> PNone"
    moreover obtain i where "\<forall>d. get_default succ ''index'' d = Inr i"
      by (rule entry_shapedD [OF assms(3) \<open>succ \<noteq> PNone\<close>])
    moreover obtain l where "check tree_size root succ = Inr l" using c by metis
    ultimately show ?thesis by (auto simp: brackets_def)
  qed (auto simp: brackets_def)
qed

lemma merkle_verify_total:
  assumes "parse_absence target_ref pf = Inr (target, sz, pred, succ)"
    and "entry_shaped pred" "entry_shaped succ"
    and "case int_of_val sz of Some n \<Rightarrow> n < 2 ^ 64 | None \<Rightarrow> True"
  shows "\<exists>b. merkle_verify_absence target_ref pf root = Inr b"
proof (cases "int_of_val sz")
  case (Some n)
  with assms(4) have "nat n < 2 ^ 64" by simp
  from brackets_total [OF this assms(2,3), of target root] Some assms(1) show ?thesis
    by (cases root) (auto simp: merkle_verify_absence_def catch_as_def)
qed (cases root; use assms(1) in \<open>auto simp: merkle_verify_absence_def catch_as_def\<close>)

section \<open>The contract of an absence scheme\<close>

interpretation legacy: absence_scheme merkle_build_root merkle_prove_absence merkle_verify_absence
  "\<lambda>r refs. merkle_evidence r (sorted_keys refs)"
proof
  fix refs root r pf
  assume refs: "list_all valid_ref refs" and r: "valid_ref r"
  {
    assume root: "merkle_build_root refs = Inr root"
    show "\<exists>pf. merkle_prove_absence r refs = Inr pf \<and> merkle_verify_absence (PStr r) pf (PStr root) = Inr True"
      if "key_of r \<notin> key_of ` set refs"
      by (rule merkle_complete [OF refs r that root])
    show "collision_in (merkle_evidence r (sorted_keys refs) pf)"
      if "key_of r \<in> key_of ` set refs" "merkle_verify_absence (PStr r) pf (PStr root) = Inr True"
      using merkle_sound [OF that(2) r, of "sorted_keys refs"] root that(1)
      by (auto simp: merkle_build_root_eq [OF refs])
  }
  show "merkle_prove_absence r refs = Inl ValueError" if "key_of r \<in> key_of ` set refs"
    by (rule merkle_prove_present [OF refs r that])
qed

section \<open>Properties\<close>

text \<open>
  The iterative verifier (RFC 6962, section 2.1.1) undoes the recursive prover: the
  audit path of every leaf rebuilds the tree hash, through the loop over \<open>fn\<close> and \<open>sn\<close>,
  for every tree size, not just powers of two.
\<close>

theorem audit_path_roundtrip:
  assumes "i < length leaves"
  shows "reconstruct_root (leaves ! i) (int i) (length leaves) (audit_path i leaves) = Some (mth leaves)"
  by (rule reconstruct_audit_path [OF assms])

theorem audit_path_roundtrip_witness:
  "reconstruct_root [3] 2 3 (audit_path 2 [[1], [2], [3]]) = Some (mth [[1], [2], [3]])"
  using audit_path_roundtrip [of 2 "[[1], [2], [3]]"] by (simp add: eval_nat_numeral)

text \<open>
  An audit path that verifies against the committed root of a tree proves the leaf
  at its index and the size of that tree, unless it exhibits a SHA-256 collision among
  the inputs hashed for the tree and for the check.
\<close>

theorem audit_path_sound:
  assumes "verify_audit_path leaf index tree_size path (PStr root) = Inr True"
    and "commit (length leaves) (mth leaves) = Inr root"
  shows "(tree_size = length leaves \<and> 0 \<le> index \<and> index < int (length leaves) \<and> leaf = leaves ! nat index)
    \<or> collision_in (audit_inputs leaves leaf index tree_size path)"
  by (rule verify_audit_path_sound [OF assms])

theorem audit_path_sound_witness:
  "([7] = [[5], [7]] ! nat 1 \<and> (2::nat) = length [[5::byte], [7]])
    \<or> collision_in (audit_inputs [[5], [7]] [7] 1 2 (audit_path 1 [[5], [7]]))"
proof -
  have two: "length [[5::byte], [7]] = 2" by simp
  have c: "commit (length [[5::byte], [7]]) (mth [[5], [7]])
      = Inr (to_hex (sha256 (commit_input 2 (mth [[5], [7]]))))" unfolding commit_eq two by simp
  have "verify_audit_path ([[5], [7]] ! 1) (int 1) (length [[5::byte], [7]]) (audit_path 1 [[5], [7]])
      (PStr (to_hex (sha256 (commit_input 2 (mth [[5], [7]]))))) = Inr True"
    by (rule verify_audit_path_complete [OF _ c]) simp
  then have v: "verify_audit_path [7] 1 2 (audit_path 1 [[5], [7]])
      (PStr (to_hex (sha256 (commit_input 2 (mth [[5], [7]]))))) = Inr True"
    unfolding two by simp
  from audit_path_sound [OF v c] show ?thesis by auto
qed

text \<open>
  Completeness of the Merkle scheme: an absent reference has a proof, and it verifies
  against the published root.
\<close>

theorem merkle_absence_complete:
  assumes "merkle_build_root refs = Inr root" "list_all valid_ref refs" "valid_ref r"
    and "key_of r \<notin> key_of ` set refs"
  shows "\<exists>pf. merkle_prove_absence r refs = Inr pf
     \<and> merkle_verify_absence (PStr r) pf (PStr root) = Inr True"
  by (rule merkle_complete [OF assms(2,3,4,1)])

theorem merkle_absence_complete_witness:
  "\<exists>pf root. merkle_prove_absence (to_hex (replicate 32 1)) [to_hex (replicate 32 0), to_hex (replicate 32 2)] = Inr pf
     \<and> merkle_verify_absence (PStr (to_hex (replicate 32 1))) pf (PStr root) = Inr True"
proof -
  let ?refs = "[to_hex (replicate 32 0), to_hex (replicate 32 2)]"
  have "length (sorted_keys ?refs) \<le> 2" unfolding length_sorted_keys by (simp add: card_insert_if)
  then have "merkle_build_root ?refs = Inr (to_hex (sha256
      (commit_input (length (sorted_keys ?refs)) (mth (sorted_keys ?refs)))))"
    by (subst merkle_build_root_eq) (auto simp: commit_eq)
  from merkle_absence_complete [OF this, of "to_hex (replicate 32 1)"] show ?thesis
    by (auto simp: replicate_eq_replicate)
qed

text \<open>
  Soundness of the Merkle scheme: a committed reference has no proof. The prover
  raises ValueError, and no value at all is accepted by the verifier, whatever tree
  size and indices it claims, unless it exhibits a SHA-256 collision among listed
  inputs.
\<close>

theorem merkle_absence_sound:
  assumes "merkle_build_root refs = Inr root" "list_all valid_ref refs" "valid_ref r"
    and "key_of r \<in> key_of ` set refs"
  shows "merkle_prove_absence r refs = Inl ValueError
     \<and> (merkle_verify_absence (PStr r) pf (PStr root) \<noteq> Inr True
        \<or> collision_in (merkle_evidence r (sorted_keys refs) pf))"
proof -
  have "commit (length (sorted_keys refs)) (mth (sorted_keys refs)) = Inr root"
    using assms(1) merkle_build_root_eq [OF assms(2)] by simp
  with merkle_sound [OF _ assms(3) this, of pf] merkle_prove_present [OF assms(2,3,4)] assms(4)
  show ?thesis by auto
qed

theorem merkle_absence_sound_witness:
  "\<exists>root. merkle_build_root [to_hex (replicate 32 1)] = Inr root
     \<and> (merkle_verify_absence (PStr (to_hex (replicate 32 1))) PNone (PStr root) \<noteq> Inr True
        \<or> collision_in (merkle_evidence (to_hex (replicate 32 1)) (sorted_keys [to_hex (replicate 32 1)]) PNone))"
proof -
  let ?refs = "[to_hex (replicate 32 1)]"
  have "length (sorted_keys ?refs) = 1" by (simp add: length_sorted_keys)
  then have b: "merkle_build_root ?refs = Inr (to_hex (sha256 (commit_input 1 (mth (sorted_keys ?refs)))))"
    by (simp add: merkle_build_root_eq commit_eq)
  with merkle_absence_sound [OF b, of "to_hex (replicate 32 1)" PNone] show ?thesis by auto
qed

text \<open>
  The verifier answers with a boolean when the two entries are absent or dicts with
  a numeric index and the claimed tree size is below \<open>2 ^ 64\<close>.
\<close>

theorem merkle_verify_returns:
  assumes "parse_absence target_ref pf = Inr (target, sz, pred, succ)"
    and "entry_shaped pred" "entry_shaped succ"
    and "case int_of_val sz of Some n \<Rightarrow> n < 2 ^ 64 | None \<Rightarrow> True"
  shows "\<exists>b. merkle_verify_absence target_ref pf root = Inr b"
  by (rule merkle_verify_total [OF assms])

theorem merkle_verify_returns_witness:
  "\<exists>b. merkle_verify_absence (PStr ''00'')
     (PDict [(KStr ''tree_size'', PInt 1), (KStr ''successor'', PDict [(KStr ''index'', PInt 0)])]) PNone = Inr b"
  by (rule merkle_verify_returns
      [where target = "[0]" and sz = "PInt 1" and pred = PNone and succ = "PDict [(KStr ''index'', PInt 0)]"])
    (simp_all add: parse_absence_def entry_shaped_def is_space_def digit_value_def)

text \<open>
  Outside that shape it raises, although its documentation says that it never does:
  AttributeError for an entry that is a list, TypeError for a predecessor whose index is
  a string, OverflowError for a tree size of \<open>2 ^ 64\<close>.
\<close>

theorem merkle_verify_raises:
  "merkle_verify_absence (PStr ''00'')
     (PDict [(KStr ''tree_size'', PInt 1), (KStr ''successor'', PList [])]) (PStr root) = Inl AttributeError
   \<and> merkle_verify_absence (PStr ''00'')
     (PDict [(KStr ''tree_size'', PInt 1), (KStr ''predecessor'', PDict [(KStr ''index'', PStr ''0'')]),
             (KStr ''successor'', PDict [(KStr ''index'', PInt 1)])]) (PStr root) = Inl TypeError
   \<and> merkle_verify_absence (PStr ''00'')
     (PDict [(KStr ''tree_size'', PInt 18446744073709551616),
             (KStr ''successor'', PDict [(KStr ''leaf'', PStr ''01''), (KStr ''index'', PInt 0),
                (KStr ''path'', PList (replicate 64 (PStr ''00'')))])]) (PStr root) = Inl OverflowError"
proof -
  have hex: "fromhex ''00'' = Inr [0]" "fromhex ''01'' = Inr [1]"
    by (simp_all add: is_space_def digit_value_def)
  have dirs: "length (tree_dirs 0 (2 ^ m)) = m" for m
  proof -
    have "(0::nat) < 2 ^ m" by simp
    from dirs_tree_dirs [OF this] dirs_perfect [OF this] show ?thesis by (metis length_map length_upt diff_zero)
  qed
  have "map_res fromhex_val (replicate n (PStr ''00'')) = Inr (replicate n [0])" for n
    by (induction n) (simp_all add: hex del: fromhex.simps)
  then have "check 18446744073709551616 (PStr root) (PDict [(KStr ''leaf'', PStr ''01''), (KStr ''index'', PInt 0),
       (KStr ''path'', PList (replicate 64 (PStr ''00'')))]) = Inl OverflowError"
    using dirs [of 64]
    by (simp add: check_eq parse_entry_def hex verify_audit_path_def reconstruct_root_eq commit_eq
        del: fromhex.simps)
  then show ?thesis
    by (simp add: merkle_verify_absence_def parse_absence_def hex catch_as_def brackets_def add_one_def
        del: fromhex.simps)
qed

end
