(* ===== verification/Json.thy ===== *)
theory Json
  imports Pyvalue
begin

text \<open>
  The part of the standard library's \<open>json\<close> that certificates travel through: the
  canonical encoder of \<open>verify/manifest.py\<close> (\<open>dumps\<close>) and a decoder (\<open>loads\<close>), with the
  round trip between them. The round trip is not the identity: \<open>reload v\<close> is what is
  read back, with integer keys turned into strings. Numbers with a fraction or an
  exponent are outside the value model, and \<open>loads\<close> refuses them, as it refuses
  escapes of code points from 256 on.
\<close>

section \<open>Decimal numbers\<close>

fun nat_dec :: "nat \<Rightarrow> string" where
  "nat_dec n = (if n < 10 then [hex_digit n] else nat_dec (n div 10) @ [hex_digit (n mod 10)])"

declare nat_dec.simps [simp del]

definition int_dec :: "int \<Rightarrow> string" where
  "int_dec i = (if i < 0 then CHR ''-'' # nat_dec (nat (- i)) else nat_dec (nat i))"

definition is_digit :: "char \<Rightarrow> bool" where
  "is_digit c \<longleftrightarrow> (\<exists>n\<in>set [0..<10]. c = hex_digit n)"

lemma is_digit_hex [simp]: "n < 10 \<Longrightarrow> is_digit (hex_digit n)"
  by (auto simp: is_digit_def)

lemma nat_dec_digits: "list_all is_digit (nat_dec n) \<and> nat_dec n \<noteq> []"
proof (induction n rule: nat_dec.induct)
  case (1 n)
  then show ?case by (simp add: nat_dec.simps [of n])
qed

lemma hex_digit_ne: "n < 10 \<Longrightarrow> hex_digit n \<noteq> CHR ''_'' \<and> hex_digit n \<noteq> CHR ''-'' \<and> hex_digit n \<noteq> CHR ''+''"
proof -
  assume n: "n < 10"
  have "hex_digit n = c \<Longrightarrow> of_char c = 48 + n" for c
    using of_char_hex_digit [of n] n by auto
  from this [of "CHR ''_''"] this [of "CHR ''-''"] this [of "CHR ''+''"] n show ?thesis by auto
qed

lemma digits_value_snoc:
  assumes "list_all is_digit s" "d < 10" "digits_value a s = Some v"
  shows "digits_value a (s @ [hex_digit d]) = Some (10 * v + d)"
  using assms
proof (induction s arbitrary: a)
  case Nil
  then show ?case using hex_digit_ne [of d] by simp
next
  case (Cons c s)
  then obtain n where "n < 10" "c = hex_digit n" by (auto simp: is_digit_def)
  with Cons hex_digit_ne [of n] show ?case by simp
qed

lemma digits_value_dec: "digits_value 0 (nat_dec n) = Some n"
proof (induction n rule: nat_dec.induct)
  case (1 n)
  show ?case
  proof (cases "n < 10")
    case True
    with hex_digit_ne [of n] show ?thesis by (simp add: nat_dec.simps [of n])
  next
    case False
    with 1 nat_dec_digits [of "n div 10"] digits_value_snoc [of "nat_dec (n div 10)" "n mod 10" 0 "n div 10"]
    show ?thesis by (simp add: nat_dec.simps [of n])
  qed
qed

lemma unsigned_value_dec: "unsigned_value (nat_dec n) = Some n"
proof -
  obtain c s where cs: "nat_dec n = c # s" "is_digit c" using nat_dec_digits [of n] by (cases "nat_dec n") auto
  then have "c \<noteq> CHR ''_''" using hex_digit_ne by (auto simp: is_digit_def)
  with cs digits_value_dec [of n] show ?thesis by (simp add: unsigned_value_def)
qed

lemma is_digit_not_space: "is_digit c \<Longrightarrow> \<not> is_space c"
  by (auto simp: is_digit_def)

lemma strip_ws_id: "(\<And>c. c \<in> set s \<Longrightarrow> \<not> is_space c) \<Longrightarrow> strip_ws s = s"
proof -
  assume "\<And>c. c \<in> set s \<Longrightarrow> \<not> is_space c"
  then have "dropWhile is_space xs = xs" if "set xs \<subseteq> set s" for xs
    using that by (cases xs) auto
  from this [of s] this [of "rev s"] show ?thesis by (simp add: strip_ws_def)
qed

lemma int_of_string_dec [simp]: "int_of_string (int_dec i) = Inr i"
proof -
  have ns: "c \<in> set (nat_dec n) \<Longrightarrow> \<not> is_space c" for c n
    using nat_dec_digits [of n] by (auto simp: list_all_iff is_digit_not_space)
  show ?thesis
  proof (cases "i < 0")
    case True
    have "strip_ws (int_dec i) = int_dec i" using True ns by (intro strip_ws_id) (auto simp: int_dec_def is_space_def)
    with True show ?thesis by (simp add: int_of_string_def int_dec_def unsigned_value_dec)
  next
    case False
    have "strip_ws (int_dec i) = int_dec i" using False ns by (intro strip_ws_id) (auto simp: int_dec_def)
    moreover obtain c s where cs: "nat_dec (nat i) = c # s" "is_digit c"
      using nat_dec_digits [of "nat i"] by (cases "nat_dec (nat i)") auto
    moreover from cs(2) have "c \<noteq> CHR ''-'' \<and> c \<noteq> CHR ''+''" using hex_digit_ne by (auto simp: is_digit_def)
    moreover have "unsigned_value (c # s) = Some (nat i)" using unsigned_value_dec [of "nat i"] cs(1) by simp
    ultimately show ?thesis using False by (simp add: int_of_string_def int_dec_def)
  qed
qed

lemma int_dec_inject [simp]: "int_dec i = int_dec j \<longleftrightarrow> i = j"
  by (metis int_of_string_dec sum.inject(2))

section \<open>\<open>json.dumps\<close>\<close>

text \<open>
  The canonical form of \<open>verify/manifest.py\<close>:
  \<open>json.dumps(v, sort_keys=True, separators=(",", ":"), ensure_ascii=True)\<close>. Items are
  sorted before their keys become text.
\<close>

definition esc_char :: "char \<Rightarrow> string" where
  "esc_char c = (let n = of_char c :: nat in
     if n = 34 then [CHR 0x5C, CHR 0x22]
     else if n = 92 then [CHR 0x5C, CHR 0x5C]
     else if n = 10 then [CHR 0x5C, CHR ''n'']
     else if n = 13 then [CHR 0x5C, CHR ''r'']
     else if n = 9 then [CHR 0x5C, CHR ''t'']
     else if n = 12 then [CHR 0x5C, CHR ''f'']
     else if n = 8 then [CHR 0x5C, CHR ''b'']
     else if 32 \<le> n \<and> n \<le> 126 then [c]
     else [CHR 0x5C, CHR ''u'', CHR ''0'', CHR ''0'', hex_digit (n div 16), hex_digit (n mod 16)])"

definition quote :: "string \<Rightarrow> string" where
  "quote s = CHR 0x22 # concat (map esc_char s) @ [CHR 0x22]"

fun key_text :: "pykey \<Rightarrow> string" where
  "key_text (KInt i) = int_dec i"
| "key_text (KStr s) = s"

fun is_int_key :: "pykey \<Rightarrow> bool" where
  "is_int_key (KInt i) = True"
| "is_int_key (KStr s) = False"

definition mixed_keys :: "(pykey \<times> 'v) list \<Rightarrow> bool" where
  "mixed_keys d \<longleftrightarrow> (\<exists>p\<in>set d. is_int_key (fst p)) \<and> (\<exists>p\<in>set d. \<not> is_int_key (fst p))"

fun join_with :: "char \<Rightarrow> string list \<Rightarrow> string" where
  "join_with c [] = []"
| "join_with c [s] = s"
| "join_with c (s # t # ss) = s @ c # join_with c (t # ss)"

lemma map_res_cong [fundef_cong]:
  "xs = ys \<Longrightarrow> (\<And>x. x \<in> set ys \<Longrightarrow> f x = g x) \<Longrightarrow> map_res f xs = map_res g ys"
  by (induction ys arbitrary: xs) auto

function dumps :: "pyval \<Rightarrow> string res" where
  "dumps PNone = Inr ''null''"
| "dumps (PBool b) = Inr (if b then ''true'' else ''false'')"
| "dumps (PInt i) = Inr (int_dec i)"
| "dumps (PStr s) = Inr (quote s)"
| "dumps (PList vs) =
     bind_res (map_res dumps vs) (\<lambda>ss. Inr (CHR ''['' # join_with (CHR '','') ss @ '']''))"
| "dumps (PDict d) =
     (if mixed_keys d then Inl TypeError
      else bind_res (map_res (\<lambda>p. bind_res (dumps (snd p)) (\<lambda>s.
                Inr (quote (key_text (fst p)) @ CHR '':'' # s))) (sort_key fst d))
             (\<lambda>ss. Inr (CHR ''{'' # join_with (CHR '','') ss @ ''}'')))"
  by pat_completeness auto

lemma size_dict_item: "p \<in> set d \<Longrightarrow> size (snd p) < size (PDict d)"
  by (induction d) (auto simp: size_prod_simp)

lemma size_list_item: "v \<in> set vs \<Longrightarrow> size v < size (PList vs)"
  by (induction vs) auto

termination dumps
  by (relation "measure size") (auto dest: size_dict_item size_list_item simp del: pyval.size)

text \<open>
  What \<open>json.load\<close> reads back from such a text: integer keys have become strings and
  the items are in the order they were written.
\<close>

function reload :: "pyval \<Rightarrow> pyval" where
  "reload PNone = PNone"
| "reload (PBool b) = PBool b"
| "reload (PInt i) = PInt i"
| "reload (PStr s) = PStr s"
| "reload (PList vs) = PList (map reload vs)"
| "reload (PDict d) = PDict (map (\<lambda>p. (KStr (key_text (fst p)), reload (snd p))) (sort_key fst d))"
  by pat_completeness auto

termination
  by (relation "measure size") (auto dest: size_dict_item size_list_item simp del: pyval.size)

section \<open>\<open>json.loads\<close>\<close>

text \<open>Python's \<open>d[k] = v\<close>: in place if the key is there, at the end otherwise.\<close>

fun dict_set :: "'k \<Rightarrow> 'v \<Rightarrow> ('k \<times> 'v) list \<Rightarrow> ('k \<times> 'v) list" where
  "dict_set k v [] = [(k, v)]"
| "dict_set k v (p # d) = (if fst p = k then (k, v) # d else p # dict_set k v d)"

definition dict_of :: "('k \<times> 'v) list \<Rightarrow> ('k \<times> 'v) list" where
  "dict_of ps = foldl (\<lambda>d p. dict_set (fst p) (snd p) d) [] ps"

definition json_space :: "char \<Rightarrow> bool" where
  "json_space c \<longleftrightarrow> (let n = of_char c :: nat in n = 32 \<or> n = 9 \<or> n = 10 \<or> n = 13)"

definition skip_space :: "string \<Rightarrow> string" where
  "skip_space s = dropWhile json_space s"

fun esc_value :: "char \<Rightarrow> char option" where
  "esc_value c =
     (if c = CHR 0x22 then Some CHR 0x22 else if c = CHR 0x5C then Some CHR 0x5C
      else if c = CHR ''/'' then Some CHR ''/'' else if c = CHR ''n'' then Some CHR 0x0A
      else if c = CHR ''r'' then Some CHR 0x0D else if c = CHR ''t'' then Some CHR 0x09
      else if c = CHR ''f'' then Some CHR 0x0C else if c = CHR ''b'' then Some CHR 0x08 else None)"

fun hex4 :: "string \<Rightarrow> (nat \<times> string) option" where
  "hex4 (a # b # c # d # s) =
     (case (digit_value a, digit_value b, digit_value c, digit_value d) of
        (Some w, Some x, Some y, Some z) \<Rightarrow> Some (4096 * w + 256 * x + 16 * y + z, s)
      | _ \<Rightarrow> None)"
| "hex4 _ = None"

lemma hex4_length: "hex4 s = Some (n, r) \<Longrightarrow> length r < length s"
  by (induction s rule: hex4.induct) (auto split: option.splits)

function parse_string :: "string \<Rightarrow> (string \<times> string) option" where
  "parse_string [] = None"
| "parse_string (c # s) =
     (if c = CHR 0x22 then Some ([], s)
      else if c = CHR 0x5C then
        (case s of
           [] \<Rightarrow> None
         | e # s' \<Rightarrow>
             if e = CHR ''u'' then
               (case hex4 s' of
                  None \<Rightarrow> None
                | Some (n, r) \<Rightarrow>
                    if n < 256 then map_option (apfst (Cons (char_of n))) (parse_string r) else None)
             else (case esc_value e of
                     None \<Rightarrow> None
                   | Some x \<Rightarrow> map_option (apfst (Cons x)) (parse_string s')))
      else if of_char c < (32 :: nat) then None
      else map_option (apfst (Cons c)) (parse_string s))"
  by pat_completeness auto
termination by (relation "measure length") (auto dest: hex4_length)

fun digits_num :: "nat \<Rightarrow> string \<Rightarrow> nat" where
  "digits_num a [] = a"
| "digits_num a (c # s) = digits_num (10 * a + (case digit_value c of Some n \<Rightarrow> n | None \<Rightarrow> 0)) s"

definition parse_nat :: "string \<Rightarrow> (nat \<times> string) option" where
  "parse_nat s =
     (let ds = takeWhile is_digit s; r = dropWhile is_digit s in
      if ds = [] \<or> (r \<noteq> [] \<and> hd r \<in> {CHR ''.'', CHR ''e'', CHR ''E''}) then None
      else if hd ds = CHR ''0'' then Some (0, tl s)
      else Some (digits_num 0 ds, r))"

definition strip_prefix :: "string \<Rightarrow> string \<Rightarrow> string option" where
  "strip_prefix p s = (if take (length p) s = p then Some (drop (length p) s) else None)"

definition parse_scalar :: "string \<Rightarrow> (pyval \<times> string) option" where
  "parse_scalar s =
     (case strip_prefix ''null'' s of Some r \<Rightarrow> Some (PNone, r) | None \<Rightarrow>
     (case strip_prefix ''true'' s of Some r \<Rightarrow> Some (PBool True, r) | None \<Rightarrow>
     (case strip_prefix ''false'' s of Some r \<Rightarrow> Some (PBool False, r) | None \<Rightarrow>
     (case strip_prefix ''-'' s of
        Some r \<Rightarrow> map_option (apfst (\<lambda>n. PInt (- int n))) (parse_nat r)
      | None \<Rightarrow> map_option (apfst (\<lambda>n. PInt (int n))) (parse_nat s)))))"

text \<open>Each call uses one unit of fuel; a text of length \<open>n\<close> needs at most \<open>2 * n + 2\<close>.\<close>

fun parse_value :: "nat \<Rightarrow> string \<Rightarrow> (pyval \<times> string) option"
  and parse_elems :: "nat \<Rightarrow> string \<Rightarrow> (pyval list \<times> string) option"
  and parse_items :: "nat \<Rightarrow> string \<Rightarrow> ((pykey \<times> pyval) list \<times> string) option" where
  "parse_value 0 s = None"
| "parse_value (Suc n) s =
     (case skip_space s of
        [] \<Rightarrow> None
      | c # r \<Rightarrow>
          if c = CHR 0x22 then map_option (apfst PStr) (parse_string r)
          else if c = CHR ''['' then
            (case strip_prefix '']'' (skip_space r) of
               Some r' \<Rightarrow> Some (PList [], r')
             | None \<Rightarrow> map_option (apfst PList) (parse_elems n r))
          else if c = CHR ''{'' then
            (case strip_prefix ''}'' (skip_space r) of
               Some r' \<Rightarrow> Some (PDict [], r')
             | None \<Rightarrow> map_option (apfst (PDict \<circ> dict_of)) (parse_items n r))
          else parse_scalar (c # r))"
| "parse_elems 0 s = None"
| "parse_elems (Suc n) s =
     (case parse_value n s of
        None \<Rightarrow> None
      | Some (v, r) \<Rightarrow>
          (case strip_prefix '','' (skip_space r) of
             Some r' \<Rightarrow> map_option (apfst (Cons v)) (parse_elems n r')
           | None \<Rightarrow> map_option (\<lambda>r'. ([v], r')) (strip_prefix '']'' (skip_space r))))"
| "parse_items 0 s = None"
| "parse_items (Suc n) s =
     (case strip_prefix [CHR 0x22] (skip_space s) of
        None \<Rightarrow> None
      | Some s1 \<Rightarrow>
          (case parse_string s1 of
             None \<Rightarrow> None
           | Some (k, s2) \<Rightarrow>
               (case strip_prefix '':'' (skip_space s2) of
                  None \<Rightarrow> None
                | Some s3 \<Rightarrow>
                    (case parse_value n s3 of
                       None \<Rightarrow> None
                     | Some (v, r) \<Rightarrow>
                         (case strip_prefix '','' (skip_space r) of
                            Some r' \<Rightarrow> map_option (apfst (Cons (KStr k, v))) (parse_items n r')
                          | None \<Rightarrow> map_option (\<lambda>r'. ([(KStr k, v)], r')) (strip_prefix ''}'' (skip_space r)))))))"

definition loads :: "string \<Rightarrow> pyval res" where
  "loads s =
     (case parse_value (2 * length s + 2) s of
        Some (v, r) \<Rightarrow> if skip_space r = [] then Inr v else Inl ValueError
      | None \<Rightarrow> Inl ValueError)"

section \<open>The round trip\<close>

lemma dict_set_new: "k \<notin> fst ` set d \<Longrightarrow> dict_set k v d = d @ [(k, v)]"
  by (induction d) auto

lemma dict_of_distinct: "distinct (map fst ps) \<Longrightarrow> dict_of ps = ps"
proof -
  have "distinct (map fst (acc @ ps)) \<Longrightarrow> foldl (\<lambda>d p. dict_set (fst p) (snd p) d) acc ps = acc @ ps" for acc
    by (induction ps arbitrary: acc) (auto simp: dict_set_new)
  from this [of "[]"] show "distinct (map fst ps) \<Longrightarrow> ?thesis" by (simp add: dict_of_def)
qed

lemma char_special:
  "char_of (34 :: nat) = CHR 0x22" "char_of (92 :: nat) = CHR 0x5C" "char_of (10 :: nat) = CHR 0x0A"
  "char_of (13 :: nat) = CHR 0x0D" "char_of (9 :: nat) = CHR 0x09" "char_of (12 :: nat) = CHR 0x0C"
  "char_of (8 :: nat) = CHR 0x08"
  by (simp_all add: char_of_def bit_0)

lemma esc_special:
  "esc_char CHR 0x22 = [CHR 0x5C, CHR 0x22]" "esc_char CHR 0x5C = [CHR 0x5C, CHR 0x5C]"
  "esc_char CHR 0x0A = [CHR 0x5C, CHR ''n'']" "esc_char CHR 0x0D = [CHR 0x5C, CHR ''r'']"
  "esc_char CHR 0x09 = [CHR 0x5C, CHR ''t'']" "esc_char CHR 0x0C = [CHR 0x5C, CHR ''f'']"
  "esc_char CHR 0x08 = [CHR 0x5C, CHR ''b'']"
  by (simp_all add: esc_char_def)

lemma parse_string_esc:
  "parse_string (esc_char c @ s) = map_option (apfst (Cons c)) (parse_string s)"
proof -
  obtain n where n: "c = char_of n" "n < (256 :: nat)" using nat_of_char_less_256 [of c] by (metis char_of_char)
  then have oc: "of_char c = n" by simp
  consider "n \<in> {34, 92, 10, 13, 9, 12, 8}" | "n \<notin> {34, 92, 10, 13, 9, 12, 8}" "32 \<le> n" "n \<le> 126"
    | "n \<notin> {34, 92, 10, 13, 9, 12, 8}" "\<not> (32 \<le> n \<and> n \<le> 126)" by blast
  then show ?thesis
  proof cases
    case 1
    then have "c \<in> {CHR 0x22, CHR 0x5C, CHR 0x0A, CHR 0x0D, CHR 0x09, CHR 0x0C, CHR 0x08}"
      unfolding n(1) by (elim insertE emptyE) (simp_all only: char_special insert_iff simp_thms)
    then show ?thesis by (elim insertE emptyE) (simp_all add: esc_special)
  next
    case 2
    then have "c \<noteq> CHR 0x22" "c \<noteq> CHR 0x5C" using oc by auto
    with 2 show ?thesis by (simp add: esc_char_def oc)
  next
    case 3
    have "n div 16 < 16" using n(2) by (simp add: less_mult_imp_div_less)
    moreover have "digit_value CHR ''0'' = Some 0" by (simp add: digit_value_def)
    ultimately show ?thesis using 3 n by (auto simp: esc_char_def Let_def)
  qed
qed

lemma parse_string_quote: "parse_string (concat (map esc_char t) @ CHR 0x22 # r) = Some (t, r)"
  by (induction t) (simp_all add: parse_string_esc)

subsection \<open>Numbers\<close>

lemma is_digit_iff: "is_digit c \<longleftrightarrow> 48 \<le> (of_char c :: nat) \<and> (of_char c :: nat) \<le> 57"
proof
  assume "is_digit c"
  then obtain n where "n < 10" "c = hex_digit n" by (auto simp: is_digit_def)
  then show "48 \<le> (of_char c :: nat) \<and> (of_char c :: nat) \<le> 57" by (simp add: hex_digit_def)
next
  assume b: "48 \<le> (of_char c :: nat) \<and> (of_char c :: nat) \<le> 57"
  then obtain n where n: "(of_char c :: nat) = 48 + n" "n < 10" by (auto simp: le_iff_add)
  then have "c = hex_digit n" by (metis char_of_char hex_digit_def)
  with n show "is_digit c" by simp
qed

lemma digits_num_dec: "digits_num 0 (nat_dec n) = n"
proof (induction n rule: nat_dec.induct)
  case (1 n)
  have snoc: "list_all is_digit s \<Longrightarrow> d < 10 \<Longrightarrow> digits_num a (s @ [hex_digit d]) = 10 * digits_num a s + d" for s d a
    by (induction s arbitrary: a) auto
  from 1 show ?case using nat_dec_digits [of "n div 10"]
    by (simp add: nat_dec.simps [of n] snoc)
qed

lemma nat_dec_hd: "n \<noteq> 0 \<Longrightarrow> hd (nat_dec n) \<noteq> CHR ''0''"
proof (induction n rule: nat_dec.induct)
  case (1 n)
  show ?case
  proof (cases "n < 10")
    case True
    have "of_char (hex_digit n) = 48 + n" using True by (simp add: of_char_hex_digit)
    with 1(2) have "hex_digit n \<noteq> CHR ''0''" by auto
    with True show ?thesis by (simp add: nat_dec.simps [of n])
  next
    case False
    then have "n div 10 \<noteq> 0" by simp
    with 1(1) [OF False] False nat_dec_digits [of "n div 10"] show ?thesis by (simp add: nat_dec.simps [of n])
  qed
qed

definition json_end :: "string \<Rightarrow> bool" where
  "json_end r \<longleftrightarrow> r = [] \<or> hd r \<in> {CHR '','', CHR '']'', CHR ''}''}"

lemma json_end_digit: "json_end r \<Longrightarrow> r \<noteq> [] \<Longrightarrow> \<not> is_digit (hd r) \<and> hd r \<notin> {CHR ''.'', CHR ''e'', CHR ''E''}"
  by (auto simp: json_end_def is_digit_iff)

lemma parse_nat_dec: "json_end r \<Longrightarrow> parse_nat (nat_dec n @ r) = Some (n, r)"
proof -
  assume r: "json_end r"
  have ds: "takeWhile is_digit (nat_dec n @ r) = nat_dec n" "dropWhile is_digit (nat_dec n @ r) = r"
    using nat_dec_digits [of n] json_end_digit [OF r]
    by (cases r; simp add: list_all_iff takeWhile_append2 dropWhile_append2)+
  show ?thesis
  proof (cases "n = 0")
    case True
    then have "nat_dec n = [CHR ''0'']" by (simp add: nat_dec.simps hex_digit_def char_of_def bit_0)
    with ds json_end_digit [OF r] show ?thesis by (auto simp: parse_nat_def True Let_def)
  next
    case False
    with ds nat_dec_hd [OF False] json_end_digit [OF r] nat_dec_digits [of n] show ?thesis
      by (auto simp: parse_nat_def Let_def digits_num_dec)
  qed
qed

lemma strip_prefix_ne: "p \<noteq> [] \<Longrightarrow> s \<noteq> [] \<Longrightarrow> hd s \<noteq> hd p \<Longrightarrow> strip_prefix p s = None"
  by (cases p; cases s) (auto simp: strip_prefix_def)

lemma strip_prefix_same [simp]: "strip_prefix [c] (c # r) = Some r"
  by (simp add: strip_prefix_def)

lemma strip_prefix_other [simp]: "c \<noteq> d \<Longrightarrow> strip_prefix [c] (d # r) = None"
  by (simp add: strip_prefix_def)

lemma parse_scalar_int: "json_end r \<Longrightarrow> parse_scalar (int_dec i @ r) = Some (PInt i, r)"
proof -
  assume r: "json_end r"
  have hd: "nat_dec n @ r \<noteq> [] \<and> hd (nat_dec n @ r) \<notin> {CHR ''n'', CHR ''t'', CHR ''f'', CHR ''-''}" for n
    using nat_dec_digits [of n] by (cases "nat_dec n") (auto simp: is_digit_iff)
  show ?thesis
  proof (cases "i < 0")
    case True
    then have "int_dec i @ r = CHR ''-'' # (nat_dec (nat (- i)) @ r)" by (simp add: int_dec_def)
    with True parse_nat_dec [OF r] show ?thesis
      by (simp add: parse_scalar_def strip_prefix_ne)
  next
    case False
    then have "int_dec i @ r = nat_dec (nat i) @ r" by (simp add: int_dec_def)
    with False hd [of "nat i"] parse_nat_dec [OF r, of "nat i"] show ?thesis
      by (simp add: parse_scalar_def strip_prefix_ne)
  qed
qed

subsection \<open>Values\<close>

function wf_val :: "pyval \<Rightarrow> bool" where
  "wf_val PNone = True"
| "wf_val (PBool b) = True"
| "wf_val (PInt i) = True"
| "wf_val (PStr s) = True"
| "wf_val (PList vs) = list_all wf_val vs"
| "wf_val (PDict d) = (distinct (map fst d) \<and> list_all (\<lambda>p. wf_val (snd p)) d)"
  by pat_completeness auto

termination
  by (relation "measure size") (auto dest: size_dict_item size_list_item simp del: pyval.size)

definition json_start :: "char \<Rightarrow> bool" where
  "json_start c \<longleftrightarrow> \<not> json_space c \<and> c \<notin> {CHR '','', CHR '']'', CHR ''}''}"

lemma int_dec_start: "\<exists>c s. int_dec i = c # s \<and> json_start c \<and> c \<notin> {CHR 0x22, CHR ''['', CHR ''{''}"
proof (cases "i < 0")
  case True
  then show ?thesis by (simp add: int_dec_def json_start_def json_space_def)
next
  case False
  obtain c s where "nat_dec (nat i) = c # s" "is_digit c" using nat_dec_digits [of "nat i"] by (cases "nat_dec (nat i)") auto
  with False show ?thesis by (auto simp: int_dec_def json_start_def json_space_def is_digit_iff)
qed

lemma dumps_start: "dumps v = Inr s \<Longrightarrow> s \<noteq> [] \<and> json_start (hd s)"
proof (cases v)
  case (PInt i)
  assume "dumps v = Inr s"
  with PInt int_dec_start [of i] show ?thesis by fastforce
next
  case (PList vs)
  assume "dumps v = Inr s"
  with PList obtain t where "s = CHR ''['' # t" by (auto simp: res_simps)
  then show ?thesis by (simp add: json_start_def json_space_def)
next
  case (PDict d)
  assume "dumps v = Inr s"
  with PDict obtain t where "s = CHR ''{'' # t" by (auto simp: res_simps split: if_splits)
  then show ?thesis by (simp add: json_start_def json_space_def)
qed (auto simp: quote_def json_start_def json_space_def split: if_splits)

lemma skip_space_start: "json_start c \<Longrightarrow> skip_space (c # s) = c # s"
  by (simp add: skip_space_def json_start_def)

lemma skip_space_end: "json_end r \<Longrightarrow> skip_space r = r"
  by (cases r) (auto simp: skip_space_def json_end_def json_space_def)

definition reads_back :: "pyval \<Rightarrow> bool" where
  "reads_back v \<longleftrightarrow> (\<forall>s n r. dumps v = Inr s \<longrightarrow> json_end r \<longrightarrow> 2 * length s \<le> n
     \<longrightarrow> parse_value n (s @ r) = Some (reload v, r))"

lemma reads_backD:
  "reads_back v \<Longrightarrow> dumps v = Inr s \<Longrightarrow> json_end r \<Longrightarrow> 2 * length s \<le> n \<Longrightarrow> parse_value n (s @ r) = Some (reload v, r)"
  by (simp add: reads_back_def)

lemma parse_elems_join:
  assumes "map_res dumps vs = Inr ss" "vs \<noteq> []" "\<And>v. v \<in> set vs \<Longrightarrow> reads_back v"
    and "2 * length (join_with (CHR '','') ss) + 1 \<le> n"
  shows "parse_elems n (join_with (CHR '','') ss @ CHR '']'' # r) = Some (map reload vs, r)"
  using assms
proof (induction vs arbitrary: ss n)
  case (Cons v vs)
  from Cons.prems(1) obtain s ss' where s: "dumps v = Inr s" "map_res dumps vs = Inr ss'" "ss = s # ss'"
    by (auto simp: res_simps)
  from Cons.prems(4) obtain m where n: "n = Suc m" by (cases n) auto
  have v: "reads_back v" using Cons.prems(3) by simp
  show ?case
  proof (cases vs)
    case Nil
    with s have "ss' = []" by simp
    with reads_backD [OF v s(1), of "CHR '']'' # r" m] Cons.prems(4) s(3) n Nil show ?thesis
      by (simp add: json_end_def skip_space_def json_space_def)
  next
    case (Cons w ws)
    with s(2) obtain t ts where ts: "ss' = t # ts" by (auto simp: res_simps)
    let ?rest = "join_with (CHR '','') ss' @ CHR '']'' # r"
    have "parse_elems m ?rest = Some (map reload vs, r)"
      using Cons.prems(3,4) Cons n s(3) ts by (intro Cons.IH s(2)) auto
    moreover have "parse_value m (s @ CHR '','' # ?rest) = Some (reload v, CHR '','' # ?rest)"
      using Cons.prems(4) n s(3) ts by (intro reads_backD [OF v s(1)]) (auto simp: json_end_def)
    ultimately show ?thesis using n s(3) ts by (simp add: skip_space_def json_space_def)
  qed
qed simp

definition item_text :: "pykey \<times> pyval \<Rightarrow> string res" where
  "item_text p = bind_res (dumps (snd p)) (\<lambda>s. Inr (quote (key_text (fst p)) @ CHR '':'' # s))"

lemma parse_items_join:
  assumes "map_res item_text d = Inr ss" "d \<noteq> []" "\<And>p. p \<in> set d \<Longrightarrow> reads_back (snd p)"
    and "2 * length (join_with (CHR '','') ss) + 1 \<le> n"
  shows "parse_items n (join_with (CHR '','') ss @ CHR ''}'' # r)
    = Some (map (\<lambda>p. (KStr (key_text (fst p)), reload (snd p))) d, r)"
  using assms
proof (induction d arbitrary: ss n)
  case (Cons p d)
  from Cons.prems(1) obtain t ss' where t: "item_text p = Inr t" "map_res item_text d = Inr ss'" "ss = t # ss'"
    by (auto simp: res_simps)
  then obtain s where s: "dumps (snd p) = Inr s" "map_res item_text d = Inr ss'"
      "ss = (quote (key_text (fst p)) @ CHR '':'' # s) # ss'"
    by (auto simp: res_simps item_text_def)
  from Cons.prems(4) obtain m where n: "n = Suc m" by (cases n) auto
  have v: "reads_back (snd p)" using Cons.prems(3) by simp
  have key: "parse_items (Suc m) (quote k @ CHR '':'' # t) =
      (case parse_value m t of None \<Rightarrow> None
       | Some (v, r) \<Rightarrow> (case strip_prefix '','' (skip_space r) of
             Some r' \<Rightarrow> map_option (apfst (Cons (KStr k, v))) (parse_items m r')
           | None \<Rightarrow> map_option (\<lambda>r'. ([(KStr k, v)], r')) (strip_prefix ''}'' (skip_space r))))" for k t
    by (simp add: quote_def parse_string_quote skip_space_def json_space_def)
  show ?case
  proof (cases d)
    case Nil
    with s have "ss' = []" by simp
    with reads_backD [OF v s(1), of "CHR ''}'' # r" m] Cons.prems(4) s(3) n Nil key show ?thesis
      by (simp add: json_end_def skip_space_def json_space_def del: parse_items.simps)
  next
    case (Cons w ws)
    with s(2) obtain t ts where ts: "ss' = t # ts" by (auto simp: res_simps)
    let ?rest = "join_with (CHR '','') ss' @ CHR ''}'' # r"
    have "parse_items m ?rest = Some (map (\<lambda>p. (KStr (key_text (fst p)), reload (snd p))) d, r)"
      using Cons.prems(3,4) Cons n s(3) ts by (intro Cons.IH s(2)) auto
    moreover have "parse_value m (s @ CHR '','' # ?rest) = Some (reload (snd p), CHR '','' # ?rest)"
      using Cons.prems(4) n s(3) ts by (intro reads_backD [OF v s(1)]) (auto simp: json_end_def)
    ultimately show ?thesis using n s(3) ts key
      by (simp add: skip_space_def json_space_def del: parse_items.simps)
  qed
qed simp

lemma key_text_inj:
  "\<not> mixed_keys d \<Longrightarrow> p \<in> set d \<Longrightarrow> q \<in> set d \<Longrightarrow> key_text (fst p) = key_text (fst q) \<Longrightarrow> fst p = fst q"
  by (cases "fst p"; cases "fst q") (force simp: mixed_keys_def)+

lemma distinct_key_texts:
  assumes "distinct (map fst d)" "\<not> mixed_keys d"
  shows "distinct (map (\<lambda>p. KStr (key_text (fst p))) (sort_key fst d))"
proof -
  have "distinct (map fst (sort_key fst d))"
    using assms(1) by (metis distinct_map distinct_sort set_sort)
  moreover have "inj_on (\<lambda>k. KStr (key_text k)) (fst ` set (sort_key fst d))"
    using key_text_inj [OF assms(2)] by (auto simp: inj_on_def)
  ultimately have "distinct (map (\<lambda>k. KStr (key_text k)) (map fst (sort_key fst d)))"
    unfolding distinct_map [of _ "map fst (sort_key fst d)"] by simp
  then show ?thesis by (simp add: comp_def)
qed

lemma dumps_dict:
  "dumps (PDict d) =
     (if mixed_keys d then Inl TypeError
      else bind_res (map_res item_text (sort_key fst d))
             (\<lambda>ss. Inr (CHR ''{'' # join_with (CHR '','') ss @ ''}'')))"
  by (simp add: item_text_def [abs_def])

lemma reads_back_scalar:
  assumes "dumps v = Inr (c # t)" "json_start c" "c \<notin> {CHR 0x22, CHR ''['', CHR ''{''}"
    and "\<And>r. json_end r \<Longrightarrow> parse_scalar (c # t @ r) = Some (reload v, r)"
  shows "reads_back v"
  unfolding reads_back_def
proof (intro allI impI)
  fix s n r assume a: "dumps v = Inr s" "json_end r" "2 * length s \<le> n"
  with assms(1) have "s = c # t" by simp
  with a(3) obtain m where "n = Suc m" by (cases n) auto
  with \<open>s = c # t\<close> assms(2,3) assms(4) [OF a(2)] show "parse_value n (s @ r) = Some (reload v, r)"
    by (auto simp: skip_space_start)
qed

lemma reads_back_wf: "wf_val v \<Longrightarrow> reads_back v"
proof (induction v rule: wf_val.induct)
  case 1
  show ?case
    by (rule reads_back_scalar [of _ "CHR ''n''" "''ull''"]) (simp_all add: parse_scalar_def strip_prefix_def json_start_def json_space_def)
next
  case (2 b)
  show ?case
  proof (cases b)
    case True
    then show ?thesis
      by (intro reads_back_scalar [of _ "CHR ''t''" "''rue''"])
        (simp_all add: parse_scalar_def strip_prefix_def json_start_def json_space_def)
  next
    case False
    then show ?thesis
      by (intro reads_back_scalar [of _ "CHR ''f''" "''alse''"])
        (simp_all add: parse_scalar_def strip_prefix_def json_start_def json_space_def)
  qed
next
  case (3 i)
  obtain c t where c: "int_dec i = c # t" "json_start c" "c \<notin> {CHR 0x22, CHR ''['', CHR ''{''}"
    using int_dec_start [of i] by blast
  show ?case
  proof (rule reads_back_scalar [OF _ c(2,3)])
    show "dumps (PInt i) = Inr (c # t)" using c(1) by simp
    show "json_end r \<Longrightarrow> parse_scalar (c # t @ r) = Some (reload (PInt i), r)" for r
      using parse_scalar_int [of r i] c(1) by simp
  qed
next
  case (4 t)
  show ?case unfolding reads_back_def
    by (intro allI impI, case_tac n)
      (auto simp: quote_def skip_space_def json_space_def parse_string_quote)
next
  case (5 vs)
  show ?case unfolding reads_back_def
  proof (intro allI impI)
    fix s n r assume a: "dumps (PList vs) = Inr s" "json_end r" "2 * length s \<le> n"
    then obtain ss where ss: "map_res dumps vs = Inr ss" "s = CHR ''['' # join_with (CHR '','') ss @ CHR '']'' # []"
      by (auto simp: res_simps)
    then obtain m where n: "n = Suc m" using a(3) by (cases n) auto
    show "parse_value n (s @ r) = Some (reload (PList vs), r)"
    proof (cases vs)
      case Nil
      with ss n show ?thesis by (simp add: skip_space_def json_space_def)
    next
      case (Cons v ws)
      with ss obtain u us where us: "ss = u # us" "dumps v = Inr u" by (auto simp: res_simps)
      have "parse_elems m (join_with (CHR '','') ss @ CHR '']'' # r) = Some (map reload vs, r)"
        using 5 a(3) n ss(2) Cons by (intro parse_elems_join ss) (auto simp: list_all_iff)
      moreover have "strip_prefix '']'' (skip_space (join_with (CHR '','') ss @ CHR '']'' # r)) = None"
      proof -
        obtain c t where "u = c # t" "json_start c" using dumps_start [OF us(2)] by (cases u) auto
        moreover from this us(1) obtain t' where "join_with (CHR '','') ss = c # t'" by (cases us) auto
        ultimately show ?thesis by (auto simp: skip_space_start json_start_def)
      qed
      ultimately show ?thesis using ss n by (simp add: skip_space_def json_space_def)
    qed
  qed
next
  case (6 d)
  show ?case unfolding reads_back_def
  proof (intro allI impI)
    fix s n r assume a: "dumps (PDict d) = Inr s" "json_end r" "2 * length s \<le> n"
    then obtain ss where mixed: "\<not> mixed_keys d" and ss: "map_res item_text (sort_key fst d) = Inr ss"
      "s = CHR ''{'' # join_with (CHR '','') ss @ CHR ''}'' # []"
      by (auto simp: res_simps dumps_dict simp del: dumps.simps split: if_splits)
    then obtain m where n: "n = Suc m" using a(3) by (cases n) auto
    let ?items = "map (\<lambda>p. (KStr (key_text (fst p)), reload (snd p))) (sort_key fst d)"
    have dict: "dict_of ?items = ?items"
      using distinct_key_texts [OF _ mixed] 6(2) by (intro dict_of_distinct) (simp add: comp_def)
    show "parse_value n (s @ r) = Some (reload (PDict d), r)"
    proof (cases "sort_key fst d")
      case Nil
      with ss n show ?thesis by (simp add: skip_space_def json_space_def)
    next
      case (Cons p ps)
      with ss obtain u us where us: "ss = u # us" "item_text p = Inr u" by (auto simp: res_simps)
      have "parse_items m (join_with (CHR '','') ss @ CHR ''}'' # r) = Some (?items, r)"
      proof (rule parse_items_join [OF ss(1)])
        show "reads_back (snd q)" if "q \<in> set (sort_key fst d)" for q
          using that 6(1) [of q] 6(2) by (auto simp: list_all_iff)
      qed (use a(3) n ss(2) Cons in auto)
      moreover have "strip_prefix ''}'' (skip_space (join_with (CHR '','') ss @ CHR ''}'' # r)) = None"
      proof -
        obtain t where "u = CHR 0x22 # t" using us(2) by (auto simp: item_text_def quote_def res_simps)
        with us(1) obtain t' where "join_with (CHR '','') ss = CHR 0x22 # t'" by (cases us) auto
        then show ?thesis by (simp add: skip_space_def json_space_def)
      qed
      ultimately show ?thesis using ss n dict by (simp add: skip_space_def json_space_def)
    qed
  qed
qed

lemma loads_dumps: "wf_val v \<Longrightarrow> dumps v = Inr s \<Longrightarrow> loads s = Inr (reload v)"
  using reads_backD [OF reads_back_wf, of v s "[]" "2 * length s + 2"]
  by (simp add: loads_def json_end_def skip_space_def)

lemma dumps_inj: "wf_val v \<Longrightarrow> wf_val w \<Longrightarrow> dumps v = Inr s \<Longrightarrow> dumps w = Inr s \<Longrightarrow> reload v = reload w"
  using loads_dumps [of v s] loads_dumps [of w s] by simp

section \<open>When the canonical form survives the trip\<close>

text \<open>
  Sorting before the keys become text, and sorting the texts, agree: always so for
  string keys, for integer keys only when the decimal texts are in numerical order.
\<close>

function stable :: "pyval \<Rightarrow> bool" where
  "stable PNone = True"
| "stable (PBool b) = True"
| "stable (PInt i) = True"
| "stable (PStr s) = True"
| "stable (PList vs) = list_all stable vs"
| "stable (PDict d) =
     (sorted (map (\<lambda>p. key_text (fst p)) (sort_key fst d)) \<and> list_all (\<lambda>p. stable (snd p)) d)"
  by pat_completeness auto

termination
  by (relation "measure size") (auto dest: size_dict_item size_list_item simp del: pyval.size)

lemma reload_wf: "wf_val v \<Longrightarrow> dumps v = Inr s \<Longrightarrow> wf_val (reload v)"
proof (induction v arbitrary: s rule: wf_val.induct)
  case (5 vs)
  then show ?case by (auto simp: list_all_iff res_simps dest: map_res_set)
next
  case (6 d)
  then have mixed: "\<not> mixed_keys d" by (auto split: if_splits)
  have "wf_val (reload (snd p))" if p: "p \<in> set d" for p
  proof -
    obtain ss where "map_res item_text (sort_key fst d) = Inr ss"
      using 6(3) mixed by (auto simp: res_simps dumps_dict simp del: dumps.simps)
    from map_res_set [OF this, of p] p obtain t where "dumps (snd p) = Inr t"
      by (auto simp: item_text_def res_simps)
    then show ?thesis using p 6(2) by (intro 6(1)) (auto simp: list_all_iff)
  qed
  with 6(2) distinct_key_texts [OF _ mixed] show ?case by (auto simp: list_all_iff comp_def)
qed simp_all

lemma no_mixed_texts [simp]: "\<not> mixed_keys (map (\<lambda>p. (KStr (f p), g p)) d)"
  by (auto simp: mixed_keys_def)

lemma sort_key_sorted: "sorted (map f xs) \<Longrightarrow> sort_key f xs = xs"
  by (rule sort_key_id_if_sorted)

lemma sorted_KStr: "sorted (map (\<lambda>p. KStr (f p)) xs) \<longleftrightarrow> sorted (map f xs)"
  by (induction xs) auto

lemma stable_reload: "stable v \<Longrightarrow> dumps v = Inr s \<Longrightarrow> dumps (reload v) = Inr s"
proof (induction v arbitrary: s rule: stable.induct)
  case (5 vs)
  have "map_res dumps (map reload vs) = map_res dumps vs" if "map_res dumps vs = Inr ss" for ss
    using that 5(1,2)
  proof (induction vs arbitrary: ss)
    case (Cons v vs)
    then show ?case by (auto simp: res_simps)
  qed simp
  with 5(3) show ?case by (auto simp: res_simps)
next
  case (6 d)
  let ?it = "\<lambda>p. (KStr (key_text (fst p)), reload (snd p))"
  from 6(3) obtain ss where mixed: "\<not> mixed_keys d" and ss: "map_res item_text (sort_key fst d) = Inr ss"
      "s = CHR ''{'' # join_with (CHR '','') ss @ ''}''"
    by (auto simp: res_simps dumps_dict simp del: dumps.simps split: if_splits)
  have "sorted (map fst (map ?it (sort_key fst d)))"
    using 6(2) by (simp add: comp_def sorted_KStr)
  then have sorted: "sort_key fst (map ?it (sort_key fst d)) = map ?it (sort_key fst d)" by (rule sort_key_sorted)
  have "map_res item_text (map ?it ds) = map_res item_text ds" if "set ds \<subseteq> set d" "map_res item_text ds = Inr ss" for ds ss
    using that
  proof (induction ds arbitrary: ss)
    case (Cons p ds)
    then obtain t where t: "dumps (snd p) = Inr t" by (auto simp: res_simps item_text_def)
    have "dumps (reload (snd p)) = Inr t" using Cons.prems(1) 6(2) by (intro 6(1) t) (auto simp: list_all_iff)
    with t Cons show ?case by (auto simp: res_simps item_text_def)
  qed simp
  from this [of "sort_key fst d" ss] ss sorted show ?case
    by (simp add: dumps_dict mixed comp_def del: dumps.simps)
qed simp_all

lemma sort_map_fixed:
  assumes "sort_key fst (map f xs) = map f xs"
  shows "sorted (map (\<lambda>p. fst (f p)) xs)"
  using sorted_sort_key [of fst "map f xs"] unfolding assms by (simp add: comp_def)

lemma stable_fixed: "reload (reload v) = reload v \<Longrightarrow> stable v"
proof (induction v rule: stable.induct)
  case (5 vs)
  then show ?case by (auto simp: list_all_iff)
next
  case (6 d)
  let ?it = "\<lambda>p. (KStr (key_text (fst p)), reload (snd p))"
  let ?L = "map ?it (sort_key fst d)"
  have eq: "map ?it (sort_key fst ?L) = ?L" using 6(2) by simp
  have strk: "KStr (key_text (fst q)) = fst q" if "q \<in> set ?L" for q using that by auto
  have "map fst (sort_key fst ?L) = map (\<lambda>q. KStr (key_text (fst q))) (sort_key fst ?L)"
    by (rule map_cong [OF refl]) (use strk in \<open>simp only: set_sort\<close>)
  also have "\<dots> = map fst (map ?it (sort_key fst ?L))" by simp
  also have "\<dots> = map fst ?L" by (simp only: eq)
  finally have "map fst ?L = map fst (sort_key fst ?L)" ..
  then have "sorted (map fst ?L)" by (simp only: sorted_sort_key)
  then have sorted: "sorted (map (\<lambda>p. key_text (fst p)) (sort_key fst d))" and id: "sort_key fst ?L = ?L"
    by (simp_all add: comp_def sorted_KStr sort_key_sorted)
  from eq have "map ?it ?L = ?L" unfolding id .
  then have "reload (reload (snd p)) = reload (snd p)" if "p \<in> set d" for p
    using that by (auto simp: comp_def)
  with 6(1) sorted show ?case by (auto simp: list_all_iff)
qed simp_all

lemma reload_canonical_iff:
  assumes "wf_val v" "dumps v = Inr s"
  shows "dumps (reload v) = Inr s \<longleftrightarrow> stable v"
proof
  assume "dumps (reload v) = Inr s"
  then have "reload (reload v) = reload v"
    using dumps_inj [OF reload_wf [OF assms] assms(1) _ assms(2)] by simp
  then show "stable v" by (rule stable_fixed)
qed (rule stable_reload [OF _ assms(2)])

text \<open>Dicts with string keys all the way down are stable.\<close>

function str_keys :: "pyval \<Rightarrow> bool" where
  "str_keys PNone = True"
| "str_keys (PBool b) = True"
| "str_keys (PInt i) = True"
| "str_keys (PStr s) = True"
| "str_keys (PList vs) = list_all str_keys vs"
| "str_keys (PDict d) = (list_all (\<lambda>p. \<not> is_int_key (fst p)) d \<and> list_all (\<lambda>p. str_keys (snd p)) d)"
  by pat_completeness auto

termination
  by (relation "measure size") (auto dest: size_dict_item size_list_item simp del: pyval.size)

lemma sorted_str_texts:
  assumes "list_all (\<lambda>p. \<not> is_int_key (fst p)) d"
  shows "sorted (map (\<lambda>p. key_text (fst p)) (sort_key fst d))"
proof -
  have "map (\<lambda>p. KStr (key_text (fst p))) (sort_key fst d) = map fst (sort_key fst d)"
  proof (rule map_cong [OF refl])
    fix p assume "p \<in> set (sort_key fst d)"
    with assms have "\<not> is_int_key (fst p)" by (simp add: list_all_iff)
    then show "KStr (key_text (fst p)) = fst p" by (cases "fst p") auto
  qed
  then have "sorted (map (\<lambda>p. KStr (key_text (fst p))) (sort_key fst d))"
    by (simp only: sorted_sort_key)
  then show ?thesis by (simp only: sorted_KStr)
qed

lemma str_keys_stable: "str_keys v \<Longrightarrow> stable v"
  by (induction v rule: str_keys.induct) (auto simp: list_all_iff sorted_str_texts)

lemma str_keys_reload: "str_keys (reload v)"
  by (induction v rule: reload.induct) (auto simp: list_all_iff)

end
