(* ===== verification/Certificate.thy ===== *)
theory Certificate
  imports Smt Merkle Json
begin

text \<open>
  \<open>verify/manifest.py\<close>, \<open>verify/sign.py\<close> and \<open>verify/verifier_cli.py\<close>: the canonical
  bytes of an erasure certificate, signing, and the standalone verifier. Ed25519
  (package PyNaCl) is a parameter: \<open>ed_public\<close>, \<open>ed_sign\<close> and \<open>ed_verify\<close>; the one law
  used of it for issued certificates is that a signature made with a seed verifies
  under that seed's public key.
\<close>

section \<open>Manifests\<close>

definition REQUIRED_FIELDS :: "string list" where
  "REQUIRED_FIELDS =
     [''subject_ref'', ''shard'', ''resumed_from'', ''dataset_root'', ''absence_proof'',
      ''code_digest'', ''config_digest'', ''result_weights'', ''model_version'',
      ''purged_at'', ''completed_at'']"

text \<open>\<open>f in v\<close> for a string \<open>f\<close>: a key of a dict, an item of a list, a substring.\<close>

fun contains :: "pyval \<Rightarrow> string \<Rightarrow> bool res" where
  "contains (PDict d) f = Inr (KStr f \<in> fst ` set d)"
| "contains (PList vs) f = Inr (PStr f \<in> set vs)"
| "contains (PStr s) f = Inr (\<exists>i\<in>set [0..<Suc (length s)]. take (length f) (drop i s) = f)"
| "contains _ f = Inl TypeError"

definition missing_fields :: "pyval \<Rightarrow> string list res" where
  "missing_fields m = filter_res (\<lambda>f. bind_res (contains m f) (\<lambda>b. Inr (\<not> b))) REQUIRED_FIELDS"

text \<open>\<open>.encode()\<close> of a text that \<open>ensure_ascii\<close> has made ASCII: one byte per character.\<close>

definition encode_ascii :: "string \<Rightarrow> bytes" where
  "encode_ascii s = map (\<lambda>c. word_of_nat (of_char c)) s"

definition canonical_bytes :: "pyval \<Rightarrow> bytes res" where
  "canonical_bytes manifest =
     bind_res (missing_fields manifest) (\<lambda>missing.
       if missing \<noteq> [] then Inl ValueError
       else bind_res (dumps manifest) (\<lambda>s. Inr (encode_ascii s)))"

definition manifest_build ::
  "string \<Rightarrow> nat \<Rightarrow> string \<Rightarrow> string \<Rightarrow> pyval \<Rightarrow> string \<Rightarrow> string \<Rightarrow> string \<Rightarrow> string \<Rightarrow> string \<Rightarrow> string
    \<Rightarrow> (pykey \<times> pyval) list" where
  "manifest_build subject_ref shard resumed_from dataset_root absence_proof code_digest
     config_digest result_weights model_version purged_at completed_at =
     [(KStr ''subject_ref'', PStr subject_ref),
      (KStr ''shard'', PInt (int shard)),
      (KStr ''resumed_from'', PStr resumed_from),
      (KStr ''dataset_root'', PStr dataset_root),
      (KStr ''absence_proof'', absence_proof),
      (KStr ''code_digest'', PStr code_digest),
      (KStr ''config_digest'', PStr config_digest),
      (KStr ''result_weights'', PStr result_weights),
      (KStr ''model_version'', PStr model_version),
      (KStr ''purged_at'', PStr purged_at),
      (KStr ''completed_at'', PStr completed_at)]"

section \<open>Signing\<close>

text \<open>
  The environment variable is \<open>None\<close> when it is unset. PyNaCl refuses a seed or a
  public key that does not have 32 bytes.
\<close>

definition signing_key :: "string option \<Rightarrow> bytes res" where
  "signing_key seed =
     (if seed = None \<or> seed = Some [] then Inl RuntimeError
      else bind_res (fromhex (the seed)) (\<lambda>k. if length k = 32 then Inr k else Inl ValueError))"

definition sign_manifest :: "(bytes \<Rightarrow> bytes \<Rightarrow> bytes) \<Rightarrow> string option \<Rightarrow> pyval \<Rightarrow> string res" where
  "sign_manifest ed_sign seed manifest =
     bind_res (signing_key seed) (\<lambda>key.
     bind_res (canonical_bytes manifest) (\<lambda>b. Inr (to_hex (ed_sign key b))))"

definition load_public_key :: "string \<Rightarrow> bytes res" where
  "load_public_key text =
     bind_res (fromhex (strip_ws text)) (\<lambda>k. if length k = 32 then Inr k else Inl ValueError)"

text \<open>
  \<open>_generate_dev_key\<close>: the texts of \<open>public_key.hex\<close> and of the private file, for the fresh
  seed that \<open>SigningKey.generate\<close> draws.
\<close>

definition generate_dev_key :: "(bytes \<Rightarrow> bytes) \<Rightarrow> bytes \<Rightarrow> string \<times> string" where
  "generate_dev_key ed_public seed = (to_hex (ed_public seed) @ [CHR 0x0A], to_hex seed)"

definition verify_manifest :: "(bytes \<Rightarrow> bytes \<Rightarrow> bytes \<Rightarrow> bool) \<Rightarrow> pyval \<Rightarrow> pyval \<Rightarrow> bytes \<Rightarrow> bool res" where
  "verify_manifest ed_verify manifest signature_hex public_key =
     catch_as {ValueError, TypeError} False
       (bind_res (canonical_bytes manifest) (\<lambda>b.
        bind_res (fromhex_val signature_hex) (\<lambda>sig.
        Inr (ed_verify public_key b sig))))"

section \<open>The standalone verifier\<close>

definition is_smt :: "pyval \<Rightarrow> bool" where
  "is_smt pf = (case dict_items pf of
     None \<Rightarrow> False | Some d \<Rightarrow> map_of d (KStr ''scheme'') = Some (PStr ''smt-256''))"

definition cli_verify_absence :: "pyval \<Rightarrow> pyval \<Rightarrow> pyval \<Rightarrow> (bool \<times> string) res" where
  "cli_verify_absence subject_ref pf dataset_root =
     (if is_smt pf then
        bind_res (verify_absence subject_ref pf dataset_root) (\<lambda>b. Inr (b, ''sparse Merkle (smt-256)''))
      else
        bind_res (merkle_verify_absence subject_ref pf dataset_root) (\<lambda>b. Inr (b, ''sorted Merkle (legacy)'')))"

text \<open>The lines of the report, with the values they quote.\<close>

datatype finding =
    Missing_Fields "string list" | No_Signature | Signature_Invalid | Signature_Valid
  | Absence_Valid pyval string | Absence_Invalid
  | Subject_Absent pyval pyval pyval | Weights pyval pyval

text \<open>\<open>v[:16]\<close> and \<open>manifest.pop("signature", None)\<close>.\<close>

fun slice16 :: "pyval \<Rightarrow> pyval res" where
  "slice16 (PStr s) = Inr (PStr (take 16 s))"
| "slice16 (PList vs) = Inr (PList (take 16 vs))"
| "slice16 _ = Inl TypeError"

fun pop_default :: "pyval \<Rightarrow> string \<Rightarrow> pyval \<Rightarrow> (pyval \<times> pyval) res" where
  "pop_default (PDict d) k dflt =
     Inr (case map_of d (KStr k) of Some v \<Rightarrow> v | None \<Rightarrow> dflt, PDict (filter (\<lambda>p. fst p \<noteq> KStr k) d))"
| "pop_default (PList vs) k dflt = Inl TypeError"
| "pop_default _ k dflt = Inl AttributeError"

fun truthy :: "pyval \<Rightarrow> bool" where
  "truthy PNone = False"
| "truthy (PBool b) = b"
| "truthy (PInt i) = (i \<noteq> 0)"
| "truthy (PStr s) = (s \<noteq> [])"
| "truthy (PList vs) = (vs \<noteq> [])"
| "truthy (PDict d) = (d \<noteq> [])"

definition signature_ok :: "(bytes \<Rightarrow> bytes \<Rightarrow> bytes \<Rightarrow> bool) \<Rightarrow> bytes \<Rightarrow> pyval \<Rightarrow> pyval \<Rightarrow> bool" where
  "signature_ok ed_verify public_key body signature =
     (case bind_res (canonical_bytes body) (\<lambda>b. bind_res (fromhex_val signature) (\<lambda>sig.
             Inr (ed_verify public_key b sig))) of
        Inr b \<Rightarrow> b | Inl _ \<Rightarrow> False)"

definition verify_certificate ::
  "(bytes \<Rightarrow> bytes \<Rightarrow> bytes \<Rightarrow> bool) \<Rightarrow> pyval \<Rightarrow> bytes \<Rightarrow> (bool \<times> finding list) res" where
  "verify_certificate ed_verify manifest public_key =
     bind_res (missing_fields manifest) (\<lambda>missing.
     if missing \<noteq> [] then Inr (False, [Missing_Fields missing])
     else bind_res (pop_default manifest ''signature'' PNone) (\<lambda>(signature, body).
     if \<not> truthy signature then Inr (False, [No_Signature])
     else if \<not> signature_ok ed_verify public_key body signature then Inr (False, [Signature_Invalid])
     else
       bind_res (getitem body ''subject_ref'') (\<lambda>subject.
       bind_res (getitem body ''absence_proof'') (\<lambda>pf.
       bind_res (getitem body ''dataset_root'') (\<lambda>root.
       bind_res (cli_verify_absence subject pf root) (\<lambda>(proof_ok, scheme).
       if \<not> proof_ok then Inr (False, [Signature_Valid, Absence_Invalid])
       else
         bind_res (slice16 root) (\<lambda>root16.
         bind_res (slice16 subject) (\<lambda>subject16.
         bind_res (getitem body ''shard'') (\<lambda>shard.
         bind_res (getitem body ''model_version'') (\<lambda>model_version.
         bind_res (getitem body ''result_weights'') (\<lambda>weights.
         bind_res (slice16 weights) (\<lambda>weights16.
         bind_res (getitem body ''code_digest'') (\<lambda>code_digest.
         Inr (True, [Signature_Valid, Absence_Valid root16 scheme,
                     Subject_Absent subject16 shard model_version,
                     Weights weights16 code_digest]))))))))))))))"

text \<open>The exit code of the command: the manifest file, the key file.\<close>

definition cli_main :: "(bytes \<Rightarrow> bytes \<Rightarrow> bytes \<Rightarrow> bool) \<Rightarrow> string \<Rightarrow> string \<Rightarrow> int res" where
  "cli_main ed_verify manifest_text key_file =
     bind_res (loads manifest_text) (\<lambda>manifest.
     bind_res (load_public_key key_file) (\<lambda>public_key.
     bind_res (verify_certificate ed_verify manifest public_key) (\<lambda>(ok, findings).
     Inr (if ok then 0 else 1))))"

section \<open>Soundness of the dispatch\<close>

text \<open>
  A root published by one scheme is never accepted by the verifier of the other without
  a collision: the inputs of the two outermost hashes start with different bytes.
\<close>

lemma spec_root_0:
  "spec_root 0 ks = sha256 (tree_input [] ks 0)"
  using spec_root_input [of 0 "[]" ks] by (simp add: DEPTH_def)

lemma path_node_0: "path_node target s 0 = sha256 (climb_input target s 0)"
  by (rule path_node_input) (simp add: DEPTH_def)

lemma hd_tree_input: "hd (tree_input target ks d) = 1"
  by (simp add: tree_input_def Let_def)

lemma hd_climb_input: "hd (climb_input target s d) = 1"
  by (simp add: climb_input_def)

lemma hd_commit_input: "hd (commit_input n h) = 2"
  by (simp add: commit_input_def)

text \<open>The outermost input hashed for one entry of a legacy proof.\<close>

definition entry_commit :: "nat \<Rightarrow> pyval \<Rightarrow> bytes list" where
  "entry_commit tree_size entry =
     (case parse_entry entry of
        Inr (leaf, path, index) \<Rightarrow>
          (case int_of_val index of
             Some i \<Rightarrow> (case reconstruct_root leaf i tree_size path of
                          Some node \<Rightarrow> [commit_input tree_size node] | None \<Rightarrow> [])
           | None \<Rightarrow> [])
      | Inl _ \<Rightarrow> [])"

definition legacy_commits :: "string \<Rightarrow> pyval \<Rightarrow> bytes list" where
  "legacy_commits r pf =
     commit_input 0 (sha256 []) #
     (case parse_absence (PStr r) pf of
        Inr (_, sz, pred, succ) \<Rightarrow>
          (case int_of_val sz of
             Some n \<Rightarrow> entry_commit (nat n) pred @ entry_commit (nat n) succ | None \<Rightarrow> [])
      | Inl _ \<Rightarrow> [])"

lemma check_commit:
  assumes "check tree_size (PStr root) entry = Inr (Some leaf)"
  shows "\<exists>x\<in>set (entry_commit tree_size entry). hd x = 2 \<and> root = to_hex (sha256 x)"
proof -
  obtain path v i where p: "parse_entry entry = Inr (leaf, path, v)" "int_of_val v = Some i"
      "verify_audit_path leaf i tree_size path (PStr root) = Inr True"
    using assms by (auto simp: check_eq res_simps split: sum.splits option.splits if_splits)
  from p(3) obtain node where "reconstruct_root leaf i tree_size path = Some node"
      "commit tree_size node = Inr root"
    by (auto simp: verify_audit_path_def res_simps split: option.splits)
  with p show ?thesis by (auto simp: entry_commit_def commit_eq hd_commit_input split: if_splits)
qed

lemma legacy_accepts_commit:
  assumes "merkle_verify_absence (PStr r) pf (PStr root) = Inr True"
  shows "\<exists>x\<in>set (legacy_commits r pf). hd x = 2 \<and> root = to_hex (sha256 x)"
proof -
  obtain target sz pred succ where p: "parse_absence (PStr r) pf = Inr (target, sz, pred, succ)"
    using assms by (cases "parse_absence (PStr r) pf")
      (auto simp: merkle_verify_absence_def catch_as_def split: if_splits)
  with assms obtain n where n: "int_of_val sz = Some n" "0 \<le> n"
    by (auto simp: merkle_verify_absence_def catch_as_def split: option.splits if_splits)
  show ?thesis
  proof (cases "n = 0")
    case True
    with assms p n have "root = EMPTY_ROOT" by (simp add: merkle_verify_absence_def catch_as_def)
    then show ?thesis by (auto simp: legacy_commits_def EMPTY_ROOT_eq hd_commit_input)
  next
    case False
    with assms p n have "brackets target (nat n) pred succ (PStr root) = Inr True"
      by (auto simp: merkle_verify_absence_def catch_as_def)
    then obtain e l where "e = pred \<or> e = succ" "check (nat n) (PStr root) e = Inr (Some l)"
      by (auto simp: brackets_def res_simps split: if_splits option.splits)
    with check_commit [of "nat n" root e l] show ?thesis by (auto simp: legacy_commits_def p n)
  qed
qed

definition smt_commits :: "string \<Rightarrow> pyval \<Rightarrow> bytes list" where
  "smt_commits r pf =
     (case smt_parse_proof (PStr r) pf of Inr (Some (target, s)) \<Rightarrow> [climb_input target s 0] | _ \<Rightarrow> [])"

lemma smt_accepts_commit:
  assumes "verify_absence (PStr r) pf (PStr root) = Inr True"
  shows "\<exists>x\<in>set (smt_commits r pf). hd x = 1 \<and> root = to_hex (sha256 x)"
proof -
  from assms obtain target s where "smt_parse_proof (PStr r) pf = Inr (Some (target, s))"
      "to_hex (path_node target s 0) = root"
    by (auto simp: verify_absence_eq split: sum.splits option.splits)
  then show ?thesis by (auto simp: smt_commits_def path_node_0 hd_climb_input)
qed

definition certificate_evidence :: "string \<Rightarrow> string list \<Rightarrow> pyval \<Rightarrow> bytes list" where
  "certificate_evidence r refs pf =
     smt_evidence r (ref_keys refs) pf @ tree_input [] (ref_keys refs) 0 # legacy_commits r pf"

definition certificate_accepts :: "pyval \<Rightarrow> pyval \<Rightarrow> pyval \<Rightarrow> bool res" where
  "certificate_accepts subject_ref pf root =
     bind_res (cli_verify_absence subject_ref pf root) (\<lambda>p. Inr (fst p))"

lemma certificate_accepts_eq:
  "certificate_accepts subject_ref pf root =
     (if is_smt pf then verify_absence subject_ref pf root else merkle_verify_absence subject_ref pf root)"
proof -
  have "bind_res (bind_res m (\<lambda>b. Inr (b, s))) (\<lambda>p. Inr (fst p)) = m" for m :: "bool res" and s :: string
    by (cases m) auto
  then show ?thesis by (simp add: certificate_accepts_def cli_verify_absence_def)
qed

lemma is_smt_proof [simp]: "is_smt (proof_of_siblings sibs)"
  by (simp add: is_smt_def proof_of_siblings_def)

lemma smt_prove_is_smt: "smt_prove t r = Inr pf \<Longrightarrow> is_smt pf"
  by (auto simp: smt_prove_def res_simps split: if_splits)

lemma build_root_input:
  "list_all valid_ref refs \<Longrightarrow> build_root refs = Inr root
    \<Longrightarrow> root = to_hex (sha256 (tree_input [] (ref_keys refs) 0))"
  using build_root_spec [of refs] by (simp add: spec_root_0)

text \<open>The dispatching verifier is an absence scheme for the roots that rebuilds publish.\<close>

interpretation certificate: absence_scheme build_root prove_absence certificate_accepts certificate_evidence
proof
  fix refs root r pf
  assume refs: "list_all valid_ref refs" and r: "valid_ref r"
  {
    assume root: "build_root refs = Inr root"
    show "\<exists>pf. prove_absence r refs = Inr pf \<and> certificate_accepts (PStr r) pf (PStr root) = Inr True"
      if absent: "key_of r \<notin> key_of ` set refs"
    proof -
      obtain pf where pf: "prove_absence r refs = Inr pf" "verify_absence (PStr r) pf (PStr root) = Inr True"
        using sparse.complete [OF root refs r absent] by blast
      then obtain t where "smt_prove t r = Inr pf" by (auto simp: prove_absence_def res_simps)
      with pf show ?thesis by (auto simp: certificate_accepts_eq smt_prove_is_smt)
    qed
    show "collision_in (certificate_evidence r refs pf)"
      if "key_of r \<in> key_of ` set refs" "certificate_accepts (PStr r) pf (PStr root) = Inr True"
    proof (cases "is_smt pf")
      case True
      with that have "collision_in (smt_evidence r (ref_keys refs) pf)"
        using sparse.sound [OF root refs r] by (simp add: certificate_accepts_eq)
      then show ?thesis by (rule collision_in_mono) (auto simp: certificate_evidence_def)
    next
      case False
      with that obtain x where x: "x \<in> set (legacy_commits r pf)" "hd x = 2" "root = to_hex (sha256 x)"
        using legacy_accepts_commit [of r pf root] by (auto simp: certificate_accepts_eq)
      show ?thesis
      proof (rule collision_inI [of x _ "tree_input [] (ref_keys refs) 0"])
        show "x \<noteq> tree_input [] (ref_keys refs) 0" using x(2) hd_tree_input [of "[]" "ref_keys refs" 0] by auto
        show "sha256 x = sha256 (tree_input [] (ref_keys refs) 0)"
          using x(3) build_root_input [OF refs root] by simp
      qed (use x(1) in \<open>auto simp: certificate_evidence_def\<close>)
    qed
  }
  show "prove_absence r refs = Inl ValueError" if "key_of r \<in> key_of ` set refs"
    by (rule sparse.refuses [OF refs r that])
qed

section \<open>Accepted certificates\<close>

lemma verify_certificate_accepts:
  assumes "verify_certificate ed_verify manifest pk = Inr (True, fs)"
  obtains d where "manifest = PDict d"
    "signature_ok ed_verify pk (PDict (filter (\<lambda>p. fst p \<noteq> KStr ''signature'') d))
       (case map_of d (KStr ''signature'') of Some v \<Rightarrow> v | None \<Rightarrow> PNone)"
    "\<And>subject pf root. getitem manifest ''subject_ref'' = Inr subject
       \<Longrightarrow> getitem manifest ''absence_proof'' = Inr pf \<Longrightarrow> getitem manifest ''dataset_root'' = Inr root
       \<Longrightarrow> certificate_accepts subject pf root = Inr True"
proof -
  from assms obtain d where d: "manifest = PDict d"
    by (cases manifest) (auto simp: verify_certificate_def res_simps split: if_splits)
  have get: "getitem (PDict (filter (\<lambda>p. fst p \<noteq> KStr ''signature'') d)) k = getitem (PDict d) k"
    if "k \<noteq> ''signature''" for k
  proof -
    have "map_of (filter (\<lambda>p. fst p \<noteq> KStr ''signature'') d) (KStr k) = map_of d (KStr k)"
      using that by (induction d) auto
    then show ?thesis by simp
  qed
  let ?body = "PDict (filter (\<lambda>p. fst p \<noteq> KStr ''signature'') d)"
  let ?sig = "case map_of d (KStr ''signature'') of Some v \<Rightarrow> v | None \<Rightarrow> PNone"
  from assms have sig: "signature_ok ed_verify pk ?body ?sig"
    by (auto simp: verify_certificate_def d res_simps simp del: getitem.simps split: if_splits)
  have "certificate_accepts subject pf root = Inr True"
    if "getitem manifest ''subject_ref'' = Inr subject" "getitem manifest ''absence_proof'' = Inr pf"
      "getitem manifest ''dataset_root'' = Inr root" for subject pf root
  proof -
    have "getitem ?body ''subject_ref'' = Inr subject" "getitem ?body ''absence_proof'' = Inr pf"
      "getitem ?body ''dataset_root'' = Inr root"
      using that by (simp_all add: get d del: getitem.simps)
    with assms show ?thesis
      by (auto simp: verify_certificate_def d res_simps certificate_accepts_def simp del: getitem.simps
          split: if_splits)
  qed
  with d sig show thesis by (rule that)
qed

lemma accepted_certificate_absent:
  assumes "verify_certificate ed_verify manifest pk = Inr (True, fs)"
    and "getitem manifest ''subject_ref'' = Inr (PStr r)" "getitem manifest ''dataset_root'' = Inr (PStr root)"
    and "getitem manifest ''absence_proof'' = Inr pf"
    and "build_root refs = Inr root" "list_all valid_ref refs" "valid_ref r"
  shows "key_of r \<notin> key_of ` set refs \<or> collision_in (certificate_evidence r refs pf)"
proof -
  obtain d where "certificate_accepts (PStr r) pf (PStr root) = Inr True"
    using verify_certificate_accepts [OF assms(1)] assms(2-4) by metis
  with certificate.verified_absent [OF assms(5,6,7)] show ?thesis by blast
qed

section \<open>The trip of a certificate through JSON\<close>

definition str_dict :: "(pykey \<times> pyval) list \<Rightarrow> bool" where
  "str_dict d \<longleftrightarrow> distinct (map fst d) \<and> list_all (\<lambda>p. \<not> is_int_key (fst p)) d"

lemma str_dict_key: "str_dict d \<Longrightarrow> p \<in> set d \<Longrightarrow> KStr (key_text (fst p)) = fst p"
  by (cases "fst p") (auto simp: str_dict_def list_all_iff)

lemma str_dict_reload:
  "str_dict d \<Longrightarrow> reload (PDict d) = PDict (map (\<lambda>p. (fst p, reload (snd p))) (sort_key fst d))"
  by (simp add: str_dict_key)

lemma map_of_str_reload:
  assumes "str_dict d"
  shows "map_of (map (\<lambda>p. (fst p, reload (snd p))) (sort_key fst d)) k = map_option reload (map_of d k)"
proof -
  have d: "distinct (map fst d)" using assms by (simp add: str_dict_def)
  then have "distinct (map fst (sort_key fst d))" by (metis distinct_map distinct_sort set_sort)
  with d have "map_of (sort_key fst d) = map_of d" by (subst map_of_inject_set) simp_all
  moreover have "map_of (map (\<lambda>p. (fst p, reload (snd p))) xs) k = map_option reload (map_of xs k)" for xs
    by (induction xs) auto
  ultimately show ?thesis by simp
qed

lemma getitem_reload: "str_dict d \<Longrightarrow> getitem (PDict d) k = Inr v \<Longrightarrow> getitem (reload (PDict d)) k = Inr (reload v)"
  by (auto simp: str_dict_reload map_of_str_reload simp del: reload.simps split: option.splits)

lemma get_default_reload:
  "str_dict d \<Longrightarrow> get_default (PDict d) k dflt = Inr v \<Longrightarrow> map_of d (KStr k) \<noteq> None
    \<Longrightarrow> get_default (reload (PDict d)) k dflt = Inr (reload v)"
  by (auto simp: str_dict_reload map_of_str_reload simp del: reload.simps)

lemma missing_fields_reload:
  assumes "str_dict d"
  shows "missing_fields (reload (PDict d)) = missing_fields (PDict d)"
proof -
  have "contains (reload (PDict d)) f = contains (PDict d) f" for f
    unfolding str_dict_reload [OF assms] by (simp add: image_image)
  then show ?thesis by (simp add: missing_fields_def)
qed

lemma filter_reload:
  assumes "str_dict d"
  shows "PDict (filter (\<lambda>p. fst p \<noteq> k) (map (\<lambda>p. (fst p, reload (snd p))) (sort_key fst d)))
    = reload (PDict (filter (\<lambda>p. fst p \<noteq> k) d))"
proof -
  have "str_dict (filter (\<lambda>p. fst p \<noteq> k) d)" using assms by (auto simp: str_dict_def list_all_iff distinct_map_filter)
  then show ?thesis by (simp add: str_dict_reload filter_map comp_def filter_sort del: reload.simps)
qed

subsection \<open>Proofs\<close>

lemma reload_siblings:
  assumes "sorted_wrt (<) (map fst sibs)"
  shows "reload (PDict (map (\<lambda>(i, h). (KInt (int i), PStr h)) sibs))
    = PDict (map (\<lambda>(i, h). (KStr (int_dec (int i)), PStr h)) sibs)"
proof -
  have "sorted (map fst (map (\<lambda>(i, h). (KInt (int i), PStr h)) sibs))"
    using assms by (induction sibs) auto
  from sort_key_sorted [OF this] show ?thesis by (simp add: case_prod_beta)
qed

lemma parse_siblings_text:
  "fold_res parse_sibling (map (\<lambda>(i, h). (KStr (int_dec (int i)), PStr h)) sibs) acc
   = fold_res parse_sibling (map (\<lambda>(i, h). (KInt (int i), PStr h)) sibs) acc"
proof -
  have "parse_sibling (KStr (int_dec i), v) = parse_sibling (KInt i, v)" for i v
    by (simp add: parse_sibling_def fun_eq_iff)
  then show ?thesis by (induction sibs arbitrary: acc) (auto simp: case_prod_beta intro: bind_res_cong)
qed

lemma str_dict_proof:
  "str_dict [(KStr ''scheme'', PStr ''smt-256''), (KStr ''siblings'', v)]"
  by (simp add: str_dict_def)

lemma smt_parse_reload:
  assumes "sorted_wrt (<) (map fst sibs)"
  shows "smt_parse_proof r (reload (proof_of_siblings sibs)) = smt_parse_proof r (proof_of_siblings sibs)"
    and "is_smt (reload (proof_of_siblings sibs))"
proof -
  let ?raw = "PDict (map (\<lambda>(i, h). (KInt (int i), PStr h)) sibs)"
  let ?pf = "PDict [(KStr ''scheme'', PStr ''smt-256''), (KStr ''siblings'', ?raw)]"
  have 1: "get_default (reload ?pf) ''scheme'' PNone = Inr (PStr ''smt-256'')"
    using get_default_reload [OF str_dict_proof, of ?raw "''scheme''" PNone "PStr ''smt-256''"] by simp
  have 2: "getitem (reload ?pf) ''siblings'' = Inr (PDict (map (\<lambda>(i, h). (KStr (int_dec (int i)), PStr h)) sibs))"
    using getitem_reload [OF str_dict_proof, of ?raw "''siblings''" ?raw] reload_siblings [OF assms] by simp
  show "smt_parse_proof r (reload (proof_of_siblings sibs)) = smt_parse_proof r (proof_of_siblings sibs)"
    unfolding smt_parse_proof_def proof_of_siblings_def 1 2
    by (intro bind_res_cong refl) (simp add: parse_siblings_text)
  obtain d where "reload ?pf = PDict d" by simp
  with 1 show "is_smt (reload (proof_of_siblings sibs))"
    unfolding proof_of_siblings_def by (auto simp: is_smt_def split: option.splits)
qed

lemma certificate_accepts_reload:
  assumes "sorted_wrt (<) (map fst sibs)"
  shows "certificate_accepts r (reload (proof_of_siblings sibs)) root = certificate_accepts r (proof_of_siblings sibs) root"
  using smt_parse_reload [OF assms] by (simp add: certificate_accepts_eq verify_absence_def)

definition depth_texts :: "(nat \<times> string) list \<Rightarrow> string list" where
  "depth_texts sibs = map (\<lambda>p. int_dec (int (fst p))) sibs"

lemma stable_proof:
  assumes "sorted_wrt (<) (map fst sibs)"
  shows "stable (proof_of_siblings sibs) \<longleftrightarrow> sorted (depth_texts sibs)"
proof -
  have "sorted (map fst (map (\<lambda>(i, h). (KInt (int i), PStr h)) sibs))"
    using assms by (induction sibs) auto
  from sort_key_sorted [OF this]
  have "stable (PDict (map (\<lambda>(i, h). (KInt (int i), PStr h)) sibs)) \<longleftrightarrow> sorted (depth_texts sibs)"
    by (simp add: case_prod_beta comp_def depth_texts_def list_all_iff)
  moreover have "sorted (map (\<lambda>p. key_text (fst p)) (sort_key fst [(KStr ''scheme'', PStr ''smt-256''), (KStr ''siblings'', v)]))" for v
    by (rule sorted_str_texts) simp
  ultimately show ?thesis unfolding proof_of_siblings_def stable.simps by simp
qed

lemma wf_proof: "sorted_wrt (<) (map fst sibs) \<Longrightarrow> wf_val (proof_of_siblings sibs)"
proof -
  assume "sorted_wrt (<) (map fst sibs)"
  then have "distinct (map (\<lambda>p. KInt (int (fst p))) sibs)" by (induction sibs) auto
  then show ?thesis by (auto simp: proof_of_siblings_def comp_def case_prod_beta list_all_iff)
qed

subsection \<open>Canonical bytes\<close>

lemma encode_ascii_inject [simp]: "encode_ascii s = encode_ascii t \<longleftrightarrow> s = t"
proof -
  have "inj (\<lambda>c. word_of_nat (of_char c) :: byte)"
  proof (rule injI)
    fix c d :: char
    assume "(word_of_nat (of_char c) :: byte) = word_of_nat (of_char d)"
    then have "unat (word_of_nat (of_char c) :: byte) = unat (word_of_nat (of_char d) :: byte)" by simp
    then have "(of_char c :: nat) = of_char d" by (simp add: unat_of_nat)
    then show "c = d" by simp
  qed
  then show ?thesis by (simp add: encode_ascii_def inj_map_eq_map)
qed

lemma canonical_bytes_eq:
  "canonical_bytes v = Inr b \<longleftrightarrow> missing_fields v = Inr [] \<and> (\<exists>s. dumps v = Inr s \<and> b = encode_ascii s)"
  by (auto simp: canonical_bytes_def res_simps)

lemma canonical_bytes_inj:
  "wf_val v \<Longrightarrow> wf_val w \<Longrightarrow> canonical_bytes v = Inr b \<Longrightarrow> canonical_bytes w = Inr b \<Longrightarrow> reload v = reload w"
  by (auto simp: canonical_bytes_eq dest: dumps_inj)

lemma canonical_reload:
  assumes "str_dict d" "wf_val (PDict d)" "canonical_bytes (PDict d) = Inr b"
  shows "canonical_bytes (reload (PDict d)) = Inr b \<longleftrightarrow> stable (PDict d)"
proof -
  obtain s where s: "missing_fields (PDict d) = Inr []" "dumps (PDict d) = Inr s" "b = encode_ascii s"
    using assms(3) canonical_bytes_eq by auto
  show ?thesis
    unfolding canonical_bytes_eq missing_fields_reload [OF assms(1)] s(1,3)
    using reload_canonical_iff [OF assms(2) s(2)] by auto
qed

section \<open>Issued certificates\<close>

text \<open>
  What a rebuild hands out: the manifest of \<open>manifest_build\<close>, its signature added as
  \<open>m["signature"]\<close>.
\<close>

definition add_signature :: "(pykey \<times> pyval) list \<Rightarrow> string \<Rightarrow> (pykey \<times> pyval) list" where
  "add_signature m sig = dict_set (KStr ''signature'') (PStr sig) m"

lemma manifest_keys:
  "map fst (manifest_build r k rf root pf cd cfg rw mv pa ca) = map KStr REQUIRED_FIELDS"
  by (simp add: manifest_build_def REQUIRED_FIELDS_def)

lemma str_dict_manifest: "str_dict (manifest_build r k rf root pf cd cfg rw mv pa ca)"
  by (simp add: str_dict_def manifest_build_def)

lemma add_signature_manifest:
  "add_signature (manifest_build r k rf root pf cd cfg rw mv pa ca) sig =
     manifest_build r k rf root pf cd cfg rw mv pa ca @ [(KStr ''signature'', PStr sig)]"
  unfolding add_signature_def by (rule dict_set_new) (simp add: manifest_build_def)

lemma manifest_fields:
  "getitem (PDict (manifest_build r k rf root pf cd cfg rw mv pa ca @ xs)) ''subject_ref'' = Inr (PStr r)"
  "getitem (PDict (manifest_build r k rf root pf cd cfg rw mv pa ca @ xs)) ''dataset_root'' = Inr (PStr root)"
  "getitem (PDict (manifest_build r k rf root pf cd cfg rw mv pa ca @ xs)) ''absence_proof'' = Inr pf"
  "getitem (PDict (manifest_build r k rf root pf cd cfg rw mv pa ca @ xs)) ''shard'' = Inr (PInt (int k))"
  "getitem (PDict (manifest_build r k rf root pf cd cfg rw mv pa ca @ xs)) ''model_version'' = Inr (PStr mv)"
  "getitem (PDict (manifest_build r k rf root pf cd cfg rw mv pa ca @ xs)) ''result_weights'' = Inr (PStr rw)"
  "getitem (PDict (manifest_build r k rf root pf cd cfg rw mv pa ca @ xs)) ''code_digest'' = Inr (PStr cd)"
  by (simp_all add: manifest_build_def)

lemma missing_manifest:
  "missing_fields (PDict (manifest_build r k rf root pf cd cfg rw mv pa ca @ xs)) = Inr []"
  unfolding missing_fields_def
  by (subst filter_res_Inr [where q = "\<lambda>_. False"]) (auto simp: REQUIRED_FIELDS_def manifest_build_def)

lemma filter_signature:
  "filter (\<lambda>p. fst p \<noteq> KStr ''signature'') (manifest_build r k rf root pf cd cfg rw mv pa ca @ [(KStr ''signature'', v)])
    = manifest_build r k rf root pf cd cfg rw mv pa ca"
  by (simp add: manifest_build_def)

text \<open>A manifest whose proof is \<open>pf\<close> and whose other values are text and a number.\<close>

lemma stable_manifest:
  "stable (PDict (manifest_build r k rf root pf cd cfg rw mv pa ca)) \<longleftrightarrow> stable pf"
  using sorted_str_texts [of "manifest_build r k rf root pf cd cfg rw mv pa ca"] str_dict_manifest
  unfolding stable.simps str_dict_def by (simp add: manifest_build_def)

lemma wf_manifest:
  "wf_val (PDict (manifest_build r k rf root pf cd cfg rw mv pa ca)) \<longleftrightarrow> wf_val pf"
  by (simp add: manifest_build_def)

lemma verify_certificate_ok:
  assumes "missing_fields (PDict d) = Inr []" "map_of d (KStr ''signature'') = Some (PStr sg)" "sg \<noteq> []"
    and "signature_ok ed_verify pk (PDict b) (PStr sg)"
    and "b = filter (\<lambda>p. fst p \<noteq> KStr ''signature'') d"
    and "getitem (PDict b) ''subject_ref'' = Inr (PStr r)" "getitem (PDict b) ''dataset_root'' = Inr (PStr root)"
    and "getitem (PDict b) ''absence_proof'' = Inr pf" "certificate_accepts (PStr r) pf (PStr root) = Inr True"
    and "getitem (PDict b) ''shard'' = Inr v1" "getitem (PDict b) ''model_version'' = Inr v2"
    and "getitem (PDict b) ''result_weights'' = Inr (PStr rw)" "getitem (PDict b) ''code_digest'' = Inr v3"
  shows "\<exists>fs. verify_certificate ed_verify (PDict d) pk = Inr (True, fs)"
proof -
  obtain sch where "cli_verify_absence (PStr r) pf (PStr root) = Inr (True, sch)"
    using assms(9) by (auto simp: certificate_accepts_def res_simps)
  then show ?thesis
    unfolding verify_certificate_def assms(1) using assms(2-4,6-8,10-13) unfolding assms(5)
    by (simp del: getitem.simps)
qed

lemma signature_ok_eq:
  "canonical_bytes body = Inr b \<Longrightarrow> signature_ok ed_verify pk body (PStr (to_hex sg)) = ed_verify pk b sg"
  by (simp add: signature_ok_def)

lemma sign_manifest_eq:
  "sign_manifest ed_sign seed m = Inr sig \<longleftrightarrow>
     (\<exists>key b. signing_key seed = Inr key \<and> canonical_bytes m = Inr b \<and> sig = to_hex (ed_sign key b))"
  by (auto simp: sign_manifest_def res_simps)

lemma to_hex_eq_Nil [simp]: "to_hex x = [] \<longleftrightarrow> x = []"
  using to_hex_inject [of x "[]"] by simp

text \<open>The certificate as the auditor reads it: same fields, \<open>reload\<close>ed.\<close>

lemma reloaded_certificate:
  assumes m: "m = manifest_build r k rf root pf cd cfg rw mv pa ca"
    and sig: "canonical_bytes (PDict m) = Inr b" "sg \<noteq> []"
    and pf: "pf = proof_of_siblings sibs" "sorted_wrt (<) (map fst sibs)"
    and acc: "certificate_accepts (PStr r) pf (PStr root) = Inr True"
    and b2: "canonical_bytes (reload (PDict m)) = Inr b2"
  shows "(\<exists>fs. verify_certificate ed_verify (reload (PDict (add_signature m (to_hex sg)))) pk = Inr (True, fs))
           \<longleftrightarrow> ed_verify pk b2 sg"
proof -
  let ?c = "m @ [(KStr ''signature'', PStr (to_hex sg))]"
  have sd: "str_dict ?c" "str_dict m" using m by (simp_all add: str_dict_def manifest_build_def)
  let ?d = "map (\<lambda>p. (fst p, reload (snd p))) (sort_key fst ?c)"
  let ?b = "filter (\<lambda>p. fst p \<noteq> KStr ''signature'') ?d"
  have cert: "reload (PDict (add_signature m (to_hex sg))) = PDict ?d"
    using str_dict_reload [OF sd(1)] m by (simp only: add_signature_manifest)
  have body: "PDict ?b = reload (PDict m)"
    using filter_reload [OF sd(1), of "KStr ''signature''"] unfolding m filter_signature by simp
  have missing: "missing_fields (PDict ?d) = Inr []"
    unfolding str_dict_reload [OF sd(1), symmetric] missing_fields_reload [OF sd(1)] unfolding m
    by (rule missing_manifest)
  have signature: "map_of ?d (KStr ''signature'') = Some (PStr (to_hex sg))"
    using map_of_str_reload [OF sd(1), of "KStr ''signature''"] m by (simp add: manifest_build_def)
  have ok: "signature_ok ed_verify pk (PDict ?b) (PStr (to_hex sg)) \<longleftrightarrow> ed_verify pk b2 sg"
    unfolding body by (rule signature_ok_eq [OF b2])
  have get: "getitem (PDict m) f = Inr v \<Longrightarrow> getitem (PDict ?b) f = Inr (reload v)" for f v
    unfolding body by (rule getitem_reload [OF sd(2)])
  note fields = manifest_fields [where xs = "[]", of r k rf root pf cd cfg rw mv pa ca, simplified append_Nil2 m [symmetric]]
  note f = fields [THEN get]
  show ?thesis
  proof
    assume "ed_verify pk b2 sg"
    moreover have "certificate_accepts (PStr r) (reload pf) (PStr root) = Inr True"
      using acc certificate_accepts_reload [OF pf(2)] pf(1) by simp
    ultimately show "\<exists>fs. verify_certificate ed_verify (reload (PDict (add_signature m (to_hex sg)))) pk = Inr (True, fs)"
      unfolding cert using f sig(2) ok
      by (intro verify_certificate_ok [OF missing signature _ _ refl]) (simp_all del: getitem.simps)
  next
    assume "\<exists>fs. verify_certificate ed_verify (reload (PDict (add_signature m (to_hex sg)))) pk = Inr (True, fs)"
    then obtain fs where "verify_certificate ed_verify (PDict ?d) pk = Inr (True, fs)" unfolding cert by blast
    then obtain d where "PDict ?d = PDict d" "signature_ok ed_verify pk (PDict (filter (\<lambda>p. fst p \<noteq> KStr ''signature'') d))
       (case map_of d (KStr ''signature'') of Some v \<Rightarrow> v | None \<Rightarrow> PNone)"
      by (rule verify_certificate_accepts)
    then show "ed_verify pk b2 sg" using ok signature by simp
  qed
qed

lemma reload_dumps_ok: "wf_val v \<Longrightarrow> dumps v = Inr s \<Longrightarrow> \<exists>t. dumps (reload v) = Inr t"
proof (induction v arbitrary: s rule: wf_val.induct)
  case (5 vs)
  then have "\<exists>ts. map_res dumps (map reload vs) = Inr ts" 
  proof (induction vs arbitrary: s)
    case (Cons v vs)
    then show ?case by (fastforce simp: res_simps)
  qed simp
  then show ?case by auto
next
  case (6 d)
  then obtain ss where ss: "\<not> mixed_keys d" "map_res item_text (sort_key fst d) = Inr ss"
    by (auto simp: res_simps dumps_dict simp del: dumps.simps split: if_splits)
  let ?L = "map (\<lambda>p. (KStr (key_text (fst p)), reload (snd p))) (sort_key fst d)"
  have "\<exists>t. item_text q = Inr t" if "q \<in> set (sort_key fst ?L)" for q
  proof -
    from that obtain p where p: "p \<in> set d" "q = (KStr (key_text (fst p)), reload (snd p))" by auto
    with map_res_set [OF ss(2), of p] obtain t where "dumps (snd p) = Inr t" by (auto simp: item_text_def res_simps)
    with 6(1) [OF p(1)] 6(2) p obtain u where "dumps (reload (snd p)) = Inr u" by (auto simp: list_all_iff)
    with p(2) show ?thesis by (simp add: item_text_def)
  qed
  then have "\<exists>us. map_res item_text (sort_key fst ?L) = Inr us"
    using map_res_Inr [of "sort_key fst ?L" item_text "\<lambda>q. projr (item_text q)"] by force
  then show ?case by (auto simp: dumps_dict simp del: dumps.simps)
qed simp_all

lemma dumps_dict_ok:
  assumes "\<not> mixed_keys d" "\<And>p. p \<in> set d \<Longrightarrow> \<exists>s. dumps (snd p) = Inr s"
  shows "\<exists>s. dumps (PDict d) = Inr s"
proof -
  have "\<exists>t. item_text p = Inr t" if "p \<in> set (sort_key fst d)" for p
    using assms(2) [of p] that by (auto simp: item_text_def)
  then have "\<exists>us. map_res item_text (sort_key fst d) = Inr us"
    using map_res_Inr [of "sort_key fst d" item_text "\<lambda>q. projr (item_text q)"] by force
  with assms(1) show ?thesis by (auto simp: dumps_dict simp del: dumps.simps)
qed

lemma dumps_proof_ok: "\<exists>s. dumps (proof_of_siblings sibs) = Inr s"
  unfolding proof_of_siblings_def
proof (rule dumps_dict_ok)
  have "\<exists>s. dumps (PDict (map (\<lambda>(i, h). (KInt (int i), PStr h)) sibs)) = Inr s"
    by (rule dumps_dict_ok) (auto simp: mixed_keys_def)
  then show "\<exists>s. dumps (snd p) = Inr s"
    if "p \<in> set [(KStr ''scheme'', PStr ''smt-256''), (KStr ''siblings'', PDict (map (\<lambda>(i, h). (KInt (int i), PStr h)) sibs))]" for p
    using that by (auto simp del: dumps.simps(6))
qed (simp add: mixed_keys_def)

lemma canonical_manifest_ok:
  "\<exists>b. canonical_bytes (PDict (manifest_build r k rf root (proof_of_siblings sibs) cd cfg rw mv pa ca)) = Inr b"
proof -
  let ?m = "manifest_build r k rf root (proof_of_siblings sibs) cd cfg rw mv pa ca"
  have "\<exists>s. dumps (PDict ?m) = Inr s"
  proof (rule dumps_dict_ok)
    show "\<not> mixed_keys ?m" using str_dict_manifest by (auto simp: mixed_keys_def str_dict_def list_all_iff)
    show "\<exists>s. dumps (snd p) = Inr s" if "p \<in> set ?m" for p
      using that dumps_proof_ok by (auto simp: manifest_build_def)
  qed
  with missing_manifest [where xs = "[]"] show ?thesis by (auto simp: canonical_bytes_eq)
qed

lemma dumps_certificate_ok:
  "\<exists>s. dumps (PDict (add_signature (manifest_build r k rf root (proof_of_siblings sibs) cd cfg rw mv pa ca) sig)) = Inr s"
  unfolding add_signature_manifest
proof (rule dumps_dict_ok)
  let ?m = "manifest_build r k rf root (proof_of_siblings sibs) cd cfg rw mv pa ca @ [(KStr ''signature'', PStr sig)]"
  show "\<not> mixed_keys ?m" by (auto simp: mixed_keys_def manifest_build_def)
  show "\<exists>s. dumps (snd p) = Inr s" if "p \<in> set ?m" for p
    using that dumps_proof_ok by (auto simp: manifest_build_def)
qed

lemma wf_certificate:
  "wf_val (PDict (add_signature (manifest_build r k rf root pf cd cfg rw mv pa ca) sig)) \<longleftrightarrow> wf_val pf"
  unfolding add_signature_manifest by (simp add: manifest_build_def)

lemma hex_not_space: "c \<in> set (to_hex bs) \<Longrightarrow> \<not> is_space c"
  by (induction bs) (auto simp: to_hex_Cons unat_byte_div)

lemma load_public_key_hex: "length k = 32 \<Longrightarrow> load_public_key (to_hex k) = Inr k"
  using strip_ws_id [OF hex_not_space] by (simp add: load_public_key_def)

lemma strip_newline: "(\<And>c. c \<in> set s \<Longrightarrow> \<not> is_space c) \<Longrightarrow> strip_ws (s @ [CHR 0x0A]) = s"
proof -
  assume s: "\<And>c. c \<in> set s \<Longrightarrow> \<not> is_space c"
  have nl: "is_space (CHR 0x0A)" by (simp add: is_space_def)
  have id: "dropWhile is_space xs = xs" if "set xs \<subseteq> set s" for xs
    using that s by (cases xs) auto
  show "strip_ws (s @ [CHR 0x0A]) = s"
  proof (cases s)
    case Nil
    with nl show ?thesis by (simp add: strip_ws_def)
  next
    case (Cons c t)
    then have "dropWhile is_space (s @ [CHR 0x0A]) = s @ [CHR 0x0A]" using s by simp
    then show ?thesis using id [of "rev s"] nl by (simp add: strip_ws_def)
  qed
qed

lemma signing_key_hex: "length k = 32 \<Longrightarrow> signing_key (Some (to_hex k)) = Inr k"
  by (auto simp: signing_key_def)

lemma generated_key_usable:
  assumes "length seed = 32" "length (ed_public seed) = 32" "generate_dev_key ed_public seed = (public_text, private_text)"
  shows "load_public_key public_text = Inr (ed_public seed) \<and> signing_key (Some private_text) = Inr seed"
  using assms strip_newline [OF hex_not_space] by (auto simp: generate_dev_key_def load_public_key_def signing_key_hex)
lemma issued_accepts:
  assumes "tree_ok t" "valid_ref r" "smt_prove t r = Inr pf"
  shows "certificate_accepts (PStr r) pf (PStr (smt_root t)) = Inr True"
proof -
  have "key_of r \<notin> set (tree_keys t)"
    using smt_prove_present [OF assms(1,2)] assms(3) by auto
  from smt_prove_verifies [OF assms(1,2) this] assms(3) smt_prove_is_smt [OF assms(3)]
  show ?thesis by (auto simp: certificate_accepts_eq)
qed

lemma direct_certificate:
  assumes m: "m = manifest_build r k rf root pf cd cfg rw mv pa ca"
    and acc: "certificate_accepts (PStr r) pf (PStr root) = Inr True"
    and sig: "canonical_bytes (PDict m) = Inr b" "ed_verify pk b sg" "sg \<noteq> []"
  shows "\<exists>fs. verify_certificate ed_verify (PDict (m @ [(KStr ''signature'', PStr (to_hex sg))])) pk = Inr (True, fs)"
proof -
  let ?d = "m @ [(KStr ''signature'', PStr (to_hex sg))]"
  have filter: "m = filter (\<lambda>p. fst p \<noteq> KStr ''signature'') ?d" unfolding m filter_signature ..
  note f = manifest_fields [where xs = "[]", of r k rf root pf cd cfg rw mv pa ca,
      simplified append_Nil2 m [symmetric]]
  show ?thesis
  proof (rule verify_certificate_ok [OF _ _ _ _ filter f(1,2,3) acc f(4,5,6,7)])
    show "missing_fields (PDict ?d) = Inr []" unfolding m by (rule missing_manifest)
    show "map_of ?d (KStr ''signature'') = Some (PStr (to_hex sg))" unfolding m by (simp add: manifest_build_def)
    show "signature_ok ed_verify pk (PDict m) (PStr (to_hex sg))" using signature_ok_eq [OF sig(1)] sig(2) by simp
  qed (simp add: sig(3))
qed

lemma proof_of_siblings_inject: "proof_of_siblings s = proof_of_siblings s' \<Longrightarrow> s = s'"
proof -
  have inj: "inj (\<lambda>(i, h). (KInt (int i), PStr h))" by (auto simp: inj_on_def)
  show "proof_of_siblings s = proof_of_siblings s' \<Longrightarrow> s = s'"
    by (simp add: proof_of_siblings_def inj_map_eq_map [OF inj])
qed

lemma issued_certificate_accepted:
  assumes t: "tree_ok t" "valid_ref r" "smt_prove t r = Inr pf"
    and m: "m = manifest_build r k rf (smt_root t) pf cd cfg rw mv pa ca"
    and sig: "sign_manifest ed_sign seed (PDict m) = Inr sig" "signing_key seed = Inr key"
    and ed: "\<And>b. ed_verify (ed_public key) b (ed_sign key b)" "\<And>b. ed_sign key b \<noteq> []"
    and stable: "stable pf"
  shows "\<exists>fs. verify_certificate ed_verify (reload (PDict (add_signature m sig))) (ed_public key) = Inr (True, fs)"
proof -
  obtain sibs where pf: "pf = proof_of_siblings sibs" "sorted_wrt (<) (map fst sibs)"
    using smt_prove_shape [OF t] by (auto simp: siblings_ok_def)
  from sig obtain b where b: "canonical_bytes (PDict m) = Inr b" "sig = to_hex (ed_sign key b)"
    by (auto simp: sign_manifest_eq)
  have "wf_val (PDict m)" unfolding m wf_manifest pf(1) by (rule wf_proof [OF pf(2)])
  moreover have "stable (PDict m)" using stable unfolding m stable_manifest .
  moreover have "str_dict m" unfolding m by (rule str_dict_manifest)
  ultimately have "canonical_bytes (reload (PDict m)) = Inr b"
    using canonical_reload b(1) by blast
  from reloaded_certificate [where ed_verify = ed_verify and pk = "ed_public key",
      OF m b(1) ed(2) [of b] pf issued_accepts [OF t] this] ed(1)
  show ?thesis unfolding b(2) by blast
qed

lemma verify_manifest_total: "\<exists>b. verify_manifest ed_verify manifest sig pk = Inr b"
proof -
  have contains: "contains manifest f = Inl e \<Longrightarrow> e = TypeError" for f e by (cases manifest) auto
  have filter: "filter_res (\<lambda>f. bind_res (contains manifest f) (\<lambda>b. Inr (\<not> b))) fs = Inl e \<Longrightarrow> e = TypeError" for fs e
    by (induction fs) (auto simp: res_simps dest: contains)
  have map: "map_res f xs = Inl e \<Longrightarrow> \<exists>x\<in>set xs. f x = Inl e" for f :: "'x \<Rightarrow> 'y res" and xs e
    by (induction xs) (auto simp: res_simps)
  have dumps: "dumps v = Inl e \<Longrightarrow> e = TypeError" for v e
    by (induction v arbitrary: e rule: dumps.induct)
      (auto simp: res_simps split: if_splits dest!: map)
  have "canonical_bytes manifest = Inl e \<Longrightarrow> e = ValueError \<or> e = TypeError" for e
    by (auto simp: canonical_bytes_def missing_fields_def res_simps dest: filter dumps split: if_splits)
  moreover have "fromhex_val sig = Inl e \<Longrightarrow> e = ValueError \<or> e = TypeError" for e by (rule fromhex_val_error)
  ultimately show ?thesis
    by (cases "canonical_bytes manifest"; cases "fromhex_val sig") (auto simp: verify_manifest_def catch_as_def)
qed

section \<open>Properties\<close>

text \<open>
  C6 What an accepted certificate means: the signature verifies over the canonical bytes
  of everything but the signature, and if its root is the one of a set of references,
  the subject is not in that set, whichever of the two proof schemes the certificate
  claims to use, or a SHA-256 collision is exhibited.
\<close>

theorem accepted_certificate_sound:
  assumes "verify_certificate ed_verify (PDict d) pk = Inr (True, fs)"
    and "getitem (PDict d) ''subject_ref'' = Inr (PStr r)" "getitem (PDict d) ''dataset_root'' = Inr (PStr root)"
    and "getitem (PDict d) ''absence_proof'' = Inr pf"
    and "build_root refs = Inr root" "list_all valid_ref refs" "valid_ref r"
  shows "(key_of r \<notin> key_of ` set refs \<or> collision_in (certificate_evidence r refs pf))
     \<and> (\<exists>b sg. canonical_bytes (PDict (filter (\<lambda>p. fst p \<noteq> KStr ''signature'') d)) = Inr b
          \<and> getitem (PDict d) ''signature'' = Inr (PStr sg) \<and> fromhex sg \<noteq> Inl ValueError
          \<and> ed_verify pk b (key_of sg))"
proof -
  let ?sig = "case map_of d (KStr ''signature'') of Some v \<Rightarrow> v | None \<Rightarrow> PNone"
  obtain d' where "PDict d = PDict d'"
    "signature_ok ed_verify pk (PDict (filter (\<lambda>p. fst p \<noteq> KStr ''signature'') d'))
      (case map_of d' (KStr ''signature'') of Some v \<Rightarrow> v | None \<Rightarrow> PNone)"
    by (rule verify_certificate_accepts [OF assms(1)])
  then obtain b sg where "canonical_bytes (PDict (filter (\<lambda>p. fst p \<noteq> KStr ''signature'') d)) = Inr b"
      "fromhex_val ?sig = Inr sg" "ed_verify pk b sg"
    by (auto simp: signature_ok_def res_simps split: sum.splits)
  moreover from this(2) obtain s where "map_of d (KStr ''signature'') = Some (PStr s)" "fromhex s = Inr sg"
    by (cases ?sig) (auto split: option.splits)
  ultimately have "\<exists>b sg. canonical_bytes (PDict (filter (\<lambda>p. fst p \<noteq> KStr ''signature'') d)) = Inr b
          \<and> getitem (PDict d) ''signature'' = Inr (PStr sg) \<and> fromhex sg \<noteq> Inl ValueError
          \<and> ed_verify pk b (key_of sg)"
    by (auto simp: key_of_def)
  with accepted_certificate_absent [OF assms] show ?thesis by blast
qed

theorem accepted_certificate_sound_witness:
  "\<exists>d root fs. verify_certificate (\<lambda>pk b sg. sg = 1 # b) (PDict d) [] = Inr (True, fs)
     \<and> getitem (PDict d) ''dataset_root'' = Inr (PStr root)
     \<and> build_root [to_hex (replicate 32 0)] = Inr root"
proof -
  let ?refs = "[to_hex (replicate 32 0)]" and ?r = "to_hex (replicate 32 1)"
  obtain t where t: "smt_init ?refs = Inr t" "tree_ok t" "tree_keys t = ref_keys ?refs"
    by (rule smt_init_ok [of ?refs]) simp
  have absent: "key_of ?r \<notin> set (tree_keys t)" by (auto simp: t(3) replicate_eq_replicate)
  obtain pf where pf: "smt_prove t ?r = Inr pf" by (rule smt_prove_verifies [OF t(2) _ absent]) auto
  obtain sibs where sibs: "pf = proof_of_siblings sibs" using smt_prove_shape [OF t(2) _ pf] by auto
  define m where "m = manifest_build ?r 0 [] (smt_root t) pf [] [] [] [] [] []"
  obtain b where b: "canonical_bytes (PDict m) = Inr b" unfolding m_def sibs using canonical_manifest_ok by blast
  have c: "certificate_accepts (PStr ?r) pf (PStr (smt_root t)) = Inr True" by (rule issued_accepts [OF t(2) _ pf]) simp
  let ?d = "m @ [(KStr ''signature'', PStr (to_hex (1 # b)))]"
  note g = manifest_fields [of ?r 0 "[]" "smt_root t" pf "[]" "[]" "[]" "[]" "[]" "[]"
      "[(KStr ''signature'', PStr (to_hex (1 # b)))]", folded m_def]
  obtain fs where fs: "verify_certificate (\<lambda>pk b sg. sg = 1 # b) (PDict ?d) [] = Inr (True, fs)"
    using direct_certificate [OF m_def c b, of "\<lambda>pk b sg. sg = 1 # b"] by blast
  have root: "build_root ?refs = Inr (smt_root t)"
    using build_root_spec [of ?refs] tree_ok_root [OF t(2)] t(3) by simp
  have "key_of ?r \<notin> key_of ` set ?refs \<or> collision_in (certificate_evidence ?r ?refs pf)"
    using accepted_certificate_sound [OF fs g(1,2,3) root] by simp
  with fs g(2) root show ?thesis by blast
qed

text \<open>
  C16 A certificate issued for an erased subject, written to a JSON file, makes the
  verifier command exit with 0, provided the sibling depths of its proof, as decimal
  texts, are in the same order as the numbers; for instance if all of them are below 10.
\<close>

theorem issued_certificate_verifies:
  assumes "smt_init refs = Inr t" "list_all valid_ref refs" "valid_ref r"
    and "smt_prove t r = Inr (proof_of_siblings sibs)" "sorted (depth_texts sibs)"
    and "m = manifest_build r k rf (smt_root t) (proof_of_siblings sibs) cd cfg rw mv pa ca"
    and "sign_manifest ed_sign seed (PDict m) = Inr sig" "signing_key seed = Inr key"
    and "\<And>b. ed_verify (ed_public key) b (ed_sign key b)" "\<And>b. ed_sign key b \<noteq> []"
    and "load_public_key key_file = Inr (ed_public key)"
  shows "\<exists>cert_text. dumps (PDict (add_signature m sig)) = Inr cert_text \<and> cli_main ed_verify cert_text key_file = Inr 0"
proof -
  have t: "tree_ok t" using smt_init_root [OF assms(2)] assms(1) by auto
  from smt_prove_shape [OF t assms(3,4)] have sorted: "sorted_wrt (<) (map fst sibs)"
    using proof_of_siblings_inject by (auto simp: siblings_ok_def)
  then have "stable (proof_of_siblings sibs)" using assms(5) by (simp add: stable_proof)
  from issued_certificate_accepted [OF t assms(3,4,6-8), of ed_verify ed_public, OF assms(9,10) this]
  obtain fs where "verify_certificate ed_verify (reload (PDict (add_signature m sig))) (ed_public key) = Inr (True, fs)"
    by blast
  moreover obtain cert_text where "dumps (PDict (add_signature m sig)) = Inr cert_text"
    using dumps_certificate_ok [of r k rf "smt_root t" sibs cd cfg rw mv pa ca sig] assms(6) by auto
  moreover have "wf_val (PDict (add_signature m sig))"
    unfolding assms(6) wf_certificate by (rule wf_proof [OF sorted])
  ultimately show ?thesis using assms(11) loads_dumps by (auto simp: cli_main_def simp del: dumps.simps reload.simps wf_val.simps)
qed

theorem issued_certificate_verifies_witness:
  "\<exists>cert cert_text. getitem cert ''subject_ref'' = Inr (PStr (to_hex (replicate 32 1))) \<and> dumps cert = Inr cert_text
     \<and> cli_main (\<lambda>pk b sg. sg = pk @ 1 # b) cert_text (to_hex (replicate 32 9)) = Inr 0"
proof -
  let ?refs = "[to_hex (replicate 32 0)]" and ?r = "to_hex (replicate 32 1)"
  obtain t where t: "smt_init ?refs = Inr t" "tree_ok t" "tree_keys t = ref_keys ?refs"
    by (rule smt_init_ok [of ?refs]) simp
  have absent: "key_of ?r \<notin> set (tree_keys t)" by (auto simp: t(3) replicate_eq_replicate)
  obtain pf where pf: "smt_prove t ?r = Inr pf" by (rule smt_prove_verifies [OF t(2) _ absent]) auto
  obtain sibs where sibs: "pf = proof_of_siblings sibs" "length sibs \<le> 1"
    using smt_prove_shape [OF t(2) _ pf] t(3) by (auto simp: length_ref_keys)
  then have sorted: "sorted (depth_texts sibs)" by (cases sibs) (auto simp: depth_texts_def)
  define m where "m = manifest_build ?r 0 [] (smt_root t) (proof_of_siblings sibs) [] [] [] [] [] []"
  obtain b where b: "canonical_bytes (PDict m) = Inr b" unfolding m_def using canonical_manifest_ok by blast
  let ?sign = "\<lambda>k b. k @ 1 # b" and ?seed = "Some (to_hex (replicate 32 9))"
  have key: "signing_key ?seed = Inr (replicate 32 9)" by (rule signing_key_hex) simp
  have sig: "sign_manifest ?sign ?seed (PDict m) = Inr (to_hex (replicate 32 9 @ 1 # b))"
    unfolding sign_manifest_eq using key b by blast
  have pf': "smt_prove t ?r = Inr (proof_of_siblings sibs)" using pf sibs(1) by simp
  have pub: "load_public_key (to_hex (replicate 32 9)) = Inr (replicate 32 9)"
    by (rule load_public_key_hex) simp
  have "\<exists>cert_text. dumps (PDict (add_signature m (to_hex (replicate 32 9 @ 1 # b)))) = Inr cert_text
      \<and> cli_main (\<lambda>pk b sg. sg = pk @ 1 # b) cert_text (to_hex (replicate 32 9)) = Inr 0"
    by (rule issued_certificate_verifies
        [where ed_public = "\<lambda>k. k", OF t(1) _ _ pf' sorted m_def sig key _ _ pub]) simp_all
  moreover have "getitem (PDict (add_signature m s)) ''subject_ref'' = Inr (PStr ?r)" for s
    unfolding m_def add_signature_manifest by (rule manifest_fields(1))
  ultimately show ?thesis by blast
qed

text \<open>
  In general the canonical bytes survive the trip through JSON exactly when the
  decimal texts of the depths are sorted: the signer sorts the integer keys of the
  proof as numbers, the verifier sorts the texts that \<open>json.load\<close> made of them.
\<close>

theorem canonical_bytes_reload_iff:
  assumes "m = manifest_build r k rf root (proof_of_siblings sibs) cd cfg rw mv pa ca"
    and "sorted_wrt (<) (map fst sibs)" "canonical_bytes (PDict m) = Inr b"
  shows "canonical_bytes (reload (PDict m)) = Inr b \<longleftrightarrow> sorted (depth_texts sibs)"
proof -
  have "wf_val (PDict m)" unfolding assms(1) wf_manifest by (rule wf_proof [OF assms(2)])
  moreover have "str_dict m" unfolding assms(1) by (rule str_dict_manifest)
  moreover have "stable (PDict m) \<longleftrightarrow> sorted (depth_texts sibs)"
    unfolding assms(1) stable_manifest by (rule stable_proof [OF assms(2)])
  ultimately show ?thesis using canonical_reload [OF _ _ assms(3)] by simp
qed

theorem canonical_bytes_reload_iff_witness:
  "\<exists>b. canonical_bytes (PDict (manifest_build [] 0 [] [] (proof_of_siblings [(2, []), (10, [])]) [] [] [] [] [] [])) = Inr b
     \<and> canonical_bytes (reload (PDict (manifest_build [] 0 [] [] (proof_of_siblings [(2, []), (10, [])]) [] [] [] [] [] []))) \<noteq> Inr b"
proof -
  let ?m = "manifest_build [] 0 [] [] (proof_of_siblings [(2, []), (10, [])]) [] [] [] [] [] []"
  obtain b where b: "canonical_bytes (PDict ?m) = Inr b" using canonical_manifest_ok by blast
  have "depth_texts [(2, []), (10, [])] = [''2'', ''10'']"
    by (simp add: depth_texts_def int_dec_def nat_dec.simps hex_digit_def char_of_def bit_0)
  moreover have "\<not> (''2'' :: string) \<le> ''10''" by (simp add: less_char_def)
  ultimately have "\<not> sorted (depth_texts [(2, []), (10, [])])" by simp
  with canonical_bytes_reload_iff [OF refl _ b] b show ?thesis by auto
qed

text \<open>
  The signature covers the whole content: two well-formed values with the same
  canonical bytes are the same value once read back from JSON.
\<close>

theorem canonical_bytes_injective:
  assumes "wf_val v" "wf_val w" "canonical_bytes v = Inr b" "canonical_bytes w = Inr b"
  shows "reload v = reload w"
  by (rule canonical_bytes_inj [OF assms])

theorem canonical_bytes_injective_witness:
  "\<exists>b. canonical_bytes (PDict (manifest_build [] 0 [] [] (proof_of_siblings []) [] [] [] [] [] [])) = Inr b
     \<and> reload (PDict (manifest_build [] 0 [] [] (proof_of_siblings []) [] [] [] [] [] []))
       = reload (PDict (manifest_build [] 0 [] [] (proof_of_siblings []) [] [] [] [] [] []))"
proof -
  let ?m = "manifest_build [] 0 [] [] (proof_of_siblings []) [] [] [] [] [] []"
  obtain b where b: "canonical_bytes (PDict ?m) = Inr b" using canonical_manifest_ok by blast
  have "wf_val (PDict ?m)" unfolding wf_manifest by (rule wf_proof) simp
  from canonical_bytes_injective [OF this this b b] b show ?thesis by blast
qed

text \<open>
  \<open>verify_manifest\<close> answers with a boolean whatever the manifest and the signature
  are.
\<close>

theorem verify_manifest_returns: "\<exists>b. verify_manifest ed_verify manifest signature_hex public_key = Inr b"
  by (rule verify_manifest_total)

text \<open>
  A published root determines the set of references behind it: if two sets have the
  same root but are different, then for some reference of one of them the prover's own
  absence proof over the other exhibits a SHA-256 collision.
\<close>

theorem dataset_root_binds:
  assumes "build_root refs = Inr root" "build_root refs' = Inr root"
    and "list_all valid_ref refs" "list_all valid_ref refs'"
  shows "key_of ` set refs = key_of ` set refs'
     \<or> (\<exists>r\<in>set refs. \<exists>pf. prove_absence r refs' = Inr pf \<and> collision_in (smt_evidence r (ref_keys refs) pf))
     \<or> (\<exists>r\<in>set refs'. \<exists>pf. prove_absence r refs = Inr pf \<and> collision_in (smt_evidence r (ref_keys refs') pf))"
proof (cases "key_of ` set refs \<subseteq> key_of ` set refs'")
  case False
  then obtain r where "r \<in> set refs" "key_of r \<notin> key_of ` set refs'" by blast
  with sparse.root_binds [OF assms this] show ?thesis by blast
next
  case True
  show ?thesis
  proof (cases "key_of ` set refs' \<subseteq> key_of ` set refs")
    case False
    then obtain r where "r \<in> set refs'" "key_of r \<notin> key_of ` set refs" by blast
    with sparse.root_binds [OF assms(2,1,4,3) this] show ?thesis by blast
  qed (use True in blast)
qed

theorem dataset_root_binds_witness:
  "\<exists>root. build_root [to_hex (replicate 32 0)] = Inr root
     \<and> (key_of ` set [to_hex (replicate 32 0)] = key_of ` set [to_hex (replicate 32 0), to_hex (replicate 32 0)]
       \<or> (\<exists>r\<in>set [to_hex (replicate 32 0)]. \<exists>pf. prove_absence r [to_hex (replicate 32 0), to_hex (replicate 32 0)] = Inr pf)
       \<or> (\<exists>r\<in>set [to_hex (replicate 32 0), to_hex (replicate 32 0)]. \<exists>pf. prove_absence r [to_hex (replicate 32 0)] = Inr pf))"
proof -
  let ?a = "[to_hex (replicate 32 0)]" and ?b = "[to_hex (replicate 32 0), to_hex (replicate 32 0)]"
  obtain root where root: "build_root ?a = Inr root" using build_root_spec [of ?a] by simp
  moreover have "ref_keys ?a = ref_keys ?b" by (simp add: ref_keys_def)
  ultimately have "build_root ?b = Inr root" using build_root_spec [of ?a] build_root_spec [of ?b] by simp
  from dataset_root_binds [OF root this] root show ?thesis by auto
qed

end
