(* ===== verification/Blake2b.thy ===== *)
theory Blake2b
  imports Prelude
begin

text \<open>
  \<open>hashlib.blake2b\<close> with \<open>digest_size=8\<close> and no key (RFC 7693), the standard-library
  function behind \<open>engine/sharder.py::stable_hash\<close>, on 64-bit words. As with SHA-256,
  no proof unfolds it: what the sharder needs is that it is a function of its input.
\<close>

unbundle bit_operations_syntax

definition blake_IV :: "u64 list" where
  "blake_IV =
     [7640891576956012808, 13503953896175478587, 4354685564936845355, 11912009170470909681,
      5840696475078001361, 11170449401992604703, 2270897969802886507, 6620516959819538809]"

definition blake_sigma :: "nat list list" where
  "blake_sigma =
     [[0, 1, 2, 3, 4, 5, 6, 7, 8, 9, 10, 11, 12, 13, 14, 15],
      [14, 10, 4, 8, 9, 15, 13, 6, 1, 12, 0, 2, 11, 7, 5, 3],
      [11, 8, 12, 0, 5, 2, 15, 13, 10, 14, 3, 6, 7, 1, 9, 4],
      [7, 9, 3, 1, 13, 12, 11, 14, 2, 6, 5, 10, 4, 0, 15, 8],
      [9, 0, 5, 7, 2, 4, 10, 15, 14, 1, 11, 12, 6, 8, 3, 13],
      [2, 12, 6, 10, 0, 11, 8, 3, 4, 13, 7, 5, 15, 14, 1, 9],
      [12, 5, 1, 15, 14, 13, 4, 10, 0, 7, 6, 3, 9, 2, 8, 11],
      [13, 11, 7, 14, 12, 1, 3, 9, 5, 0, 15, 4, 8, 6, 2, 10],
      [6, 15, 14, 9, 11, 3, 0, 8, 12, 2, 13, 7, 1, 4, 10, 5],
      [10, 2, 8, 4, 7, 6, 1, 5, 15, 11, 9, 14, 3, 12, 13, 0]]"

definition word64_le :: "bytes \<Rightarrow> u64" where
  "word64_le bs = word_of_nat (foldr (\<lambda>b a. unat b + 256 * a) bs 0)"

definition bytes64_le :: "u64 \<Rightarrow> bytes" where
  "bytes64_le w = map (\<lambda>i. word_of_nat (unat w div 256 ^ i)) [0..<8]"

definition blake_mix :: "nat \<times> nat \<times> nat \<times> nat \<Rightarrow> u64 \<Rightarrow> u64 \<Rightarrow> u64 list \<Rightarrow> u64 list" where
  "blake_mix = (\<lambda>(a, b, c, d) x y v.
     (let va = v ! a + v ! b + x; vd = word_rotr 32 (v ! d XOR va);
          vc = v ! c + vd; vb = word_rotr 24 (v ! b XOR vc);
          va = va + vb + y; vd = word_rotr 16 (vd XOR va);
          vc = vc + vd; vb = word_rotr 63 (vb XOR vc)
      in v[a := va, b := vb, c := vc, d := vd]))"

definition blake_lanes :: "(nat \<times> nat \<times> nat \<times> nat) list" where
  "blake_lanes = [(0, 4, 8, 12), (1, 5, 9, 13), (2, 6, 10, 14), (3, 7, 11, 15),
                  (0, 5, 10, 15), (1, 6, 11, 12), (2, 7, 8, 13), (3, 4, 9, 14)]"

definition blake_round :: "u64 list \<Rightarrow> nat \<Rightarrow> u64 list \<Rightarrow> u64 list" where
  "blake_round m r v =
     (let s = blake_sigma ! (r mod 10) in
      fold (\<lambda>i v. blake_mix (blake_lanes ! i) (m ! (s ! (2 * i))) (m ! (s ! (2 * i + 1))) v) [0..<8] v)"

definition blake_compress :: "u64 list \<Rightarrow> bytes \<Rightarrow> nat \<Rightarrow> bool \<Rightarrow> u64 list" where
  "blake_compress h block t final =
     (let m = map (\<lambda>i. word64_le (take 8 (drop (8 * i) block))) [0..<16];
          v = h @ blake_IV;
          v = v[12 := v ! 12 XOR word_of_nat t, 13 := v ! 13 XOR word_of_nat (t div 2 ^ 64)];
          v = (if final then v[14 := NOT (v ! 14)] else v);
          v = fold (blake_round m) [0..<12] v
      in map (\<lambda>i. h ! i XOR v ! i XOR v ! (i + 8)) [0..<8])"

text \<open>All blocks but the last, then the last one, padded with zeros.\<close>

function blake_blocks :: "u64 list \<Rightarrow> nat \<Rightarrow> bytes \<Rightarrow> u64 list" where
  "blake_blocks h t bs =
     (if 128 < length bs then blake_blocks (blake_compress h (take 128 bs) (t + 128) False) (t + 128) (drop 128 bs)
      else blake_compress h (bs @ replicate (128 - length bs) 0) (t + length bs) True)"
  by pat_completeness auto
termination by (relation "measure (\<lambda>(h, t, bs). length bs)") auto

declare blake_blocks.simps [simp del]

definition blake2b :: "nat \<Rightarrow> bytes \<Rightarrow> bytes" where
  "blake2b digest_size bs =
     (let h = blake_IV[0 := blake_IV ! 0 XOR 0x01010000 XOR word_of_nat digest_size] in
      take digest_size (concat (map bytes64_le (blake_blocks h 0 bs))))"

text \<open>\<open>int.from_bytes(bs, "big")\<close>.\<close>

definition int_from_bytes :: "bytes \<Rightarrow> nat" where
  "int_from_bytes bs = foldl (\<lambda>a b. 256 * a + unat b) 0 bs"

lemma int_from_bytes_less: "int_from_bytes bs < 256 ^ length bs"
proof (induction bs rule: rev_induct)
  case (snoc b bs)
  have "unat b < 2 ^ LENGTH(8)" by (rule unsigned_less)
  with snoc show ?case by (simp add: int_from_bytes_def)
qed (simp add: int_from_bytes_def)

end
