(* ===== verification/Sharding.thy ===== *)
theory Sharding
  imports Blake2b Hexcodec "HOL-Library.Product_Lexorder"
begin

text \<open>
  \<open>config/settings.py\<close> (the settings that the engine reads, and \<open>subject_ref\<close>),
  \<open>engine/sharder.py\<close> and \<open>engine/slicer.py\<close>. Churn scores are floating-point numbers in
  the code and only ever compared, so they are elements of any linear order here; NaN is
  left out. Counts and slice indices are numpy 64-bit integers far from their bounds, and
  are \<open>int\<close>.
\<close>

section \<open>Settings\<close>

record settings =
  NUM_SHARDS :: int
  HOT_SHARDS :: int
  NUM_SLICES :: nat
  SEED :: nat
  TENANT_ID :: string
  TENANT_KEY :: bytes
  CODE_DIGEST :: string

definition default_settings :: settings where
  "default_settings =
     \<lparr>NUM_SHARDS = 5, HOT_SHARDS = 2, NUM_SLICES = 5, SEED = 1337, TENANT_ID = ''dev'',
      TENANT_KEY = utf8 ''dev-only-not-a-secret'', CODE_DIGEST = ''dev-unpinned''\<rparr>"

definition subject_ref :: "settings \<Rightarrow> string \<Rightarrow> string" where
  "subject_ref cfg subject_id = to_hex (hmac_sha256 (TENANT_KEY cfg) (utf8 subject_id))"

text \<open>Every reference that enters the system is hexadecimal text of 32 bytes.\<close>

lemma valid_subject_ref [simp, intro]: "valid_ref (subject_ref cfg s)"
  by (simp add: subject_ref_def)

section \<open>Shard assignment\<close>

definition stable_hash :: "string \<Rightarrow> nat" where
  "stable_hash v = int_from_bytes (blake2b 8 (utf8 v))"

definition assign_shard :: "string \<Rightarrow> 'f::linorder \<Rightarrow> int \<Rightarrow> int \<Rightarrow> 'f \<Rightarrow> int res" where
  "assign_shard subject_id churn_score num_shards hot_shards hot_threshold =
     (if \<not> (0 < hot_shards \<and> hot_shards < num_shards) then Inl ValueError
      else if hot_threshold \<le> churn_score then Inr (int (stable_hash subject_id) mod hot_shards)
      else Inr (hot_shards + int (stable_hash subject_id) mod (num_shards - hot_shards)))"

definition assign_all :: "string list \<Rightarrow> 'f::linorder list \<Rightarrow> int \<Rightarrow> int \<Rightarrow> 'f \<Rightarrow> int list res" where
  "assign_all subject_ids churn num_shards hot_shards hot_threshold =
     map_res (\<lambda>(s, c). assign_shard s c num_shards hot_shards hot_threshold) (zip subject_ids churn)"

lemma assign_shard_range:
  assumes "assign_shard s c num hot thr = Inr k"
  shows "0 \<le> k \<and> k < num \<and> (k < hot \<longleftrightarrow> thr \<le> c)"
proof -
  from assms have hot: "0 < hot" "hot < num" by (auto simp: assign_shard_def split: if_splits)
  define a where "a = int (stable_hash s) mod hot"
  define b where "b = int (stable_hash s) mod (num - hot)"
  have "0 \<le> a" "a < hot" using hot by (simp_all add: a_def)
  moreover have "0 \<le> b" "b < num - hot" using hot by (simp_all add: b_def)
  ultimately show ?thesis using assms hot unfolding assign_shard_def a_def [symmetric] b_def [symmetric]
    by (cases "thr \<le> c") auto
qed

section \<open>Slice assignment\<close>

fun cumsum :: "int \<Rightarrow> int list \<Rightarrow> int list" where
  "cumsum a [] = []"
| "cumsum a (x # xs) = (a + x) # cumsum (a + x) xs"

text \<open>numpy's \<open>//\<close> on integers: a zero divisor gives 0.\<close>

definition np_floordiv :: "int \<Rightarrow> int \<Rightarrow> int" where
  "np_floordiv a b = (if b = 0 then 0 else a div b)"

text \<open>\<open>np.lexsort((subject_ids, churn))\<close>: by churn, then by identifier.\<close>

definition lexsort :: "string list \<Rightarrow> 'f::linorder list \<Rightarrow> nat list" where
  "lexsort subject_ids churn = sort_key (\<lambda>i. (churn ! i, subject_ids ! i)) [0..<length subject_ids]"

text \<open>\<open>out[order] = values\<close>.\<close>

definition scatter :: "nat \<Rightarrow> (nat \<times> int) list \<Rightarrow> int list" where
  "scatter n ps = fold (\<lambda>(i, v) out. out[i := v]) ps (replicate n 0)"

definition slice_of_ordered :: "int list \<Rightarrow> int \<Rightarrow> int list" where
  "slice_of_ordered ordered_counts num_slices =
     (let cumulative = cumsum 0 ordered_counts; total = last cumulative in
      map (\<lambda>c. min (np_floordiv ((c - 1) * num_slices) total) (num_slices - 1)) cumulative)"

text \<open>numpy raises ValueError for sort keys, IndexError for counts, of another length.\<close>

definition assign_slices :: "string list \<Rightarrow> 'f::linorder list \<Rightarrow> int list \<Rightarrow> int \<Rightarrow> int list res" where
  "assign_slices subject_ids churn record_counts num_slices =
     (if num_slices < 1 then Inl ValueError
      else if subject_ids = [] then Inr []
      else if length churn \<noteq> length subject_ids then Inl ValueError
      else if length record_counts < length subject_ids then Inl IndexError
      else
        let order = lexsort subject_ids churn;
            slices = slice_of_ordered (map (\<lambda>i. record_counts ! i) order) num_slices
        in Inr (scatter (length subject_ids) (zip order slices)))"

lemma length_cumsum [simp]: "length (cumsum a xs) = length xs"
  by (induction xs arbitrary: a) auto

lemma nth_cumsum: "j < length xs \<Longrightarrow> cumsum a xs ! j = a + (\<Sum>i\<le>j. xs ! i)"
proof (induction xs arbitrary: a j)
  case (Cons x xs)
  show ?case
  proof (cases j)
    case (Suc j')
    have "(\<Sum>i\<le>Suc j'. (x # xs) ! i) = x + (\<Sum>i\<le>j'. xs ! i)"
      by (simp only: sum.atMost_Suc_shift) simp
    with Suc Cons show ?thesis by simp
  qed simp
qed simp

lemma last_cumsum: "xs \<noteq> [] \<Longrightarrow> last (cumsum 0 xs) = (\<Sum>i<length xs. xs ! i)"
proof -
  assume "xs \<noteq> []"
  then have "cumsum 0 xs \<noteq> []" by (cases xs) auto
  then have "last (cumsum 0 xs) = cumsum 0 xs ! (length xs - 1)" by (simp add: last_conv_nth)
  also have "\<dots> = (\<Sum>i\<le>length xs - 1. xs ! i)" using \<open>xs \<noteq> []\<close> by (simp add: nth_cumsum)
  also have "{..length xs - 1} = {..<length xs}" using \<open>xs \<noteq> []\<close> by (cases xs) auto
  finally show ?thesis .
qed

lemma scatter_length [simp]: "length (scatter n ps) = n"
proof -
  have "length (fold (\<lambda>(i, v) out. out[i := v]) ps out) = length out" for out :: "int list"
    by (induction ps arbitrary: out) auto
  then show ?thesis by (simp add: scatter_def)
qed

lemma scatter_nth:
  assumes "distinct (map fst ps)" "(i, v) \<in> set ps" "i < n"
  shows "scatter n ps ! i = v"
proof -
  let ?f = "\<lambda>(i, v) out. out[i := v]"
  have keep: "i \<notin> fst ` set qs \<Longrightarrow> fold ?f qs out ! i = out ! i" for qs :: "(nat \<times> int) list" and out
    by (induction qs arbitrary: out) auto
  have "i < length out \<Longrightarrow> fold ?f ps out ! i = v" for out
    using assms(1,2)
  proof (induction ps arbitrary: out)
    case (Cons p ps)
    show ?case
    proof (cases "p = (i, v)")
      case True
      with Cons.prems keep [of ps "out[i := v]"] show ?thesis by auto
    next
      case False
      with Cons.prems(3) have "(i, v) \<in> set ps" by auto
      with Cons show ?thesis by (cases p) auto
    qed
  qed simp
  from this [of "replicate n 0"] assms(3) show ?thesis by (simp add: scatter_def)
qed

lemma lexsort_perm:
  "length (lexsort ids churn) = length ids" "distinct (lexsort ids churn)" "set (lexsort ids churn) = {..<length ids}"
  by (auto simp: lexsort_def)

subsection \<open>The packing of ordered counts\<close>

definition counts_ok :: "int list \<Rightarrow> bool" where
  "counts_ok cs \<longleftrightarrow> cs \<noteq> [] \<and> (\<forall>c\<in>set cs. 1 \<le> c)"

definition records_upto :: "int list \<Rightarrow> nat \<Rightarrow> int" where
  "records_upto cs j = (\<Sum>i\<le>j. cs ! i)"

definition records_total :: "int list \<Rightarrow> int" where
  "records_total cs = (\<Sum>i<length cs. cs ! i)"

lemma counts_pos: "counts_ok cs \<Longrightarrow> j < length cs \<Longrightarrow> 1 \<le> cs ! j"
  by (simp add: counts_ok_def)

lemma counts_nonneg: "counts_ok cs \<Longrightarrow> j < length cs \<Longrightarrow> 0 \<le> cs ! j"
  using counts_pos [of cs j] by simp

lemma records_upto_mono: "counts_ok cs \<Longrightarrow> i \<le> j \<Longrightarrow> j < length cs \<Longrightarrow> records_upto cs i \<le> records_upto cs j"
  unfolding records_upto_def by (rule sum_mono2) (auto intro: counts_nonneg)

lemma records_upto_total: "counts_ok cs \<Longrightarrow> j < length cs \<Longrightarrow> records_upto cs j \<le> records_total cs"
  unfolding records_upto_def records_total_def by (rule sum_mono2) (auto intro: counts_nonneg)

lemma records_upto_pos: "counts_ok cs \<Longrightarrow> j < length cs \<Longrightarrow> 1 \<le> records_upto cs j"
proof -
  assume a: "counts_ok cs" "j < length cs"
  have "cs ! j \<le> records_upto cs j"
    unfolding records_upto_def by (rule member_le_sum) (use a counts_nonneg in auto)
  with counts_pos [OF a] show ?thesis by simp
qed

lemma records_total_pos: "counts_ok cs \<Longrightarrow> 1 \<le> records_total cs"
  using records_upto_pos [of cs 0] records_upto_total [of cs 0] by (simp add: counts_ok_def)

lemma div_bounds:
  assumes "0 < (b :: int)"
  shows "a div b * b \<le> a \<and> a < (a div b + 1) * b"
proof -
  have "a div b * b + a mod b = a" "0 \<le> a mod b" "a mod b < b" using assms by simp_all
  moreover have "(a div b + 1) * b = a div b * b + b" by (simp add: algebra_simps)
  ultimately show ?thesis by linarith
qed

lemma div_less_of_less: "0 < (b :: int) \<Longrightarrow> a < n * b \<Longrightarrow> a div b < n"
proof (rule ccontr)
  assume b: "0 < b" "a < n * b" and "\<not> a div b < n"
  then have "n * b \<le> a div b * b" by (intro mult_right_mono) auto
  with div_bounds [OF b(1), of a] b(2) show False by simp
qed

lemma slice_nth:
  assumes cs: "counts_ok cs" "j < length cs" and num: "1 \<le> num"
  shows "slice_of_ordered cs num ! j = (records_upto cs j - 1) * num div records_total cs"
    and "0 \<le> (records_upto cs j - 1) * num div records_total cs"
    and "(records_upto cs j - 1) * num div records_total cs < num"
proof -
  let ?C = "records_upto cs j" and ?T = "records_total cs"
  have T: "0 < ?T" using records_total_pos [OF cs(1)] by simp
  have "0 \<le> (?C - 1) * num" using records_upto_pos [OF cs] num by simp
  then show nn: "0 \<le> (?C - 1) * num div ?T" using T by (simp add: pos_imp_zdiv_nonneg_iff)
  have "(?C - 1) * num \<le> (?T - 1) * num" using records_upto_total [OF cs] num by (intro mult_right_mono) auto
  also have "\<dots> < num * ?T" using num by (simp add: algebra_simps)
  finally show less: "(?C - 1) * num div ?T < num" by (rule div_less_of_less [OF T])
  have "cumsum 0 cs ! j = ?C" using nth_cumsum [OF cs(2), of 0] by (simp add: records_upto_def)
  moreover have "last (cumsum 0 cs) = ?T"
    using last_cumsum [of cs] cs(1) by (simp add: records_total_def counts_ok_def)
  ultimately show "slice_of_ordered cs num ! j = (?C - 1) * num div ?T"
    using less cs(2) T by (simp add: slice_of_ordered_def Let_def np_floordiv_def)
qed

lemma slice_mono:
  assumes "counts_ok cs" "1 \<le> num" "i \<le> j" "j < length cs"
  shows "slice_of_ordered cs num ! i \<le> slice_of_ordered cs num ! j"
proof -
  have "(records_upto cs i - 1) * num \<le> (records_upto cs j - 1) * num"
    using records_upto_mono [OF assms(1,3,4)] assms(2) by (intro mult_right_mono) auto
  then have "(records_upto cs i - 1) * num div records_total cs \<le> (records_upto cs j - 1) * num div records_total cs"
    using records_total_pos [OF assms(1)] by (intro zdiv_mono1) auto
  with assms show ?thesis by (simp add: slice_nth)
qed

lemma length_slices [simp]: "length (slice_of_ordered cs num) = length cs"
  by (simp add: slice_of_ordered_def Let_def)

text \<open>A slice is a run of consecutive subjects, and its records are between two boundaries.\<close>

lemma slice_load:
  assumes cs: "counts_ok cs" and num: "1 \<le> num" and M: "\<And>c. c \<in> set cs \<Longrightarrow> c \<le> M"
  shows "num * (\<Sum>j | j < length cs \<and> slice_of_ordered cs num ! j = k. cs ! j) < records_total cs + num * M"
proof (cases "{j. j < length cs \<and> slice_of_ordered cs num ! j = k} = {}")
  case True
  have "1 \<le> cs ! 0" "cs ! 0 \<le> M" using cs M by (auto simp: counts_ok_def)
  with num have "0 \<le> num * M" by simp
  then show ?thesis unfolding True using records_total_pos [OF cs] by simp
next
  case False
  let ?S = "{j. j < length cs \<and> slice_of_ordered cs num ! j = k}"
  let ?C = "records_upto cs" and ?T = "records_total cs"
  define p q where "p = Min ?S" and "q = Max ?S"
  have fin: "finite ?S" by simp
  have p: "p \<in> ?S" and q: "q \<in> ?S" using False fin unfolding p_def q_def by (metis Min_in, metis Max_in)
  have sub: "?S \<subseteq> {p..q}" using fin by (auto simp: p_def q_def)
  have pq: "p \<le> q" using q sub by auto
  have "(\<Sum>j\<in>?S. cs ! j) \<le> (\<Sum>j\<in>{p..q}. cs ! j)"
    using sub q by (intro sum_mono2) (auto intro: counts_nonneg [OF cs])
  also have "\<dots> = ?C q - ?C p + cs ! p"
  proof -
    have "{..q} = {..<p} \<union> {p..q}" "{..p} = insert p {..<p}" "{..<p} \<inter> {p..q} = {}" using pq by auto
    then show ?thesis unfolding records_upto_def by (simp add: sum.union_disjoint)
  qed
  finally have "num * (\<Sum>j\<in>?S. cs ! j) \<le> num * (?C q - ?C p + cs ! p)" using num by (intro mult_left_mono) auto
  also have "\<dots> = (?C q - 1) * num - (?C p - 1) * num + num * cs ! p" by (simp add: algebra_simps)
  also have "\<dots> < ?T + num * M"
  proof -
    have k: "(?C p - 1) * num div ?T = k" "(?C q - 1) * num div ?T = k"
      using p q slice_nth(1) [OF cs _ num] by auto
    have T: "0 < ?T" using records_total_pos [OF cs] by simp
    have "k * ?T \<le> (?C p - 1) * num" "(?C q - 1) * num < (k + 1) * ?T"
      using div_bounds [OF T, of "(?C p - 1) * num"] div_bounds [OF T, of "(?C q - 1) * num"] k by auto
    moreover have "num * cs ! p \<le> num * M" using p M num by (intro mult_left_mono) auto
    ultimately show ?thesis by (simp add: algebra_simps)
  qed
  finally show ?thesis .
qed

subsection \<open>The assignment\<close>

lemma set_lexsort_counts:
  "set (map (\<lambda>i. counts ! i) (lexsort ids churn)) = (\<lambda>i. counts ! i) ` {..<length ids}"
  by (simp add: lexsort_perm)

lemma assign_slices_eq:
  assumes "assign_slices ids churn counts num = Inr out" "ids \<noteq> []"
  shows "1 \<le> num" "length churn = length ids" "length ids \<le> length counts"
    and "out = scatter (length ids) (zip (lexsort ids churn)
            (slice_of_ordered (map (\<lambda>i. counts ! i) (lexsort ids churn)) num))"
  using assms by (auto simp: assign_slices_def Let_def split: if_splits)

lemma assign_slices_nth:
  assumes "assign_slices ids churn counts num = Inr out" "ids \<noteq> []" "p < length ids"
  shows "out ! (lexsort ids churn ! p) = slice_of_ordered (map (\<lambda>i. counts ! i) (lexsort ids churn)) num ! p"
proof -
  let ?o = "lexsort ids churn" and ?s = "slice_of_ordered (map (\<lambda>i. counts ! i) (lexsort ids churn)) num"
  have len: "length ?s = length ?o" "length ?o = length ids" by (simp_all add: lexsort_perm)
  have "(?o ! p, ?s ! p) \<in> set (zip ?o ?s)" using assms(3) len by (force simp: in_set_zip)
  moreover have "?o ! p < length ids" using lexsort_perm(3) [of ids churn] assms(3) len by (metis lessThan_iff nth_mem)
  ultimately show ?thesis
    unfolding assign_slices_eq(4) [OF assms(1,2)] using len lexsort_perm(2) [of ids churn]
    by (intro scatter_nth) simp_all
qed

lemma lexsort_index:
  assumes "i < length ids"
  obtains p where "p < length ids" "lexsort ids churn ! p = i"
  using assms lexsort_perm [of ids churn] by (metis in_set_conv_nth lessThan_iff)

lemma ordered_counts_ok:
  "ids \<noteq> [] \<Longrightarrow> length ids \<le> length counts \<Longrightarrow> (\<And>c. c \<in> set counts \<Longrightarrow> 1 \<le> c)
    \<Longrightarrow> counts_ok (map (\<lambda>i. counts ! i) (lexsort ids churn))"
  using lexsort_perm(1) [of ids churn] unfolding counts_ok_def set_lexsort_counts by auto

lemma assign_slices_range:
  assumes a: "assign_slices ids churn counts num = Inr out" and pos: "\<And>c. c \<in> set counts \<Longrightarrow> 1 \<le> c"
    and i: "i < length ids"
  shows "0 \<le> out ! i \<and> out ! i < num"
proof -
  from i have ne: "ids \<noteq> []" by auto
  note e = assign_slices_eq [OF a ne]
  obtain p where p: "p < length ids" "lexsort ids churn ! p = i" by (rule lexsort_index [OF i])
  note ok = ordered_counts_ok [OF ne e(3) pos, of churn]
  have "p < length (map (\<lambda>i. counts ! i) (lexsort ids churn))" using p(1) by (simp add: lexsort_perm)
  from slice_nth [OF ok this e(1)] assign_slices_nth [OF a ne p(1)] p(2) show ?thesis by simp
qed

lemma assign_slices_mono:
  assumes a: "assign_slices ids churn counts num = Inr out" and pos: "\<And>c. c \<in> set counts \<Longrightarrow> 1 \<le> c"
    and i: "i < length ids" "j < length ids" and less: "churn ! i < churn ! j"
  shows "out ! i \<le> out ! j"
proof -
  from i have ne: "ids \<noteq> []" by auto
  note e = assign_slices_eq [OF a ne]
  obtain p where p: "p < length ids" "lexsort ids churn ! p = i" by (rule lexsort_index [OF i(1)])
  obtain q where q: "q < length ids" "lexsort ids churn ! q = j" by (rule lexsort_index [OF i(2)])
  have "p \<le> q"
  proof (rule ccontr)
    assume "\<not> p \<le> q"
    moreover have "sorted (map (\<lambda>i. (churn ! i, ids ! i)) (lexsort ids churn))" by (simp add: lexsort_def)
    ultimately have "(churn ! j, ids ! j) \<le> (churn ! i, ids ! i)"
      using p q sorted_nth_mono [of "map (\<lambda>i. (churn ! i, ids ! i)) (lexsort ids churn)" q p]
      by (simp add: lexsort_perm)
    with less show False by (auto dest: less_asym leD)
  qed
  then have "slice_of_ordered (map (\<lambda>i. counts ! i) (lexsort ids churn)) num ! p
      \<le> slice_of_ordered (map (\<lambda>i. counts ! i) (lexsort ids churn)) num ! q"
    using q(1) by (intro slice_mono ordered_counts_ok ne e pos) (simp_all add: lexsort_perm)
  with assign_slices_nth [OF a ne p(1)] assign_slices_nth [OF a ne q(1)] p(2) q(2) show ?thesis by simp
qed

lemma sum_less_if: "(\<Sum>i | i < (n :: nat) \<and> P i. f i) = (\<Sum>i\<in>{..<n}. if P i then f i else (0 :: int))"
proof -
  have "{i. i < n \<and> P i} = {i \<in> {..<n}. P i}" by auto
  with sum.inter_filter [OF finite_lessThan, of f n P] show ?thesis by (simp only:)
qed

lemma assign_slices_load:
  assumes a: "assign_slices ids churn counts num = Inr out" and ne: "ids \<noteq> []"
    and pos: "\<And>c. c \<in> set counts \<Longrightarrow> 1 \<le> c" and len: "length counts = length ids"
    and M: "\<And>c. c \<in> set counts \<Longrightarrow> c \<le> M"
  shows "num * (\<Sum>i | i < length ids \<and> out ! i = k. counts ! i) < sum_list counts + num * M"
proof -
  note e = assign_slices_eq [OF a ne]
  let ?o = "lexsort ids churn"
  let ?cs = "map (\<lambda>i. counts ! i) ?o"
  have bij: "bij_betw (\<lambda>p. ?o ! p) {..<length ids} {..<length ids}"
    by (rule bij_betw_nth) (simp_all only: lexsort_perm)
  have "(\<Sum>i | i < length ids \<and> out ! i = k. counts ! i)
      = (\<Sum>i\<in>{..<length ids}. if out ! i = k then counts ! i else 0)"
    by (rule sum_less_if)
  also have "\<dots> = (\<Sum>p\<in>{..<length ids}. if out ! (?o ! p) = k then counts ! (?o ! p) else 0)"
    by (rule sum.reindex_bij_betw [OF bij, symmetric])
  also have "\<dots> = (\<Sum>p\<in>{..<length ids}. if slice_of_ordered ?cs num ! p = k then ?cs ! p else 0)"
  proof (rule sum.cong [OF refl])
    fix p assume "p \<in> {..<length ids}"
    then have p: "p < length ids" by simp
    then have "?cs ! p = counts ! (?o ! p)" by (simp add: lexsort_perm)
    then show "(if out ! (?o ! p) = k then counts ! (?o ! p) else 0)
        = (if slice_of_ordered ?cs num ! p = k then ?cs ! p else 0)"
      by (simp only: assign_slices_nth [OF a ne p])
  qed
  also have "\<dots> = (\<Sum>p | p < length ?cs \<and> slice_of_ordered ?cs num ! p = k. ?cs ! p)"
    by (simp only: sum_less_if length_map lexsort_perm)
  finally have load: "(\<Sum>i | i < length ids \<and> out ! i = k. counts ! i) = \<dots>" .
  have "records_total ?cs = (\<Sum>p\<in>{..<length ids}. counts ! (?o ! p))"
    by (simp add: records_total_def lexsort_perm)
  also have "\<dots> = (\<Sum>i\<in>{..<length ids}. counts ! i)" by (rule sum.reindex_bij_betw [OF bij])
  also have "\<dots> = sum_list counts" by (simp add: sum_list_sum_nth len atLeast0LessThan)
  finally have total: "records_total ?cs = sum_list counts" .
  have M': "c \<le> M" if "c \<in> set ?cs" for c
  proof -
    from that have "c \<in> set counts" unfolding set_lexsort_counts using len by (metis imageE lessThan_iff nth_mem)
    then show ?thesis by (rule M)
  qed
  have ok: "counts_ok ?cs" by (rule ordered_counts_ok [OF ne e(3) pos])
  from slice_load [OF ok e(1) M', of k] show ?thesis
    unfolding load total .
qed

section \<open>Properties\<close>

text \<open>
  Shard assignment: the result is a shard number, hot shards hold exactly the subjects
  at or above the churn threshold, and the only error is the one for an impossible number
  of hot shards.
\<close>

theorem assign_shard_correct:
  "case assign_shard s c num hot thr of
     Inl e \<Rightarrow> e = ValueError \<and> (hot \<le> 0 \<or> num \<le> hot)
   | Inr k \<Rightarrow> 0 \<le> k \<and> k < num \<and> (k < hot \<longleftrightarrow> thr \<le> c)"
proof (cases "assign_shard s c num hot thr")
  case (Inl e)
  then show ?thesis by (auto simp: assign_shard_def split: if_splits)
next
  case (Inr k)
  with assign_shard_range [OF Inr] show ?thesis by simp
qed

text \<open>
  Slices are ordered by churn and within range: a subject that is more likely to be
  erased never gets an earlier slice than one that is less likely.
\<close>

theorem slices_follow_churn:
  assumes "assign_slices ids churn counts num = Inr out" "list_all (\<lambda>c. 1 \<le> c) counts"
    and "i < length ids" "j < length ids" "churn ! i < churn ! j"
  shows "0 \<le> out ! i \<and> out ! i \<le> out ! j \<and> out ! j < num"
proof -
  have pos: "c \<in> set counts \<Longrightarrow> 1 \<le> c" for c using assms(2) by (simp add: list_all_iff)
  show ?thesis
    using assign_slices_range [OF assms(1) pos assms(3)] assign_slices_range [OF assms(1) pos assms(4)]
      assign_slices_mono [OF assms(1) pos assms(3-5)] by simp
qed

lemma slices_example:
  "assign_slices [''a'', ''b'', ''c''] [3 :: int, 1, 2] [4, 2, 3] 3 = Inr [2, 0, 1]"
proof -
  have "lexsort [''a'', ''b'', ''c''] [3 :: int, 1, 2] = [1, 2, 0]"
    by (simp add: lexsort_def upt_rec less_eq_prod_def)
  then show ?thesis
    by (simp add: assign_slices_def slice_of_ordered_def np_floordiv_def scatter_def)
qed

theorem slices_follow_churn_witness:
  "0 \<le> [2, 0, 1 :: int] ! 1 \<and> [2, 0, 1 :: int] ! 1 \<le> [2, 0, 1] ! 2 \<and> [2, 0, 1 :: int] ! 2 < 3"
  using slices_follow_churn [OF slices_example, where i = 1 and j = 2] by simp

text \<open>
  The packing is balanced: no slice holds as many records as the average plus the
  largest subject.
\<close>

theorem slices_balanced:
  assumes "assign_slices ids churn counts num = Inr out" "ids \<noteq> []" "length counts = length ids"
    and "list_all (\<lambda>c. 1 \<le> c \<and> c \<le> M) counts"
  shows "num * (\<Sum>i | i < length ids \<and> out ! i = k. counts ! i) < sum_list counts + num * M"
  by (rule assign_slices_load [OF assms(1,2) _ assms(3)]) (use assms(4) in \<open>auto simp: list_all_iff\<close>)

theorem slices_balanced_witness:
  "3 * (\<Sum>i | i < length [''a'', ''b'', ''c''] \<and> [2, 0, 1] ! i = (1 :: int). [4, 2, 3] ! i) < (sum_list [4, 2, 3] + 3 * 4 :: int)"
  by (rule slices_balanced [OF slices_example]) simp_all

text \<open>
  An empty shard gets an empty assignment, whatever the other arguments, and the
  number of slices is checked before anything else.
\<close>

theorem slices_empty_shard:
  "assign_slices [] churn counts num = (if num < 1 then Inl ValueError else Inr [])"
  by (simp add: assign_slices_def)

end
