(* ===== verification/Features.thy ===== *)
theory Features
  imports Prelude
begin

text \<open>
  The column schema of \<open>data/synth.py\<close>, \<open>engine/preprocessing.py\<close> and the feature matrix
  of \<open>engine/gbdt.py\<close>. A dict of equally long numpy columns is a list of records, and
  a selection of row indices is the list of the selected records. Floating-point
  numbers are elements of a type \<open>'f\<close>, and numpy's functions on them are the fields of
  the parameter \<open>'f numpy\<close>.
\<close>

section \<open>Rows\<close>

definition TYPES :: "string list" where
  "TYPES = [''CASH_IN'', ''CASH_OUT'', ''DEBIT'', ''PAYMENT'', ''TRANSFER'']"

record 'f txn =
  t_step :: 'f
  t_amount :: 'f
  t_oldbalanceOrg :: 'f
  t_newbalanceOrig :: 'f
  t_oldbalanceDest :: 'f
  t_newbalanceDest :: 'f
  type_idx :: nat
  isFraud :: int

text \<open>A raw transaction names its subject; a row of a shard file names the reference.\<close>

record 'f raw_row = "'f txn" +
  nameOrig :: string

record 'f row = "'f txn" +
  row_ref :: string
  slice_idx :: nat

section \<open>numpy\<close>

record 'f numpy =
  np_log1p :: "'f \<Rightarrow> 'f"
  np_mean :: "'f list \<Rightarrow> 'f"
  np_std :: "'f list \<Rightarrow> 'f"
  np_less :: "'f \<Rightarrow> 'f \<Rightarrow> bool"
  np_sub :: "'f \<Rightarrow> 'f \<Rightarrow> 'f"
  np_div :: "'f \<Rightarrow> 'f \<Rightarrow> 'f"
  np_float32 :: "'f \<Rightarrow> 'f"
  np_of_int :: "int \<Rightarrow> 'f"
  np_lit :: "string \<Rightarrow> 'f"
  np_add :: "'f \<Rightarrow> 'f \<Rightarrow> 'f"
  np_mul :: "'f \<Rightarrow> 'f \<Rightarrow> 'f"
  np_maximum :: "'f \<Rightarrow> 'f \<Rightarrow> 'f"
  np_minimum :: "'f \<Rightarrow> 'f \<Rightarrow> 'f"
  np_beta :: "nat \<Rightarrow> nat \<Rightarrow> 'f list"
  float_repr :: "'f \<Rightarrow> string"

section \<open>The per-shard preprocessor\<close>

definition numeric_row :: "'f numpy \<Rightarrow> ('f, 'z) txn_scheme \<Rightarrow> 'f list" where
  "numeric_row np r =
     [t_step r, np_log1p np (t_amount r), np_log1p np (t_oldbalanceOrg r),
      np_log1p np (t_newbalanceOrig r), np_log1p np (t_oldbalanceDest r),
      np_log1p np (t_newbalanceDest r)]"

definition N_NUMERIC :: nat where
  "N_NUMERIC = 6"

definition N_FEATURES :: nat where
  "N_FEATURES = N_NUMERIC + length TYPES"

record 'f preproc =
  p_mean :: "'f list"
  p_std :: "'f list"

definition column :: "'f list list \<Rightarrow> nat \<Rightarrow> 'f list" where
  "column x j = map (\<lambda>r. r ! j) x"

definition preproc_fit :: "'f numpy \<Rightarrow> ('f, 'z) txn_scheme list \<Rightarrow> 'f preproc res" where
  "preproc_fit np rows =
     (if rows = [] then Inl ValueError
      else
        let x = map (numeric_row np) rows; cols = map (column x) [0..<N_NUMERIC] in
        Inr \<lparr>p_mean = map (np_mean np) cols,
             p_std = map (\<lambda>c. let s = np_std np c in
                            if np_less np s (np_lit np ''1e-9'') then np_of_int np 1 else s) cols\<rparr>)"

text \<open>\<open>onehot[i, type_idx[i]] = 1.0\<close> raises IndexError for an index outside the vocabulary.\<close>

definition onehot :: "'f numpy \<Rightarrow> nat \<Rightarrow> 'f list res" where
  "onehot np i =
     (if i < length TYPES then Inr ((replicate (length TYPES) (np_of_int np 0)) [i := np_of_int np 1])
      else Inl IndexError)"

definition transform_row :: "'f numpy \<Rightarrow> 'f preproc \<Rightarrow> ('f, 'z) txn_scheme \<Rightarrow> 'f list res" where
  "transform_row np p r =
     bind_res (onehot np (type_idx r)) (\<lambda>hot.
       Inr (map (np_float32 np)
         (map (\<lambda>(v, m, s). np_div np (np_sub np v m) s) (zip (numeric_row np r) (zip (p_mean p) (p_std p)))
          @ hot)))"

definition preproc_transform :: "'f numpy \<Rightarrow> 'f preproc \<Rightarrow> ('f, 'z) txn_scheme list \<Rightarrow> 'f list list res" where
  "preproc_transform np p rows = map_res (transform_row np p) rows"

section \<open>The features of the trees\<close>

definition feature_row :: "'f numpy \<Rightarrow> ('f, 'z) txn_scheme \<Rightarrow> 'f list res" where
  "feature_row np r =
     bind_res (onehot np (type_idx r)) (\<lambda>hot.
       Inr (map (np_float32 np)
         ([t_step r, t_amount r, t_oldbalanceOrg r, t_newbalanceOrig r, t_oldbalanceDest r, t_newbalanceDest r]
          @ hot)))"

definition features :: "'f numpy \<Rightarrow> ('f, 'z) txn_scheme list \<Rightarrow> 'f list list res" where
  "features np rows = map_res (feature_row np) rows"

section \<open>Facts\<close>

lemma length_onehot: "onehot np i = Inr hot \<Longrightarrow> length hot = length TYPES"
  by (auto simp: onehot_def split: if_splits)

lemma preproc_fit_lengths: "preproc_fit np rows = Inr p \<Longrightarrow> length (p_mean p) = N_NUMERIC \<and> length (p_std p) = N_NUMERIC"
  by (auto simp: preproc_fit_def Let_def split: if_splits)

lemma transform_row_length:
  "length (p_mean p) = N_NUMERIC \<Longrightarrow> length (p_std p) = N_NUMERIC \<Longrightarrow> transform_row np p r = Inr x
    \<Longrightarrow> length x = N_FEATURES"
  by (auto simp: transform_row_def res_simps length_onehot N_FEATURES_def N_NUMERIC_def numeric_row_def)

lemma feature_row_length: "feature_row np r = Inr x \<Longrightarrow> length x = N_FEATURES"
  by (auto simp: feature_row_def res_simps length_onehot N_FEATURES_def N_NUMERIC_def)

lemma transform_row_error: "transform_row np p r = Inl e \<Longrightarrow> e = IndexError \<and> length TYPES \<le> type_idx r"
  by (auto simp: transform_row_def res_simps onehot_def split: if_splits)

lemma transform_row_ok: "type_idx r < length TYPES \<Longrightarrow> \<exists>x. transform_row np p r = Inr x"
  by (simp add: transform_row_def onehot_def)

lemma feature_row_ok: "type_idx r < length TYPES \<Longrightarrow> \<exists>x. feature_row np r = Inr x"
  by (simp add: feature_row_def onehot_def)

lemma map_res_total: "(\<And>x. x \<in> set xs \<Longrightarrow> \<exists>y. f x = Inr y) \<Longrightarrow> \<exists>ys. map_res f xs = Inr ys"
proof (induction xs)
  case (Cons x xs)
  moreover have "\<exists>y. f x = Inr y" by (rule Cons.prems) simp
  ultimately show ?case by fastforce
qed simp

end
