(* ===== verification/Effects.thy ===== *)
theory Effects
  imports Prelude
begin

text \<open>
  Computations that read and write a state and may raise. An exception keeps the state
  it was raised in: what a Python function wrote before raising stays written.
\<close>

type_synonym ('w, 'a) io = "'w \<Rightarrow> 'a res \<times> 'w"

definition io_return :: "'a \<Rightarrow> ('w, 'a) io" where
  "io_return x w = (Inr x, w)"

definition io_raise :: "py_exc \<Rightarrow> ('w, 'a) io" where
  "io_raise e w = (Inl e, w)"

definition io_lift :: "'a res \<Rightarrow> ('w, 'a) io" where
  "io_lift r w = (r, w)"

definition io_get :: "('w \<Rightarrow> 'a) \<Rightarrow> ('w, 'a) io" where
  "io_get f w = (Inr (f w), w)"

definition io_modify :: "('w \<Rightarrow> 'w) \<Rightarrow> ('w, unit) io" where
  "io_modify f w = (Inr (), f w)"

definition io_bind :: "('w, 'a) io \<Rightarrow> ('a \<Rightarrow> ('w, 'b) io) \<Rightarrow> ('w, 'b) io" where
  "io_bind m f w = (case m w of (Inl e, w') \<Rightarrow> (Inl e, w') | (Inr x, w') \<Rightarrow> f x w')"

text \<open>A loop over a list that threads a local value.\<close>

fun io_fold :: "('x \<Rightarrow> 's \<Rightarrow> ('w, 's) io) \<Rightarrow> 'x list \<Rightarrow> 's \<Rightarrow> ('w, 's) io" where
  "io_fold f [] s = io_return s"
| "io_fold f (x # xs) s = io_bind (f x s) (io_fold f xs)"

text \<open>A file that must be there.\<close>

definition io_read :: "('w \<Rightarrow> 'a option) \<Rightarrow> ('w, 'a) io" where
  "io_read f w = (case f w of Some x \<Rightarrow> Inr x | None \<Rightarrow> Inl OtherError, w)"

definition io_when :: "bool \<Rightarrow> py_exc \<Rightarrow> ('w, unit) io" where
  "io_when b e = (if b then io_raise e else io_return ())"

text \<open>\<open>try: m except Exception as exc: h(exc)\<close>\<close>

definition io_try :: "('w, 'a) io \<Rightarrow> (py_exc \<Rightarrow> ('w, 'a) io) \<Rightarrow> ('w, 'a) io" where
  "io_try m h w = (case m w of (Inl e, w') \<Rightarrow> h e w' | (Inr x, w') \<Rightarrow> (Inr x, w'))"

text \<open>The same for a handler that goes on after the \<open>try\<close>: the outcome as a value.\<close>

definition io_attempt :: "('w, 'a) io \<Rightarrow> ('w, 'a res) io" where
  "io_attempt m w = (case m w of (r, w') \<Rightarrow> (Inr r, w'))"

named_theorems io_simps \<open>successful runs of computations, step by step\<close>

lemma io_bind_Inr [io_simps]:
  "io_bind m f w = (Inr y, w'') \<longleftrightarrow> (\<exists>x w'. m w = (Inr x, w') \<and> f x w' = (Inr y, w''))"
  by (auto simp: io_bind_def split: prod.splits sum.splits)

lemma io_bind_Inl:
  "io_bind m f w = (Inl e, w'') \<longleftrightarrow> m w = (Inl e, w'') \<or> (\<exists>x w'. m w = (Inr x, w') \<and> f x w' = (Inl e, w''))"
  by (auto simp: io_bind_def split: prod.splits sum.splits)

lemma io_bind_step: "m w = (Inr x, w') \<Longrightarrow> io_bind m f w = f x w'"
  by (simp add: io_bind_def)

lemma io_bind_fail: "m w = (Inl e, w') \<Longrightarrow> io_bind m f w = (Inl e, w')"
  by (simp add: io_bind_def)

lemma io_return_Inr [io_simps]: "io_return x w = (Inr y, w') \<longleftrightarrow> y = x \<and> w' = w"
  by (auto simp: io_return_def)

lemma io_lift_Inr [io_simps]: "io_lift r w = (Inr y, w') \<longleftrightarrow> r = Inr y \<and> w' = w"
  by (auto simp: io_lift_def)

lemma io_get_Inr [io_simps]: "io_get f w = (Inr y, w') \<longleftrightarrow> y = f w \<and> w' = w"
  by (auto simp: io_get_def)

lemma io_modify_Inr [io_simps]: "io_modify f w = (Inr y, w') \<longleftrightarrow> w' = f w"
  by (auto simp: io_modify_def)

lemma io_raise_Inr [io_simps]: "io_raise e w = (Inr y, w') \<longleftrightarrow> False"
  by (simp add: io_raise_def)

lemma io_read_Inr [io_simps]: "io_read f w = (Inr y, w') \<longleftrightarrow> f w = Some y \<and> w' = w"
  by (auto simp: io_read_def split: option.splits)

lemma io_when_Inr [io_simps]: "io_when b e w = (Inr y, w') \<longleftrightarrow> \<not> b \<and> w' = w"
  by (auto simp: io_when_def io_simps)

lemma io_fold_append:
  "io_fold f (xs @ ys) s = io_bind (io_fold f xs s) (io_fold f ys)"
proof (rule ext)
  show "io_fold f (xs @ ys) s w = io_bind (io_fold f xs s) (io_fold f ys) w" for w
  proof (induction xs arbitrary: s w)
    case (Cons x xs)
    then show ?case by (auto simp: io_bind_def split: prod.splits sum.splits)
  qed (simp add: io_bind_def io_return_def)
qed

text \<open>What every step of a loop keeps, the loop keeps, whether it raises or not.\<close>

lemma io_fold_keeps:
  assumes "\<And>x s w. P w \<Longrightarrow> P (snd (f x s w))" and "P w"
  shows "P (snd (io_fold f xs s w))"
  using assms(2)
proof (induction xs arbitrary: s w)
  case (Cons x xs)
  then show ?case using assms(1) [of w x s]
    by (auto simp: io_bind_def split: prod.splits sum.splits)
qed (simp add: io_return_def)

text \<open>Computations that keep a predicate, whether they raise or not.\<close>

definition keeps :: "('w \<Rightarrow> bool) \<Rightarrow> ('w, 'a) io \<Rightarrow> bool" where
  "keeps P m \<longleftrightarrow> (\<forall>w. P w \<longrightarrow> P (snd (m w)))"

named_theorems keeps_intros \<open>a computation keeps a predicate if its parts do\<close>

lemma keepsD: "keeps P m \<Longrightarrow> P w \<Longrightarrow> m w = (r, w') \<Longrightarrow> P w'"
  by (metis keeps_def snd_conv)

lemma keeps_return [keeps_intros]: "keeps P (io_return x)"
  by (simp add: keeps_def io_return_def)

lemma keeps_raise [keeps_intros]: "keeps P (io_raise e)"
  by (simp add: keeps_def io_raise_def)

lemma keeps_lift [keeps_intros]: "keeps P (io_lift r)"
  by (simp add: keeps_def io_lift_def)

lemma keeps_get [keeps_intros]: "keeps P (io_get f)"
  by (simp add: keeps_def io_get_def)

lemma keeps_read [keeps_intros]: "keeps P (io_read f)"
  by (simp add: keeps_def io_read_def)

lemma keeps_modify: "(\<And>w. P w \<Longrightarrow> P (f w)) \<Longrightarrow> keeps P (io_modify f)"
  by (simp add: keeps_def io_modify_def)

lemma keeps_bind [keeps_intros]: "keeps P m \<Longrightarrow> (\<And>x. keeps P (f x)) \<Longrightarrow> keeps P (io_bind m f)"
  by (auto simp: keeps_def io_bind_def split: prod.splits sum.splits)

lemma keeps_try [keeps_intros]: "keeps P m \<Longrightarrow> (\<And>e. keeps P (h e)) \<Longrightarrow> keeps P (io_try m h)"
  by (auto simp: keeps_def io_try_def split: prod.splits sum.splits)

lemma keeps_attempt [keeps_intros]: "keeps P m \<Longrightarrow> keeps P (io_attempt m)"
  by (auto simp: keeps_def io_attempt_def split: prod.splits)

lemma keeps_if [keeps_intros]: "keeps P m \<Longrightarrow> keeps P n \<Longrightarrow> keeps P (if b then m else n)"
  by simp

lemma keeps_fold [keeps_intros]: "(\<And>x s. x \<in> set xs \<Longrightarrow> keeps P (f x s)) \<Longrightarrow> keeps P (io_fold f xs s)"
  by (induction xs arbitrary: s) (auto intro: keeps_intros)

text \<open>
  Triples: from a state with \<open>P\<close> the computation returns with \<open>Q\<close> or raises with \<open>E\<close>.
\<close>

definition hoare :: "('w \<Rightarrow> bool) \<Rightarrow> ('w, 'a) io \<Rightarrow> ('a \<Rightarrow> 'w \<Rightarrow> bool) \<Rightarrow> ('w \<Rightarrow> bool) \<Rightarrow> bool" where
  "hoare P m Q E \<longleftrightarrow> (\<forall>w. P w \<longrightarrow> (case m w of (Inl e, w') \<Rightarrow> E w' | (Inr x, w') \<Rightarrow> Q x w'))"

lemma hoareD: "hoare P m Q E \<Longrightarrow> P w \<Longrightarrow> m w = (Inr x, w') \<Longrightarrow> Q x w'"
  by (auto simp: hoare_def)

lemma hoare_raise: "hoare P m Q E \<Longrightarrow> P w \<Longrightarrow> m w = (Inl e, w') \<Longrightarrow> E w'"
  by (auto simp: hoare_def)

lemma hoareI:
  assumes "\<And>w x w'. P w \<Longrightarrow> m w = (Inr x, w') \<Longrightarrow> Q x w'" "\<And>w e w'. P w \<Longrightarrow> m w = (Inl e, w') \<Longrightarrow> E w'"
  shows "hoare P m Q E"
  unfolding hoare_def
proof (intro allI impI)
  fix w assume "P w"
  obtain r w' where "m w = (r, w')" by (cases "m w")
  with \<open>P w\<close> assms show "case m w of (Inl e, w') \<Rightarrow> E w' | (Inr x, w') \<Rightarrow> Q x w'" by (cases r) auto
qed

lemma hoare_keeps: "hoare P m (\<lambda>_. P) P \<longleftrightarrow> keeps P m"
proof -
  have "(case m w of (Inl e, w') \<Rightarrow> P w' | (Inr x, w') \<Rightarrow> P w') = P (snd (m w))" for w
    by (cases "m w"; cases "fst (m w)") auto
  then show ?thesis by (simp add: hoare_def keeps_def)
qed

lemma hoare_bind:
  assumes "hoare P m R E" "\<And>x. hoare (R x) (f x) Q E"
  shows "hoare P (io_bind m f) Q E"
proof (rule hoareI)
  fix w x w' assume "P w" "io_bind m f w = (Inr x, w')"
  then show "Q x w'" by (auto simp: io_bind_Inr intro: hoareD [OF assms(2)] hoareD [OF assms(1)])
next
  fix w e w' assume "P w" "io_bind m f w = (Inl e, w')"
  then show "E w'" by (auto simp: io_bind_Inl intro: hoare_raise [OF assms(2)] hoare_raise [OF assms(1)] hoareD [OF assms(1)])
qed

lemma hoare_weaken:
  assumes "hoare P m Q E" "\<And>w. P' w \<Longrightarrow> P w" "\<And>x w. Q x w \<Longrightarrow> Q' x w" "\<And>w. E w \<Longrightarrow> E' w"
  shows "hoare P' m Q' E'"
  by (rule hoareI) (blast intro: assms(2-4) hoareD [OF assms(1)] hoare_raise [OF assms(1)])+

lemma hoare_attempt: "hoare P m Q E \<Longrightarrow> hoare P (io_attempt m) (\<lambda>r w. case r of Inl e \<Rightarrow> E w | Inr x \<Rightarrow> Q x w) F"
  by (rule hoareI) (auto simp: io_attempt_def dest: hoareD hoare_raise split: prod.splits sum.splits)

lemma hoare_lift: "hoare P (io_lift r) (\<lambda>x w. r = Inr x \<and> P w) P"
  by (rule hoareI) (auto simp: io_lift_def)

lemma hoare_get: "hoare P (io_get f) (\<lambda>x w. x = f w \<and> P w) P"
  by (rule hoareI) (auto simp: io_get_def)

lemma hoare_read: "hoare P (io_read f) (\<lambda>x w. f w = Some x \<and> P w) P"
  by (rule hoareI) (auto simp: io_read_def split: option.splits)

lemma hoare_from_keeps: "keeps P m \<Longrightarrow> hoare P m (\<lambda>_. P) P"
  by (simp add: hoare_keeps)

text \<open>Steps of a triple.\<close>

lemma hoare_bind_lift:
  assumes "\<And>w. P w \<Longrightarrow> E w" "\<And>x. r = Inr x \<Longrightarrow> hoare P (f x) Q E"
  shows "hoare P (io_bind (io_lift r) f) Q E"
  using assms by (cases r) (auto simp: hoare_def io_bind_def io_lift_def)

lemma hoare_bind_read:
  assumes "\<And>w. P w \<Longrightarrow> E w" "\<And>x. hoare (\<lambda>w. P w \<and> g w = Some x) (f x) Q E"
  shows "hoare P (io_bind (io_read g) f) Q E"
  using assms by (auto simp: hoare_def io_bind_def io_read_def split: option.split)

lemma hoare_bind_get:
  assumes "\<And>x. hoare (\<lambda>w. P w \<and> g w = x) (f x) Q E"
  shows "hoare P (io_bind (io_get g) f) Q E"
  using assms by (auto simp: hoare_def io_bind_def io_get_def)

lemma hoare_bind_modify:
  assumes "\<And>w. P w \<Longrightarrow> P' (g w)" "hoare P' (f ()) Q E"
  shows "hoare P (io_bind (io_modify g) f) Q E"
  using assms by (auto simp: hoare_def io_bind_def io_modify_def)

lemma hoare_bind_keeps:
  assumes "keeps P m" "\<And>w. P w \<Longrightarrow> E w" "\<And>x. hoare P (f x) Q E"
  shows "hoare P (io_bind m f) Q E"
proof (rule hoare_bind)
  show "hoare P m (\<lambda>_. P) E"
    by (rule hoare_weaken [OF hoare_from_keeps [OF assms(1)]]) (use assms(2) in auto)
qed (rule assms(3))

lemma hoare_return: "(\<And>w. P w \<Longrightarrow> Q x w) \<Longrightarrow> hoare P (io_return x) Q E"
  by (simp add: hoare_def io_return_def)

text \<open>What holds of every state that satisfies the precondition may be used.\<close>

lemma hoare_pure: "(\<And>w. P w \<Longrightarrow> A) \<Longrightarrow> (A \<Longrightarrow> hoare P m Q E) \<Longrightarrow> hoare P m Q E"
  by (auto simp: hoare_def)

end
