(* ===== verification/Train.thy ===== *)
theory Train
  imports Sharding Features Effects Certificate
begin

text \<open>
  \<open>config/determinism.py\<close> and \<open>engine/train.py\<close>: the files of a deployment, partitioning
  the raw data, and training one shard slice by slice. PyTorch is the parameter
  \<open>('f, 'o, 'g) torch\<close>: optimiser states \<open>'o\<close>, random generators \<open>'g\<close>; a model is its
  state dict, tensors as bytes in the order of the modules' parameters.
\<close>

section \<open>Configuration and libraries\<close>

record 'f env = settings +
  HOT_THRESHOLD :: 'f
  EPOCHS_PER_SLICE :: nat
  BATCH_SIZE :: nat
  LEARNING_RATE :: 'f
  CHECKPOINT_DIR :: string
  TREES_PER_SLICE :: nat
  PYTHONHASHSEED :: "string option"
  SIGNING_KEY :: "string option"

type_synonym state_dict = "(string \<times> bytes) list"

record ('f, 'o, 'g) torch =
  manual_seed :: "nat \<Rightarrow> 'g"
  build_model :: "'g \<Rightarrow> state_dict"
  adam :: "'f \<Rightarrow> state_dict \<Rightarrow> 'o"
  shuffled_batches :: "nat \<Rightarrow> ('f list \<times> 'f) list \<Rightarrow> 'g \<Rightarrow> ('f list \<times> 'f) list list \<times> 'g"
  adam_step :: "('f list \<times> 'f) list \<Rightarrow> state_dict \<times> 'o \<Rightarrow> state_dict \<times> 'o"
  forward :: "state_dict \<Rightarrow> 'f list \<Rightarrow> 'f"
  sigmoid :: "'f \<Rightarrow> 'f"

section \<open>Determinism\<close>

text \<open>
  The seeded global generator is what \<open>enforce_determinism\<close> leaves behind; without
  \<open>PYTHONHASHSEED=0\<close> it raises.
\<close>

definition enforce_determinism :: "('f, 'z) env_scheme \<Rightarrow> ('f, 'o, 'g) torch \<Rightarrow> nat \<Rightarrow> 'g res" where
  "enforce_determinism env t seed =
     (if PYTHONHASHSEED env \<noteq> Some ''0'' then Inl DeterminismError else Inr (manual_seed t seed))"

definition state_dict_digest :: "state_dict \<Rightarrow> string" where
  "state_dict_digest sd = to_hex (sha256 (concat (map (\<lambda>(k, v). utf8 k @ v) (sort_key fst sd))))"

text \<open>\<open>model.load_state_dict(state)\<close>: the same names and the same shapes, or RuntimeError.\<close>

definition load_state_dict :: "state_dict \<Rightarrow> state_dict \<Rightarrow> state_dict res" where
  "load_state_dict model st =
     (if fst ` set model = fst ` set st
         \<and> list_all (\<lambda>(k, v). case map_of st k of Some u \<Rightarrow> length u = length v | None \<Rightarrow> False) model
      then Inr (map (\<lambda>(k, v). (k, case map_of st k of Some u \<Rightarrow> u | None \<Rightarrow> v)) model)
      else Inl RuntimeError)"

section \<open>Files\<close>

record entry =
  tenant_id :: string
  e_shard :: nat
  min_slice_idx :: nat
  record_count :: nat

type_synonym routing = "(string \<times> entry) list"

text \<open>
  A model file holds a state dict or a booster, the list of its trees. \<open>tree_caches\<close> is
  the module-level cache of \<open>verify/smt.py\<close>.
\<close>

datatype 't artifact = Weights_File state_dict | Booster_File "'t list"

record ('f, 't) disk =
  routing_json :: "routing option"
  shard_npz :: "nat \<Rightarrow> 'f row list option"
  checkpoint_pt :: "string \<times> nat \<times> nat \<Rightarrow> state_dict option"
  preproc_json :: "string \<times> nat \<Rightarrow> 'f preproc option"
  gbdt_json :: "nat \<Rightarrow> 't list option"
  cas_file :: "string \<Rightarrow> 't artifact option"
  tree_caches :: tree_cache

definition load_shard :: "nat \<Rightarrow> (('f, 't) disk, 'f row list) io" where
  "load_shard shard = io_read (\<lambda>d. shard_npz d shard)"

definition save_shard :: "nat \<Rightarrow> 'f row list \<Rightarrow> (('f, 't) disk, unit) io" where
  "save_shard shard records = io_modify (\<lambda>d. d\<lparr>shard_npz := (shard_npz d)(shard \<mapsto> records)\<rparr>)"

definition save_routing :: "routing \<Rightarrow> (('f, 't) disk, unit) io" where
  "save_routing routing = io_modify (\<lambda>d. d\<lparr>routing_json := Some routing\<rparr>)"

definition load_routing :: "(('f, 't) disk, routing) io" where
  "load_routing = io_read routing_json"

definition save_checkpoint :: "string \<Rightarrow> nat \<Rightarrow> nat \<Rightarrow> state_dict \<Rightarrow> (('f, 't) disk, unit) io" where
  "save_checkpoint dir shard i st =
     io_modify (\<lambda>d. d\<lparr>checkpoint_pt := (checkpoint_pt d)((dir, shard, i) \<mapsto> st)\<rparr>)"

definition save_preproc :: "string \<Rightarrow> nat \<Rightarrow> 'f preproc \<Rightarrow> (('f, 't) disk, unit) io" where
  "save_preproc dir shard p = io_modify (\<lambda>d. d\<lparr>preproc_json := (preproc_json d)((dir, shard) \<mapsto> p)\<rparr>)"

section \<open>Training one shard\<close>

definition fit_preprocessor :: "'f numpy \<Rightarrow> 'f row list \<Rightarrow> 'f preproc res" where
  "fit_preprocessor np records = preproc_fit np (filter (\<lambda>r. slice_idx r = 0) records)"

text \<open>The tensors of one step: the rows of slices 0 to \<open>i\<close>, with their labels.\<close>

definition upto_slice :: "nat \<Rightarrow> 'f row list \<Rightarrow> 'f row list" where
  "upto_slice i records = filter (\<lambda>r. slice_idx r \<le> i) records"

definition slice_data :: "'f numpy \<Rightarrow> 'f preproc \<Rightarrow> 'f row list \<Rightarrow> nat \<Rightarrow> ('f list \<times> 'f) list res" where
  "slice_data np p records i =
     bind_res (preproc_transform np p (upto_slice i records)) (\<lambda>x.
       Inr (zip x (map (\<lambda>r. np_float32 np (np_of_int np (isFraud r))) (upto_slice i records))))"

fun train_epochs ::
  "('f, 'o, 'g) torch \<Rightarrow> nat \<Rightarrow> nat \<Rightarrow> ('f list \<times> 'f) list \<Rightarrow> 'g \<Rightarrow> state_dict \<times> 'o \<Rightarrow> state_dict \<times> 'o" where
  "train_epochs t bs 0 data g mo = mo"
| "train_epochs t bs (Suc n) data g mo =
     (let (batches, g') = shuffled_batches t bs data g in
      train_epochs t bs n data g' (fold (adam_step t) batches mo))"

definition train_slice ::
  "('f, 'z) env_scheme \<Rightarrow> 'f numpy \<Rightarrow> ('f, 'o, 'g) torch \<Rightarrow> nat \<Rightarrow> string \<Rightarrow> nat \<Rightarrow> 'f preproc \<Rightarrow> 'f row list
    \<Rightarrow> nat \<Rightarrow> (state_dict \<times> 'o) \<times> (nat \<times> string) list
    \<Rightarrow> (('f, 't) disk, (state_dict \<times> 'o) \<times> (nat \<times> string) list) io" where
  "train_slice env np t seed dir shard p records i s =
     io_bind (io_lift (slice_data np p records i)) (\<lambda>data.
       let mo = train_epochs t (BATCH_SIZE env) (EPOCHS_PER_SLICE env) data (manual_seed t (seed + i)) (fst s) in
       io_bind (save_checkpoint dir shard i (fst mo)) (\<lambda>_.
       io_return (mo, snd s @ [(i, state_dict_digest (fst mo))])))"

text \<open>The model to start from: freshly initialised, or the checkpoint given.\<close>

definition initial_model ::
  "('f, 'o, 'g) torch \<Rightarrow> 'g \<Rightarrow> nat \<Rightarrow> state_dict option \<Rightarrow> state_dict res" where
  "initial_model t g from_slice resume_state =
     (if from_slice = 0 then Inr (build_model t g)
      else case resume_state of
        None \<Rightarrow> Inl ValueError
      | Some st \<Rightarrow> load_state_dict (build_model t g) st)"

definition train_shard ::
  "('f, 'z) env_scheme \<Rightarrow> 'f numpy \<Rightarrow> ('f, 'o, 'g) torch \<Rightarrow> nat \<Rightarrow> 'f row list option \<Rightarrow> nat
    \<Rightarrow> state_dict option \<Rightarrow> nat \<Rightarrow> string option \<Rightarrow> (('f, 't) disk, (nat \<times> string) list) io" where
  "train_shard env np t shard records from_slice resume_state seed checkpoint_dir =
     (let out_dir = (if checkpoint_dir = None \<or> checkpoint_dir = Some [] then CHECKPOINT_DIR env else the checkpoint_dir) in
      io_bind (io_lift (enforce_determinism env t seed)) (\<lambda>g.
      io_bind (case records of None \<Rightarrow> load_shard shard | Some rs \<Rightarrow> io_return rs) (\<lambda>rs.
      io_bind (io_lift (fit_preprocessor np rs)) (\<lambda>p.
      io_bind (io_lift (initial_model t g from_slice resume_state)) (\<lambda>model.
      io_bind (save_preproc out_dir shard p) (\<lambda>_.
      io_bind (io_fold (train_slice env np t seed out_dir shard p rs) [from_slice..<NUM_SLICES env]
                 ((model, adam t (LEARNING_RATE env) model), [])) (\<lambda>s.
      io_return (snd s))))))))"

section \<open>Partitioning the raw data\<close>

text \<open>\<open>data/churn_score.py\<close>; the noise of the generator seeded with \<open>seed\<close> is \<open>np_beta\<close>.\<close>

definition churn_scores :: "'f numpy \<Rightarrow> string list \<Rightarrow> 'f list \<Rightarrow> 'f \<Rightarrow> nat \<Rightarrow> 'f list" where
  "churn_scores np subject_ids last_step max_step seed =
     (let recency = map (\<lambda>s. np_div np s (np_maximum np max_step (np_of_int np 1))) last_step;
          noise = np_beta np seed (length subject_ids)
      in map (\<lambda>(r, b). np_minimum np (np_maximum np
                (np_add np (np_mul np (np_lit np ''0.65'') r) (np_mul np (np_lit np ''0.35'') b))
                (np_lit np ''0.0'')) (np_lit np ''0.999''))
           (zip recency noise))"

text \<open>\<open>np.unique(raw["nameOrig"])\<close> with \<open>np.bincount\<close> and \<open>np.maximum.at\<close>.\<close>

definition subjects_of :: "'f raw_row list \<Rightarrow> string list" where
  "subjects_of raw = sorted_list_of_set (set (map nameOrig raw))"

definition count_of :: "'f raw_row list \<Rightarrow> string \<Rightarrow> nat" where
  "count_of raw s = length (filter (\<lambda>r. nameOrig r = s) raw)"

definition last_step_of :: "'f numpy \<Rightarrow> 'f raw_row list \<Rightarrow> string \<Rightarrow> 'f" where
  "last_step_of np raw s =
     fold (\<lambda>r m. np_maximum np m (t_step r)) (filter (\<lambda>r. nameOrig r = s) raw) (np_of_int np 0)"

text \<open>The slices of the subjects of shard \<open>k\<close>.\<close>

definition shard_slices ::
  "nat \<Rightarrow> (string \<Rightarrow> nat) \<Rightarrow> (string \<times> 'f::linorder \<times> int) list \<Rightarrow> nat \<Rightarrow> (string \<times> int) list res" where
  "shard_slices num_slices count assigned k =
     (let members = filter (\<lambda>(s, c, sh). sh = int k) assigned; ids = map fst members in
      bind_res (assign_slices ids (map (\<lambda>(s, c, sh). c) members) (map (\<lambda>s. int (count s)) ids) (int num_slices))
        (\<lambda>slices. Inr (zip ids slices)))"

definition shard_row :: "('f, 'z) env_scheme \<Rightarrow> (string \<Rightarrow> nat) \<Rightarrow> 'f raw_row \<Rightarrow> 'f row" where
  "shard_row env slice_of r =
     \<lparr>t_step = t_step r, t_amount = t_amount r, t_oldbalanceOrg = t_oldbalanceOrg r,
      t_newbalanceOrig = t_newbalanceOrig r, t_oldbalanceDest = t_oldbalanceDest r,
      t_newbalanceDest = t_newbalanceDest r, type_idx = type_idx r, isFraud = isFraud r,
      row_ref = subject_ref (settings.truncate env) (nameOrig r), slice_idx = slice_of (nameOrig r)\<rparr>"

text \<open>Both assignments, for the sorted subjects; nothing has been written when one raises.\<close>

definition assign_subjects ::
  "('f::linorder, 'z) env_scheme \<Rightarrow> 'f numpy \<Rightarrow> nat \<Rightarrow> 'f \<Rightarrow> 'f raw_row list
    \<Rightarrow> ((string \<times> 'f \<times> int) list \<times> (string \<times> int) list) res" where
  "assign_subjects env np seed max_step raw =
     (let subjects = subjects_of raw;
          churn = churn_scores np subjects (map (last_step_of np raw) subjects) max_step seed
      in bind_res (assign_all subjects churn (NUM_SHARDS env) (HOT_SHARDS env) (HOT_THRESHOLD env)) (\<lambda>shards.
         let assigned = zip subjects (zip churn shards) in
         bind_res (map_res (shard_slices (NUM_SLICES env) (count_of raw) assigned) [0..<nat (NUM_SHARDS env)])
           (\<lambda>slices. Inr (assigned, concat slices))))"

definition routing_of ::
  "('f, 'z) env_scheme \<Rightarrow> (string \<Rightarrow> nat) \<Rightarrow> (string \<Rightarrow> nat) \<Rightarrow> (string \<Rightarrow> nat) \<Rightarrow> string list \<Rightarrow> routing" where
  "routing_of env shard_of slice_of count subjects =
     dict_of (map (\<lambda>s. (subject_ref (settings.truncate env) s,
       \<lparr>tenant_id = TENANT_ID env, e_shard = shard_of s, min_slice_idx = slice_of s, record_count = count s\<rparr>)) subjects)"

text \<open>
  \<open>raw\<close> and \<open>max_step\<close> are the data and the horizon in play, after the choice between
  given and generated data at the start of the function.
\<close>

definition build_shards ::
  "('f::linorder, 'z) env_scheme \<Rightarrow> 'f numpy \<Rightarrow> nat \<Rightarrow> 'f \<Rightarrow> 'f raw_row list \<Rightarrow> (('f, 't) disk, routing) io" where
  "build_shards env np seed max_step raw =
     io_bind (io_lift (assign_subjects env np seed max_step raw)) (\<lambda>(assigned, slices).
       let shard_of = (\<lambda>s. case map_of assigned s of Some (c, k) \<Rightarrow> nat k | None \<Rightarrow> 0);
           slice_of = (\<lambda>s. case map_of slices s of Some i \<Rightarrow> nat i | None \<Rightarrow> 0);
           routing = routing_of env shard_of slice_of (count_of raw) (subjects_of raw)
       in
       io_bind (io_fold (\<lambda>k _. save_shard k
                  (map (shard_row env slice_of) (filter (\<lambda>r. shard_of (nameOrig r) = k) raw)))
                 [0..<nat (NUM_SHARDS env)] ()) (\<lambda>_.
       io_bind (save_routing routing) (\<lambda>_.
       io_return routing)))"

definition train_main ::
  "('f, 'z) env_scheme \<Rightarrow> 'f numpy \<Rightarrow> ('f, 'o, 'g) torch \<Rightarrow> (('f, 't) disk, unit) io" where
  "train_main env np t =
     io_fold (\<lambda>k _. io_bind (train_shard env np t k None 0 None (SEED env) None) (\<lambda>_. io_return ()))
       [0..<nat (NUM_SHARDS env)] ()"

section \<open>Training as a pure function\<close>

text \<open>
  The checkpoints that a run over the slices \<open>is\<close> writes, as a function of the model and
  optimiser it starts from. Each depends on the rows of its slice and the ones before.
\<close>

fun train_states ::
  "('f, 'z) env_scheme \<Rightarrow> 'f numpy \<Rightarrow> ('f, 'o, 'g) torch \<Rightarrow> nat \<Rightarrow> 'f preproc \<Rightarrow> 'f row list
    \<Rightarrow> nat list \<Rightarrow> state_dict \<times> 'o \<Rightarrow> (nat \<times> state_dict) list res" where
  "train_states env np t seed p rs [] mo = Inr []"
| "train_states env np t seed p rs (i # is) mo =
     bind_res (slice_data np p rs i) (\<lambda>data.
       let mo' = train_epochs t (BATCH_SIZE env) (EPOCHS_PER_SLICE env) data (manual_seed t (seed + i)) mo in
       bind_res (train_states env np t seed p rs is mo') (\<lambda>ss. Inr ((i, fst mo') # ss)))"

definition shard_models ::
  "('f, 'z) env_scheme \<Rightarrow> 'f numpy \<Rightarrow> ('f, 'o, 'g) torch \<Rightarrow> 'f row list \<Rightarrow> nat \<Rightarrow> state_dict option \<Rightarrow> nat
    \<Rightarrow> ('f preproc \<times> (nat \<times> state_dict) list) res" where
  "shard_models env np t rs from_slice resume_state seed =
     bind_res (enforce_determinism env t seed) (\<lambda>g.
     bind_res (fit_preprocessor np rs) (\<lambda>p.
     bind_res (initial_model t g from_slice resume_state) (\<lambda>model.
     bind_res (train_states env np t seed p rs [from_slice..<NUM_SLICES env] (model, adam t (LEARNING_RATE env) model))
       (\<lambda>ss. Inr (p, ss)))))"

text \<open>The files after a run: every checkpoint of \<open>ss\<close> written.\<close>

definition write_states ::
  "string \<Rightarrow> nat \<Rightarrow> (nat \<times> state_dict) list \<Rightarrow> (string \<times> nat \<times> nat \<Rightarrow> state_dict option)
    \<Rightarrow> (string \<times> nat \<times> nat \<Rightarrow> state_dict option)" where
  "write_states dir k ss f = fold (\<lambda>(i, st) f. f((dir, k, i) \<mapsto> st)) ss f"

definition digests_of :: "(nat \<times> state_dict) list \<Rightarrow> (nat \<times> string) list" where
  "digests_of ss = map (\<lambda>(i, st). (i, state_dict_digest st)) ss"

lemma slice_data_cong: "upto_slice i rs = upto_slice i rs' \<Longrightarrow> slice_data np p rs i = slice_data np p rs' i"
  by (simp add: slice_data_def)

lemma write_states_simps [simp]:
  "write_states dir k [] f = f"
  "write_states dir k ((i, st) # ss) f = write_states dir k ss (f((dir, k, i) \<mapsto> st))"
  by (simp_all add: write_states_def)

lemma digests_of_simps [simp]:
  "digests_of [] = []" "digests_of ((i, st) # ss) = (i, state_dict_digest st) # digests_of ss"
  by (simp_all add: digests_of_def)

lemma train_slice_ok:
  assumes "slice_data np p rs i = Inr data"
    and "mo' = train_epochs t (BATCH_SIZE env) (EPOCHS_PER_SLICE env) data (manual_seed t (seed + i)) mo"
  shows "train_slice env np t seed dir k p rs i (mo, ds) d
     = (Inr (mo', ds @ [(i, state_dict_digest (fst mo'))]),
        d\<lparr>checkpoint_pt := (checkpoint_pt d)((dir, k, i) \<mapsto> fst mo')\<rparr>)"
  by (simp add: assms train_slice_def io_bind_def io_lift_def io_modify_def io_return_def save_checkpoint_def Let_def)

lemma train_slice_fail:
  "slice_data np p rs i = Inl e \<Longrightarrow> train_slice env np t seed dir k p rs i s d = (Inl e, d)"
  by (simp add: train_slice_def io_bind_def io_lift_def)

lemma train_fold_ok:
  "train_states env np t seed p rs is mo = Inr ss \<Longrightarrow>
   \<exists>mo'. io_fold (train_slice env np t seed dir k p rs) is (mo, ds) d
     = (Inr (mo', ds @ digests_of ss), d\<lparr>checkpoint_pt := write_states dir k ss (checkpoint_pt d)\<rparr>)"
proof (induction "is" arbitrary: mo ss ds d)
  case Nil
  then show ?case by (simp add: io_return_def digests_of_def write_states_def)
next
  case (Cons i "is")
  then obtain data where data: "slice_data np p rs i = Inr data" by (auto simp: res_simps)
  define mo1 where mo1: "mo1 = train_epochs t (BATCH_SIZE env) (EPOCHS_PER_SLICE env) data (manual_seed t (seed + i)) mo"
  from Cons.prems obtain ss' where ss': "train_states env np t seed p rs is mo1 = Inr ss'" and ss: "ss = (i, fst mo1) # ss'"
    by (auto simp: res_simps Let_def data mo1)
  show ?case
    using Cons.IH [OF ss', of "ds @ [(i, state_dict_digest (fst mo1))]"
        "d\<lparr>checkpoint_pt := (checkpoint_pt d)((dir, k, i) \<mapsto> fst mo1)\<rparr>"]
    by (simp add: io_bind_step [OF train_slice_ok [OF data mo1]] ss del: fun_upd_apply)
qed

lemma train_fold_fail:
  "train_states env np t seed p rs is mo = Inl e \<Longrightarrow>
   fst (io_fold (train_slice env np t seed dir k p rs) is (mo, ds) d) = Inl e"
proof (induction "is" arbitrary: mo ds d)
  case (Cons i "is")
  show ?case
  proof (cases "slice_data np p rs i")
    case (Inl e')
    with Cons.prems show ?thesis by (simp add: io_bind_fail [OF train_slice_fail])
  next
    case (Inr data)
    with Cons show ?thesis by (simp add: io_bind_step [OF train_slice_ok [OF Inr refl]] res_simps Let_def)
  qed
qed simp

lemma train_shard_out:
  assumes "shard_models env np t rs from_slice resume_state seed = Inr (p, ss)"
    and "out = (if dir = None \<or> dir = Some [] then CHECKPOINT_DIR env else the dir)"
  shows "train_shard env np t k (Some rs) from_slice resume_state seed dir d
     = (Inr (digests_of ss),
        d\<lparr>preproc_json := (preproc_json d)((out, k) \<mapsto> p), checkpoint_pt := write_states out k ss (checkpoint_pt d)\<rparr>)"
proof -
  from assms(1) obtain g model where m: "enforce_determinism env t seed = Inr g" "fit_preprocessor np rs = Inr p"
      "initial_model t g from_slice resume_state = Inr model"
      "train_states env np t seed p rs [from_slice..<NUM_SLICES env] (model, adam t (LEARNING_RATE env) model) = Inr ss"
    by (auto simp: shard_models_def res_simps)
  from train_fold_ok [OF m(4), of out k "[]" "d\<lparr>preproc_json := (preproc_json d)((out, k) \<mapsto> p)\<rparr>"]
  show ?thesis unfolding train_shard_def Let_def assms(2) [symmetric]
    by (auto simp: io_bind_def io_lift_def io_modify_def io_return_def save_preproc_def m(1-3))
qed

lemma train_shard_ok:
  "shard_models env np t rs from_slice resume_state seed = Inr (p, ss) \<Longrightarrow>
   train_shard env np t k (Some rs) from_slice resume_state seed None d
     = (Inr (digests_of ss),
        d\<lparr>preproc_json := (preproc_json d)((CHECKPOINT_DIR env, k) \<mapsto> p),
          checkpoint_pt := write_states (CHECKPOINT_DIR env) k ss (checkpoint_pt d)\<rparr>)"
  by (simp add: train_shard_out)

lemma train_shard_fail:
  assumes "shard_models env np t rs from_slice resume_state seed = Inl e"
  shows "fst (train_shard env np t k (Some rs) from_slice resume_state seed dir d) = Inl e"
proof (cases "enforce_determinism env t seed")
  case (Inl e')
  with assms show ?thesis by (simp add: shard_models_def train_shard_def io_bind_def io_lift_def Let_def)
next
  case g: (Inr g)
  show ?thesis
  proof (cases "fit_preprocessor np rs")
    case (Inl e')
    with assms g show ?thesis
      by (simp add: shard_models_def train_shard_def io_bind_def io_lift_def io_return_def Let_def)
  next
    case p: (Inr p)
    show ?thesis
    proof (cases "initial_model t g from_slice resume_state")
      case (Inl e')
      with assms g p show ?thesis
        by (simp add: shard_models_def train_shard_def io_bind_def io_lift_def io_return_def Let_def)
    next
      case (Inr model)
      define od where "od = (if dir = None \<or> dir = Some [] then CHECKPOINT_DIR env else the dir)"
      let ?d = "d\<lparr>preproc_json := (preproc_json d)((od, k) \<mapsto> p)\<rparr>"
      from assms g p Inr have "train_states env np t seed p rs [from_slice..<NUM_SLICES env]
          (model, adam t (LEARNING_RATE env) model) = Inl e"
        by (simp add: shard_models_def res_simps)
      from train_fold_fail [OF this, of od k "[]" ?d] obtain d' where
          "io_fold (train_slice env np t seed od k p rs) [from_slice..<NUM_SLICES env]
            ((model, adam t (LEARNING_RATE env) model), []) ?d = (Inl e, d')"
        by (metis prod.collapse)
      with g p Inr show ?thesis unfolding train_shard_def Let_def od_def [symmetric]
        by (simp add: io_bind_def io_lift_def io_return_def save_preproc_def io_modify_def)
    qed
  qed
qed

lemma train_shard_iff:
  "train_shard env np t k (Some rs) from_slice resume_state seed None d = (Inr ds, d') \<longleftrightarrow>
   (\<exists>p ss. shard_models env np t rs from_slice resume_state seed = Inr (p, ss) \<and> ds = digests_of ss
     \<and> d' = d\<lparr>preproc_json := (preproc_json d)((CHECKPOINT_DIR env, k) \<mapsto> p),
              checkpoint_pt := write_states (CHECKPOINT_DIR env) k ss (checkpoint_pt d)\<rparr>)"
proof (cases "shard_models env np t rs from_slice resume_state seed")
  case (Inl e)
  with train_shard_fail [OF this, of k None d] show ?thesis by auto
next
  case (Inr a)
  then obtain p ss where a: "shard_models env np t rs from_slice resume_state seed = Inr (p, ss)" by (cases a) auto
  with train_shard_ok [OF a, of k d] show ?thesis by auto
qed

lemma train_states_fst:
  "train_states env np t seed p rs is mo = Inr ss \<Longrightarrow> map fst ss = is"
proof (induction "is" arbitrary: mo ss)
  case (Cons i "is")
  from Cons.prems obtain data ss' where "train_states env np t seed p rs is (train_epochs t (BATCH_SIZE env)
      (EPOCHS_PER_SLICE env) data (manual_seed t (seed + i)) mo) = Inr ss'" "map fst ss = i # map fst ss'"
    by (auto simp: res_simps Let_def)
  with Cons.IH show ?case by simp
qed simp

text \<open>A checkpoint does not depend on rows of later slices.\<close>

lemma train_states_prefix:
  assumes "train_states env np t seed p rs is mo = Inr ss" "train_states env np t seed p rs' is mo = Inr ss'"
    and "sorted_wrt (<) is" "\<And>j. j \<in> set is \<Longrightarrow> j \<le> i \<Longrightarrow> upto_slice j rs = upto_slice j rs'"
  shows "map_of ss i = map_of ss' i"
  using assms
proof (induction "is" arbitrary: mo ss ss')
  case (Cons j "is")
  define mo1 where "mo1 data = train_epochs t (BATCH_SIZE env) (EPOCHS_PER_SLICE env) data (manual_seed t (seed + j)) mo" for data
  from Cons.prems(1) obtain data ss1 where 1: "slice_data np p rs j = Inr data"
      "train_states env np t seed p rs is (mo1 data) = Inr ss1" "ss = (j, fst (mo1 data)) # ss1"
    by (auto simp: res_simps Let_def mo1_def)
  from Cons.prems(2) obtain data' ss1' where 2: "slice_data np p rs' j = Inr data'"
      "train_states env np t seed p rs' is (mo1 data') = Inr ss1'" "ss' = (j, fst (mo1 data')) # ss1'"
    by (auto simp: res_simps Let_def mo1_def)
  show ?case
  proof (cases "j \<le> i")
    case True
    with Cons.prems(4) have "upto_slice j rs = upto_slice j rs'" by simp
    with 1(1) 2(1) have "data' = data" using slice_data_cong by fastforce
    with 1 2 Cons.IH [OF 1(2)] Cons.prems(3,4) show ?thesis by auto
  next
    case False
    with Cons.prems(3) have "i \<notin> set (j # is)" by auto
    with train_states_fst [OF Cons.prems(1)] train_states_fst [OF Cons.prems(2)] show ?thesis
      by (metis map_of_eq_None_iff set_map)
  qed
qed simp

lemma write_states_other: "key \<notin> (\<lambda>i. (dir, k, i)) ` fst ` set ss \<Longrightarrow> write_states dir k ss f key = f key"
  by (induction ss arbitrary: f) auto

lemma write_states_same:
  "distinct (map fst ss) \<Longrightarrow> write_states dir k ss f (dir, k, i) = (case map_of ss i of Some st \<Rightarrow> Some st | None \<Rightarrow> f (dir, k, i))"
proof (induction ss arbitrary: f)
  case (Cons s ss)
  obtain j st where s: "s = (j, st)" by (cases s)
  with Cons show ?case
    by (cases "i = j") (auto simp: map_of_eq_None_iff [THEN iffD2] split: option.splits)
qed simp

lemma map_of_digests: "map_of (digests_of ss) i = map_option state_dict_digest (map_of ss i)"
  by (induction ss) auto

end
