(* ===== verification/Engine_Spec.thy ===== *)
theory Engine_Spec
  imports Effects
begin

text \<open>
  What an erasure promises, stated once for both engines. Two deployments \<open>agree\<close> on
  everything but the data of one subject \<open>e\<close>: whatever may depend on that data is left
  open. The laws say that a batch keeps the agreement, and that a batch which contains
  \<open>e\<close> closes it: the two deployments are then the \<open>same\<close>, and so are the results.
\<close>

fun run_batches :: "('b \<Rightarrow> ('w, 'r) io) \<Rightarrow> 'b list \<Rightarrow> ('w, 'r list) io" where
  "run_batches erase [] = io_return []"
| "run_batches erase (b # bs) =
     io_bind (erase b) (\<lambda>r. io_bind (run_batches erase bs) (\<lambda>rs. io_return (r # rs)))"

locale erasure_engine =
  fixes erase :: "'b \<Rightarrow> ('w, 'r) io"
    and names :: "'b \<Rightarrow> 'e set"
    and wf :: "'w \<Rightarrow> bool"
    and agree :: "'e \<Rightarrow> 'w \<Rightarrow> 'w \<Rightarrow> bool"
    and same :: "'w \<Rightarrow> 'w \<Rightarrow> bool"
  assumes keeps_wf: "\<And>b w r w'. wf w \<Longrightarrow> erase b w = (Inr r, w') \<Longrightarrow> wf w'"
    and agree_wf: "\<And>e v w. agree e v w \<Longrightarrow> wf v \<Longrightarrow> wf w"
    and keeps_agree: "\<And>e v w b r s v' w'. agree e v w \<Longrightarrow> wf v \<Longrightarrow> erase b v = (Inr r, v') \<Longrightarrow> erase b w = (Inr s, w')
        \<Longrightarrow> agree e v' w'"
    and erases: "\<And>e v w b r v'. agree e v w \<Longrightarrow> wf v \<Longrightarrow> e \<in> names b \<Longrightarrow> erase b v = (Inr r, v')
        \<Longrightarrow> \<exists>w'. erase b w = (Inr r, w') \<and> same v' w'"
    and same_step: "\<And>v w b r v'. same v w \<Longrightarrow> erase b v = (Inr r, v') \<Longrightarrow> \<exists>w'. erase b w = (Inr r, w') \<and> same v' w'"
begin

lemma same_batches:
  "same v w \<Longrightarrow> run_batches erase bs v = (Inr rs, v') \<Longrightarrow> \<exists>w'. run_batches erase bs w = (Inr rs, w') \<and> same v' w'"
proof (induction bs arbitrary: v w rs)
  case (Cons b bs)
  from Cons.prems(2) obtain r v1 rs1 where r: "erase b v = (Inr r, v1)" "run_batches erase bs v1 = (Inr rs1, v')" "rs = r # rs1"
    by (auto simp: io_simps)
  obtain w1 where w1: "erase b w = (Inr r, w1)" "same v1 w1" using same_step [OF Cons.prems(1) r(1)] by blast
  obtain w' where "run_batches erase bs w1 = (Inr rs1, w')" "same v' w'" using Cons.IH [OF w1(2) r(2)] by blast
  with w1(1) r(3) show ?case by (auto simp: io_simps)
qed (auto simp: io_simps)

lemma agree_batches:
  "agree e v w \<Longrightarrow> wf v \<Longrightarrow> run_batches erase bs v = (Inr rs, v') \<Longrightarrow> run_batches erase bs w = (Inr ss, w')
    \<Longrightarrow> agree e v' w' \<and> wf v'"
proof (induction bs arbitrary: v w rs ss)
  case (Cons b bs)
  from Cons.prems(3) obtain r v1 rs1 where r: "erase b v = (Inr r, v1)" "run_batches erase bs v1 = (Inr rs1, v')"
    by (auto simp: io_simps)
  from Cons.prems(4) obtain s w1 ss1 where s: "erase b w = (Inr s, w1)" "run_batches erase bs w1 = (Inr ss1, w')"
    by (auto simp: io_simps)
  have "agree e v1 w1" by (rule keeps_agree [OF Cons.prems(1,2) r(1) s(1)])
  moreover have "wf v1" by (rule keeps_wf [OF Cons.prems(2) r(1)])
  ultimately show ?case using Cons.IH r(2) s(2) by blast
qed (auto simp: io_simps)

text \<open>
  Whatever happened before the batch that erases \<open>e\<close>, from that batch on nothing depends
  on the data of \<open>e\<close>: same results, same state.
\<close>

lemma erased_for_good:
  assumes "agree e v w" "wf v" "run_batches erase before v = (Inr rs, v1)" "run_batches erase before w = (Inr ss, w1)"
    and "e \<in> names b" "run_batches erase (b # after) v1 = (Inr out, v2)"
  shows "\<exists>w2. run_batches erase (b # after) w1 = (Inr out, w2) \<and> same v2 w2"
proof -
  from assms(6) obtain r v' out' where r: "erase b v1 = (Inr r, v')" "run_batches erase after v' = (Inr out', v2)" "out = r # out'"
    by (auto simp: io_simps)
  from agree_batches [OF assms(1-4)] have a: "agree e v1 w1" "wf v1" by simp_all
  obtain w' where w': "erase b w1 = (Inr r, w')" "same v' w'" using erases [OF a assms(5) r(1)] by blast
  obtain w2 where "run_batches erase after w' = (Inr out', w2)" "same v2 w2" using same_batches [OF w'(2) r(2)] by blast
  with w'(1) r(3) show ?thesis by (auto simp: io_simps)
qed

end

end
