(* ===== verification/Rebuild.thy ===== *)
theory Rebuild
  imports Train Engine_Spec
begin

text \<open>
  \<open>engine/rebuild.py\<close>: excise subjects from a shard, retrain from the rollback point, and
  issue a signed certificate for each. What \<open>engine/gbdt.py\<close> repeats word for word (the
  checks of a batch, the certificates, the routing rows) is defined once here.
\<close>

section \<open>The configuration digest\<close>

definition sha256_hex :: "string \<Rightarrow> string" where
  "sha256_hex s = to_hex (sha256 (encode_ascii s))"

definition json_field :: "string \<Rightarrow> string \<Rightarrow> string" where
  "json_field k v = quote k @ CHR '':'' # v"

definition json_object :: "(string \<times> string) list \<Rightarrow> string" where
  "json_object kvs = CHR ''{'' # join_with (CHR '','') (map (\<lambda>(k, v). json_field k v) kvs) @ ''}''"

definition config_digest :: "('f, 'z) env_scheme \<Rightarrow> 'f numpy \<Rightarrow> string" where
  "config_digest env np = ''sha256:'' @ sha256_hex (json_object
     [(''batch_size'', int_dec (int (BATCH_SIZE env))),
      (''epochs_per_slice'', int_dec (int (EPOCHS_PER_SLICE env))),
      (''learning_rate'', float_repr np (LEARNING_RATE env)),
      (''num_shards'', int_dec (NUM_SHARDS env)),
      (''num_slices'', int_dec (int (NUM_SLICES env))),
      (''seed'', int_dec (int (SEED env)))])"

section \<open>The batch\<close>

definition purge :: "'f row list \<Rightarrow> string \<Rightarrow> 'f row list \<times> nat" where
  "purge records ref =
     (filter (\<lambda>r. row_ref r \<noteq> ref) records, length (filter (\<lambda>r. row_ref r = ref) records))"

text \<open>The checks on the batch: its shard and its rollback slice.\<close>

definition batch_target :: "routing \<Rightarrow> string list \<Rightarrow> (nat \<times> nat) res" where
  "batch_target routing refs =
     (if \<exists>ref\<in>set refs. map_of routing ref = None then Inl KeyError
      else
        let entries = map (\<lambda>r. the (map_of routing r)) refs;
            shards = remdups (map e_shard entries)
        in if length shards \<noteq> 1 then Inl ValueError
           else Inr (hd shards, Min (set (map min_slice_idx entries))))"

definition purge_step :: "string \<Rightarrow> 'f row list \<times> nat \<Rightarrow> ('f row list \<times> nat) res" where
  "purge_step ref s =
     (let (records, dropped) = purge (fst s) ref in
      if dropped = 0 then Inl ValueError else Inr (records, snd s + dropped))"

definition purge_all :: "'f row list \<Rightarrow> string list \<Rightarrow> ('f row list \<times> nat) res" where
  "purge_all records refs = fold_res purge_step refs (records, 0)"

section \<open>Certificates\<close>

type_synonym manifest = "(pykey \<times> pyval) list"

definition issue_manifest ::
  "('f, 'z) env_scheme \<Rightarrow> (bytes \<Rightarrow> bytes \<Rightarrow> bytes) \<Rightarrow> bool \<Rightarrow> (string \<Rightarrow> pyval \<Rightarrow> manifest) \<Rightarrow> smt
    \<Rightarrow> string \<Rightarrow> manifest res" where
  "issue_manifest env ed_sign sign mk tree ref =
     bind_res (smt_prove tree ref) (\<lambda>pf.
     let m = mk ref pf in
     if sign then bind_res (sign_manifest ed_sign (SIGNING_KEY env) (PDict m)) (\<lambda>sg. Inr (add_signature m sg))
     else Inr m)"

definition issue_all ::
  "('f, 'z) env_scheme \<Rightarrow> (bytes \<Rightarrow> bytes \<Rightarrow> bytes) \<Rightarrow> bool \<Rightarrow> (string \<Rightarrow> pyval \<Rightarrow> manifest) \<Rightarrow> smt
    \<Rightarrow> string list \<Rightarrow> (string \<times> manifest) list res" where
  "issue_all env ed_sign sign mk tree refs =
     bind_res (map_res (\<lambda>ref. bind_res (issue_manifest env ed_sign sign mk tree ref) (\<lambda>m. Inr (ref, m))) refs)
       (\<lambda>ms. Inr (dict_of ms))"

text \<open>\<open>routing.pop(ref)\<close>\<close>

definition routing_pop :: "string \<Rightarrow> routing \<Rightarrow> routing res" where
  "routing_pop ref routing =
     (if map_of routing ref = None then Inl KeyError else Inr (filter (\<lambda>p. fst p \<noteq> ref) routing))"

definition resumed_text :: "nat \<Rightarrow> string" where
  "resumed_text min_slice =
     (if min_slice > 0 then ''slice'' @ int_dec (int min_slice - 1) else ''fresh_init'')"

record 'r rebuild_result =
  res_shard :: nat
  resumed_from :: string
  rows_purged :: nat
  slices_retrained :: "nat list"
  result_weights :: string
  manifests :: "(string \<times> manifest) list"
  replay :: 'r

text \<open>
  The tail that both engines share: the tree without the purged references, cached; the
  certificates; the routing table.
\<close>

definition set_tree_cache :: "nat \<Rightarrow> smt \<Rightarrow> (('f, 't) disk, unit) io" where
  "set_tree_cache shard tree = io_modify (\<lambda>d. d\<lparr>tree_caches := cache_tree (tree_caches d) shard tree\<rparr>)"

definition certificate_fields ::
  "('f, 'z) env_scheme \<Rightarrow> string \<Rightarrow> string \<Rightarrow> nat \<Rightarrow> nat \<Rightarrow> string \<Rightarrow> string \<Rightarrow> string \<Rightarrow> smt \<Rightarrow> string \<Rightarrow> pyval \<Rightarrow> manifest" where
  "certificate_fields env cfg_digest version_prefix shard min_slice weights purged_at completed_at tree ref pf =
     manifest_build ref shard (resumed_text min_slice) (smt_root tree) pf (CODE_DIGEST env) cfg_digest weights
       (version_prefix @ int_dec (int shard) @ CHR ''-'' # take 12 weights) purged_at completed_at"

definition certify ::
  "('f, 'z) env_scheme \<Rightarrow> (bytes \<Rightarrow> bytes \<Rightarrow> bytes) \<Rightarrow> bool \<Rightarrow> string \<Rightarrow> string \<Rightarrow> nat \<Rightarrow> nat \<Rightarrow> string \<Rightarrow> string
    \<Rightarrow> string \<Rightarrow> smt \<Rightarrow> string list \<Rightarrow> routing \<Rightarrow> (('f, 't) disk, (string \<times> manifest) list) io" where
  "certify env ed_sign sign cfg_digest version_prefix shard min_slice weights purged_at completed_at tree_before refs routing =
     io_bind (io_lift (smt_remove tree_before refs)) (\<lambda>tree.
     io_bind (set_tree_cache shard tree) (\<lambda>_.
     let mk = certificate_fields env cfg_digest version_prefix shard min_slice weights purged_at completed_at tree in
     io_bind (io_lift (issue_all env ed_sign sign mk tree refs)) (\<lambda>ms.
     io_bind (io_lift (fold_res routing_pop refs routing)) (\<lambda>routing'.
     io_bind (save_routing routing') (\<lambda>_.
     io_return ms)))))"

section \<open>The rebuild of a batch\<close>

record 'f mlp_replay =
  replay_records :: "'f row list"
  replay_from :: nat
  replay_state :: "state_dict option"
  replay_seed :: nat

definition load_resume :: "('f, 'z) env_scheme \<Rightarrow> nat \<Rightarrow> nat \<Rightarrow> (('f, 't) disk, state_dict option) io" where
  "load_resume env shard min_slice =
     (if min_slice > 0
      then io_bind (io_read (\<lambda>d. checkpoint_pt d (CHECKPOINT_DIR env, shard, min_slice - 1)))
             (\<lambda>st. io_return (Some st))
      else io_return None)"

text \<open>\<open>digests[NUM_SLICES - 1]\<close>\<close>

definition final_weights :: "('f, 'z) env_scheme \<Rightarrow> (nat \<times> string) list \<Rightarrow> string res" where
  "final_weights env digests =
     (case map_of digests (NUM_SLICES env - 1) of None \<Rightarrow> Inl KeyError | Some w \<Rightarrow> Inr w)"

definition rebuild_batch_by_ref ::
  "('f, 'z) env_scheme \<Rightarrow> 'f numpy \<Rightarrow> ('f, 'o, 'g) torch \<Rightarrow> (bytes \<Rightarrow> bytes \<Rightarrow> bytes) \<Rightarrow> string \<Rightarrow> string
    \<Rightarrow> string list \<Rightarrow> nat \<Rightarrow> bool \<Rightarrow> (('f, 't) disk, 'f mlp_replay rebuild_result) io" where
  "rebuild_batch_by_ref env np t ed_sign purged_at completed_at refs seed sign =
     io_bind (io_when (refs = []) ValueError) (\<lambda>_.
     io_bind load_routing (\<lambda>routing.
     io_bind (io_lift (batch_target routing refs)) (\<lambda>(shard, min_slice).
     io_bind (load_shard shard) (\<lambda>records.
     io_bind (io_get tree_caches) (\<lambda>cache.
     io_bind (io_lift (tree_for_shard cache shard (map row_ref records))) (\<lambda>tree_before.
     io_bind (io_lift (purge_all records refs)) (\<lambda>(retained, dropped).
     io_bind (save_shard shard retained) (\<lambda>_.
     io_bind (load_resume env shard min_slice) (\<lambda>resume_state.
     io_bind (train_shard env np t shard (Some retained) min_slice resume_state seed None) (\<lambda>digests.
     io_bind (io_lift (final_weights env digests)) (\<lambda>weights.
     io_bind (certify env ed_sign sign (config_digest env np) ''shard'' shard min_slice weights
                purged_at completed_at tree_before refs routing) (\<lambda>ms.
     io_return
       \<lparr>res_shard = shard, resumed_from = resumed_text min_slice, rows_purged = dropped,
        slices_retrained = [min_slice..<NUM_SLICES env], result_weights = weights, manifests = ms,
        replay = \<lparr>replay_records = retained, replay_from = min_slice, replay_state = resume_state,
                  replay_seed = seed\<rparr>\<rparr>))))))))))))"

text \<open>The entry points that still hold raw subject identifiers.\<close>

definition rebuild_batch ::
  "('f, 'z) env_scheme \<Rightarrow> 'f numpy \<Rightarrow> ('f, 'o, 'g) torch \<Rightarrow> (bytes \<Rightarrow> bytes \<Rightarrow> bytes) \<Rightarrow> string \<Rightarrow> string
    \<Rightarrow> string list \<Rightarrow> nat \<Rightarrow> bool \<Rightarrow> (('f, 't) disk, 'f mlp_replay rebuild_result) io" where
  "rebuild_batch env np t ed_sign purged_at completed_at subject_ids seed sign =
     rebuild_batch_by_ref env np t ed_sign purged_at completed_at
       (map (subject_ref (settings.truncate env)) subject_ids) seed sign"

definition rebuild ::
  "('f, 'z) env_scheme \<Rightarrow> 'f numpy \<Rightarrow> ('f, 'o, 'g) torch \<Rightarrow> (bytes \<Rightarrow> bytes \<Rightarrow> bytes) \<Rightarrow> string \<Rightarrow> string
    \<Rightarrow> string \<Rightarrow> nat \<Rightarrow> bool \<Rightarrow> (('f, 't) disk, string \<times> manifest \<times> 'f mlp_replay rebuild_result) io" where
  "rebuild env np t ed_sign purged_at completed_at subject_id seed sign =
     (let ref = subject_ref (settings.truncate env) subject_id in
      io_bind (rebuild_batch env np t ed_sign purged_at completed_at [subject_id] seed sign) (\<lambda>result.
      io_bind (io_lift (case map_of (manifests result) ref of None \<Rightarrow> Inl KeyError | Some m \<Rightarrow> Inr m)) (\<lambda>m.
      io_return (ref, m, result))))"

section \<open>The effect of a successful rebuild\<close>

lemma certify_iff:
  "certify env sg sign cfg vp k m w pa ca tb refs R d = (Inr ms, d') \<longleftrightarrow>
   (\<exists>tree R'. smt_remove tb refs = Inr tree
     \<and> issue_all env sg sign (certificate_fields env cfg vp k m w pa ca tree) tree refs = Inr ms
     \<and> fold_res routing_pop refs R = Inr R'
     \<and> d' = d\<lparr>tree_caches := cache_tree (tree_caches d) k tree, routing_json := Some R'\<rparr>)"
  by (auto simp: certify_def io_simps set_tree_cache_def save_routing_def Let_def)

definition resume_point :: "('f, 'z) env_scheme \<Rightarrow> ('f, 't) disk \<Rightarrow> nat \<Rightarrow> nat \<Rightarrow> state_dict option" where
  "resume_point env d k m = (if m > 0 then checkpoint_pt d (CHECKPOINT_DIR env, k, m - 1) else None)"

lemma resume_point_save [simp]: "resume_point env (d\<lparr>shard_npz := x\<rparr>) k m = resume_point env d k m"
  by (simp add: resume_point_def)

lemma load_resume_iff:
  "load_resume env k m d = (Inr x, d') \<longleftrightarrow> d' = d \<and> x = resume_point env d k m \<and> (0 < m \<longrightarrow> x \<noteq> None)"
  by (auto simp: load_resume_def resume_point_def io_simps)

lemma final_weights_iff: "final_weights env ds = Inr w \<longleftrightarrow> map_of ds (NUM_SLICES env - 1) = Some w"
  by (auto simp: final_weights_def split: option.splits)

text \<open>Everything a rebuild computes after the purge, as a function of what it reads.\<close>

definition mlp_plan ::
  "('f, 'z) env_scheme \<Rightarrow> 'f numpy \<Rightarrow> ('f, 'o, 'g) torch \<Rightarrow> (bytes \<Rightarrow> bytes \<Rightarrow> bytes) \<Rightarrow> string \<Rightarrow> string
    \<Rightarrow> string list \<Rightarrow> nat \<Rightarrow> bool \<Rightarrow> routing \<Rightarrow> nat \<Rightarrow> nat \<Rightarrow> smt \<Rightarrow> 'f row list \<Rightarrow> nat \<Rightarrow> state_dict option
    \<Rightarrow> 'f mlp_replay rebuild_result \<times> 'f preproc \<times> (nat \<times> state_dict) list \<times> smt \<times> routing \<Rightarrow> bool" where
  "mlp_plan env np t sg pa ca refs seed sign R k m tb ret n resume = (\<lambda>(r, p, ss, tree, R').
     \<exists>w ms. shard_models env np t ret m resume seed = Inr (p, ss)
       \<and> map_of (digests_of ss) (NUM_SLICES env - 1) = Some w \<and> smt_remove tb refs = Inr tree
       \<and> issue_all env sg sign (certificate_fields env (config_digest env np) ''shard'' k m w pa ca tree) tree refs = Inr ms
       \<and> fold_res routing_pop refs R = Inr R'
       \<and> r = \<lparr>res_shard = k, resumed_from = resumed_text m, rows_purged = n,
               slices_retrained = [m..<NUM_SLICES env], result_weights = w, manifests = ms,
               replay = \<lparr>replay_records = ret, replay_from = m, replay_state = resume, replay_seed = seed\<rparr>\<rparr>)"

definition mlp_reads ::
  "('f, 'z) env_scheme \<Rightarrow> string list \<Rightarrow> ('f, 't) disk
    \<Rightarrow> routing \<times> nat \<times> nat \<times> smt \<times> 'f row list \<times> nat \<times> state_dict option \<Rightarrow> bool" where
  "mlp_reads env refs d = (\<lambda>(R, k, m, tb, ret, n, resume). refs \<noteq> [] \<and> (\<exists>rows.
     routing_json d = Some R \<and> batch_target R refs = Inr (k, m) \<and> shard_npz d k = Some rows
     \<and> tree_for_shard (tree_caches d) k (map row_ref rows) = Inr tb \<and> purge_all rows refs = Inr (ret, n)
     \<and> resume = resume_point env d k m \<and> (0 < m \<longrightarrow> resume \<noteq> None)))"

definition mlp_writes ::
  "('f, 'z) env_scheme \<Rightarrow> nat \<Rightarrow> 'f row list \<Rightarrow> 'f preproc \<Rightarrow> (nat \<times> state_dict) list \<Rightarrow> smt \<Rightarrow> routing
    \<Rightarrow> ('f, 't) disk \<Rightarrow> ('f, 't) disk" where
  "mlp_writes env k ret p ss tree R' d =
     d\<lparr>shard_npz := (shard_npz d)(k \<mapsto> ret),
       preproc_json := (preproc_json d)((CHECKPOINT_DIR env, k) \<mapsto> p),
       checkpoint_pt := write_states (CHECKPOINT_DIR env) k ss (checkpoint_pt d),
       tree_caches := cache_tree (tree_caches d) k tree, routing_json := Some R'\<rparr>"

lemma rebuild_iff:
  "rebuild_batch_by_ref env np t sg pa ca refs seed sign d = (Inr r, d') \<longleftrightarrow>
   (\<exists>R k m tb ret n resume p ss tree R'. mlp_reads env refs d (R, k, m, tb, ret, n, resume)
     \<and> mlp_plan env np t sg pa ca refs seed sign R k m tb ret n resume (r, p, ss, tree, R')
     \<and> d' = mlp_writes env k ret p ss tree R' d)"
  (is "?l \<longleftrightarrow> ?r")
proof -
  note simps = io_simps certify_iff train_shard_iff load_routing_def load_shard_def save_shard_def load_resume_iff
    final_weights_iff
  note defs = mlp_reads_def mlp_plan_def mlp_writes_def
  show ?thesis
  proof
    assume ?l
    then show ?r unfolding rebuild_batch_by_ref_def
      apply (clarsimp simp only: simps split_paired_Ex prod.case)
      unfolding defs prod.case
      apply fastforce
      done
  next
    assume ?r
    then show ?l unfolding defs rebuild_batch_by_ref_def
      by (auto simp: simps)
  qed
qed

section \<open>Rows and routing after a batch\<close>

lemma purge_step_iff:
  "purge_step ref s = Inr s' \<longleftrightarrow>
   (\<exists>r\<in>set (fst s). row_ref r = ref) \<and> s' = (filter (\<lambda>r. row_ref r \<noteq> ref) (fst s), snd s + length (filter (\<lambda>r. row_ref r = ref) (fst s)))"
  by (auto simp: purge_step_def purge_def Let_def filter_empty_conv)

lemma purge_all_dest:
  "fold_res purge_step refs s = Inr s' \<Longrightarrow>
   distinct refs \<and> fst s' = filter (\<lambda>r. row_ref r \<notin> set refs) (fst s) \<and> snd s' + length (fst s') = snd s + length (fst s)
   \<and> (\<forall>ref\<in>set refs. \<exists>r\<in>set (fst s). row_ref r = ref)"
proof (induction refs arbitrary: s)
  case (Cons ref refs)
  let ?s1 = "(filter (\<lambda>r. row_ref r \<noteq> ref) (fst s), snd s + length (filter (\<lambda>r. row_ref r = ref) (fst s)))"
  from Cons.prems have hit: "\<exists>r\<in>set (fst s). row_ref r = ref" and rest: "fold_res purge_step refs ?s1 = Inr s'"
    by (auto simp: res_simps purge_step_iff)
  note IH = Cons.IH [OF rest]
  have "ref \<notin> set refs" using IH by auto
  moreover have "length (filter (\<lambda>r. row_ref r \<noteq> ref) (fst s)) + length (filter (\<lambda>r. row_ref r = ref) (fst s)) = length (fst s)"
    by (induction "fst s") (use sum_length_filter_compl [of "\<lambda>r. row_ref r = ref"] in \<open>auto simp: add.commute\<close>)
  moreover have "filter (\<lambda>r. row_ref r \<notin> set refs) (filter (\<lambda>r. row_ref r \<noteq> ref) (fst s)) = filter (\<lambda>r. row_ref r \<notin> set (ref # refs)) (fst s)"
    by (auto simp: conj_commute)
  ultimately show ?case using IH hit by (auto simp: conj_commute)
qed simp

lemma purge_all_ok:
  assumes "purge_all rows refs = Inr (ret, n)"
  shows "distinct refs" "ret = filter (\<lambda>r. row_ref r \<notin> set refs) rows" "n + length ret = length rows"
    "\<And>ref. ref \<in> set refs \<Longrightarrow> \<exists>r\<in>set rows. row_ref r = ref"
  using purge_all_dest [OF assms [unfolded purge_all_def]] by auto

lemma purge_all_total:
  "distinct refs \<Longrightarrow> (\<And>ref. ref \<in> set refs \<Longrightarrow> \<exists>r\<in>set (fst s). row_ref r = ref) \<Longrightarrow> \<exists>s'. fold_res purge_step refs s = Inr s'"
proof (induction refs arbitrary: s)
  case (Cons ref refs)
  let ?s1 = "(filter (\<lambda>r. row_ref r \<noteq> ref) (fst s), snd s + length (filter (\<lambda>r. row_ref r = ref) (fst s)))"
  have "purge_step ref s = Inr ?s1" using Cons.prems(2) [of ref] by (simp add: purge_step_iff)
  moreover have "\<exists>s'. fold_res purge_step refs ?s1 = Inr s'"
  proof (rule Cons.IH)
    fix q assume q: "q \<in> set refs"
    with Cons.prems(1) have "q \<noteq> ref" by auto
    with Cons.prems(2) [of q] q show "\<exists>r\<in>set (fst ?s1). row_ref r = q" by auto
  qed (use Cons.prems(1) in simp)
  ultimately show ?case by simp
qed simp

lemma map_of_filter_fst: "map_of (filter (\<lambda>p. P (fst p)) xs) k = (if P k then map_of xs k else None)"
  by (induction xs) auto

lemma routing_pop_iff:
  "routing_pop ref R = Inr R' \<longleftrightarrow> map_of R ref \<noteq> None \<and> R' = filter (\<lambda>p. fst p \<noteq> ref) R"
  by (auto simp: routing_pop_def)

lemma routing_pops_absent: "fold_res routing_pop refs R = Inr R' \<Longrightarrow> map_of R ref = None \<Longrightarrow> ref \<notin> set refs"
proof (induction refs arbitrary: R)
  case (Cons q refs)
  from Cons.prems have q: "map_of R q \<noteq> None" "fold_res routing_pop refs (filter (\<lambda>p. fst p \<noteq> q) R) = Inr R'"
    by (auto simp: res_simps routing_pop_iff)
  moreover have "map_of (filter (\<lambda>p. fst p \<noteq> q) R) ref = None"
    using Cons.prems(2) by (simp add: map_of_filter_fst [where P = "\<lambda>k. k \<noteq> q"])
  ultimately show ?case using Cons.IH Cons.prems(2) by auto
qed simp

lemma routing_pops_dest:
  "fold_res routing_pop refs R = Inr R' \<Longrightarrow> distinct refs \<and> R' = filter (\<lambda>p. fst p \<notin> set refs) R"
proof (induction refs arbitrary: R)
  case (Cons ref refs)
  from Cons.prems have "fold_res routing_pop refs (filter (\<lambda>p. fst p \<noteq> ref) R) = Inr R'"
    by (auto simp: res_simps routing_pop_iff)
  note IH = Cons.IH [OF this]
  moreover have "ref \<notin> set refs"
    by (rule routing_pops_absent [OF \<open>fold_res routing_pop refs (filter (\<lambda>p. fst p \<noteq> ref) R) = Inr R'\<close>])
      (simp add: map_of_filter_fst [where P = "\<lambda>k. k \<noteq> ref"])
  moreover have "filter (\<lambda>p. fst p \<notin> set refs) (filter (\<lambda>p. fst p \<noteq> ref) R) = filter (\<lambda>p. fst p \<notin> set (ref # refs)) R"
    by (auto simp: conj_commute)
  ultimately show ?case by simp
qed simp

lemma routing_pops_total:
  "distinct refs \<Longrightarrow> (\<And>ref. ref \<in> set refs \<Longrightarrow> map_of R ref \<noteq> None) \<Longrightarrow> \<exists>R'. fold_res routing_pop refs R = Inr R'"
proof (induction refs arbitrary: R)
  case (Cons ref refs)
  have "\<exists>R'. fold_res routing_pop refs (filter (\<lambda>p. fst p \<noteq> ref) R) = Inr R'"
    by (rule Cons.IH) (use Cons.prems in \<open>auto simp: map_of_filter_fst [where P = "\<lambda>k. k \<noteq> ref"]\<close>)
  with Cons.prems(2) [of ref] show ?case by (auto simp: res_simps routing_pop_iff)
qed simp

lemma batch_target_dest:
  assumes "batch_target R refs = Inr (k, m)"
  shows "ref \<in> set refs \<Longrightarrow> \<exists>en. map_of R ref = Some en \<and> e_shard en = k \<and> m \<le> min_slice_idx en"
proof -
  assume ref: "ref \<in> set refs"
  let ?es = "map (\<lambda>r. the (map_of R r)) refs"
  from assms have some: "\<forall>ref\<in>set refs. map_of R ref \<noteq> None" and one: "length (remdups (map e_shard ?es)) = 1"
    and k: "k = hd (remdups (map e_shard ?es))" and m: "m = Min (set (map min_slice_idx ?es))"
    by (auto simp: batch_target_def Let_def split: if_splits)
  from some ref obtain en where en: "map_of R ref = Some en" by auto
  from one obtain s where "remdups (map e_shard ?es) = [s]" by (auto simp: length_Suc_conv)
  then have "set (map e_shard ?es) = {s}" and "k = s" using k set_remdups [of "map e_shard ?es"] by simp_all
  with ref en have "e_shard en = k" by (force simp: image_iff set_eq_iff)
  moreover have "m \<le> min_slice_idx en" unfolding m using ref en by (intro Min_le) (force simp: image_iff)+
  ultimately show ?thesis using en by blast
qed

section \<open>Deployments that differ in one subject's data\<close>

definition row_sim :: "string \<Rightarrow> 'f row \<Rightarrow> 'f row \<Rightarrow> bool" where
  "row_sim e r r' \<longleftrightarrow> row_ref r = row_ref r' \<and> slice_idx r = slice_idx r' \<and> (row_ref r \<noteq> e \<longrightarrow> r = r')"

definition clean_upto :: "string \<Rightarrow> nat \<Rightarrow> 'f row list \<Rightarrow> bool" where
  "clean_upto e i rows = list_all (\<lambda>r. row_ref r = e \<longrightarrow> i < slice_idx r) rows"

definition clean_at :: "string \<Rightarrow> nat \<Rightarrow> ('f, 't) disk \<Rightarrow> nat \<Rightarrow> bool" where
  "clean_at e i d k = (case shard_npz d k of None \<Rightarrow> True | Some rows \<Rightarrow> clean_upto e i rows)"

text \<open>The same routing table and tree cache; the same rows, up to the values of \<open>e\<close>'s.\<close>

definition files_agree :: "string \<Rightarrow> ('f, 't) disk \<Rightarrow> ('f, 't) disk \<Rightarrow> bool" where
  "files_agree e d d' \<longleftrightarrow> routing_json d = routing_json d' \<and> tree_caches d = tree_caches d'
     \<and> (\<forall>k. rel_option (list_all2 (row_sim e)) (shard_npz d k) (shard_npz d' k))"

text \<open>The rows of a reference are in the shard its entry names, from its rollback slice on.\<close>

definition aligned :: "('f, 't) disk \<Rightarrow> bool" where
  "aligned d \<longleftrightarrow> (\<forall>R k rows. routing_json d = Some R \<longrightarrow> shard_npz d k = Some rows \<longrightarrow>
     list_all (\<lambda>r. case map_of R (row_ref r) of None \<Rightarrow> False
                 | Some en \<Rightarrow> e_shard en = k \<and> min_slice_idx en \<le> slice_idx r) rows)"

lemma sim_refs: "list_all2 (row_sim e) rows rows' \<Longrightarrow> map row_ref rows = map row_ref rows'"
  by (induction rule: list_all2_induct) (auto simp: row_sim_def)

lemma sim_filter_ref:
  "list_all2 (row_sim e) rows rows' \<Longrightarrow>
   list_all2 (row_sim e) (filter (\<lambda>r. P (row_ref r) (slice_idx r)) rows) (filter (\<lambda>r. P (row_ref r) (slice_idx r)) rows')"
proof (induction rule: list_all2_induct)
  case (Cons x xs y ys)
  then have "row_ref x = row_ref y" "slice_idx x = slice_idx y" unfolding row_sim_def by simp_all
  with Cons show ?case by (cases "P (row_ref y) (slice_idx y)") simp_all
qed simp

lemma sim_without: "list_all2 (row_sim e) rows rows' \<Longrightarrow> \<forall>r\<in>set rows. row_ref r \<noteq> e \<Longrightarrow> rows = rows'"
proof (induction rule: list_all2_induct)
  case (Cons x xs y ys)
  then have "x = y" "xs = ys" unfolding row_sim_def by simp_all
  then show ?case by simp
qed simp

lemma sim_upto:
  assumes "list_all2 (row_sim e) rows rows'" "clean_upto e i rows" "j \<le> i"
  shows "upto_slice j rows = upto_slice j rows'"
proof (rule sim_without [where e = e])
  show "list_all2 (row_sim e) (upto_slice j rows) (upto_slice j rows')"
    unfolding upto_slice_def by (rule sim_filter_ref [OF assms(1), where P = "\<lambda>_ s. s \<le> j"])
  show "\<forall>r\<in>set (upto_slice j rows). row_ref r \<noteq> e"
    using assms(2,3) by (fastforce simp: upto_slice_def clean_upto_def list_all_iff)
qed

lemma fit_upto: "upto_slice 0 rows = upto_slice 0 rows' \<Longrightarrow> fit_preprocessor np rows = fit_preprocessor np rows'"
  by (simp add: fit_preprocessor_def upto_slice_def)

lemma purge_all_sim:
  assumes "list_all2 (row_sim e) rows rows'" "purge_all rows refs = Inr (ret, n)"
  obtains ret' where "purge_all rows' refs = Inr (ret', n)" "list_all2 (row_sim e) ret ret'"
    "e \<in> set refs \<Longrightarrow> ret' = ret"
proof -
  note 1 = purge_all_ok [OF assms(2)]
  have hit: "\<exists>r\<in>set rows'. row_ref r = ref" if "ref \<in> set refs" for ref
    using 1(4) [OF that] sim_refs [OF assms(1)] by (metis (no_types, lifting) image_iff set_map)
  obtain ret' n' where p: "purge_all rows' refs = Inr (ret', n')"
    using purge_all_total [OF 1(1), of "(rows', 0)"] hit by (auto simp: purge_all_def)
  note 2 = purge_all_ok [OF p]
  have sim: "list_all2 (row_sim e) ret ret'"
    unfolding 1(2) 2(2) by (rule sim_filter_ref [OF assms(1), where P = "\<lambda>q _. q \<notin> set refs"])
  have "n' = n" using 1(3) 2(3) list_all2_lengthD [OF assms(1)] list_all2_lengthD [OF sim] by simp
  moreover have "ret' = ret" if "e \<in> set refs" using sim_without [OF sim] that by (auto simp: 1(2))
  ultimately show thesis using that p sim by blast
qed

subsection \<open>The models of the MLP engine\<close>

definition mlp_agree :: "('f, 'z) env_scheme \<Rightarrow> string \<Rightarrow> ('f, 't) disk \<Rightarrow> ('f, 't) disk \<Rightarrow> bool" where
  "mlp_agree env e d d' \<longleftrightarrow> files_agree e d d'
     \<and> (\<forall>k i. i < NUM_SLICES env \<longrightarrow> clean_at e i d k \<longrightarrow>
          checkpoint_pt d (CHECKPOINT_DIR env, k, i) = checkpoint_pt d' (CHECKPOINT_DIR env, k, i))
     \<and> (\<forall>k. clean_at e 0 d k \<longrightarrow> preproc_json d (CHECKPOINT_DIR env, k) = preproc_json d' (CHECKPOINT_DIR env, k))"

definition mlp_same :: "('f, 'z) env_scheme \<Rightarrow> ('f, 't) disk \<Rightarrow> ('f, 't) disk \<Rightarrow> bool" where
  "mlp_same env d d' \<longleftrightarrow> routing_json d = routing_json d' \<and> tree_caches d = tree_caches d' \<and> shard_npz d = shard_npz d'
     \<and> (\<forall>k i. i < NUM_SLICES env \<longrightarrow> checkpoint_pt d (CHECKPOINT_DIR env, k, i) = checkpoint_pt d' (CHECKPOINT_DIR env, k, i))
     \<and> (\<forall>k. preproc_json d (CHECKPOINT_DIR env, k) = preproc_json d' (CHECKPOINT_DIR env, k))"

lemma plan_last:
  assumes "mlp_plan env np t sg pa ca refs seed sign R k m tb ret n resume (r, p, ss, tree, R')"
  shows "m < NUM_SLICES env" "map fst ss = [m..<NUM_SLICES env]"
proof -
  from assms obtain w where models: "shard_models env np t ret m resume seed = Inr (p, ss)"
      and w: "map_of (digests_of ss) (NUM_SLICES env - 1) = Some w"
    by (auto simp: mlp_plan_def)
  from models show fsts: "map fst ss = [m..<NUM_SLICES env]"
    by (auto simp: shard_models_def res_simps dest: train_states_fst)
  from w have "NUM_SLICES env - 1 \<in> set (map fst ss)"
    by (auto simp: map_of_digests dest!: map_of_SomeD) (force simp: image_iff)
  then show "m < NUM_SLICES env" unfolding fsts by auto
qed

lemma plan_det:
  "mlp_plan env np t sg pa ca refs seed sign R k m tb ret n resume x
    \<Longrightarrow> mlp_plan env np t sg pa ca refs seed sign R k m tb ret n resume y \<Longrightarrow> x = y"
  by (cases x; cases y) (auto simp: mlp_plan_def)

lemma writes_checkpoint:
  "checkpoint_pt (mlp_writes env k ret p ss tree R' d) = write_states (CHECKPOINT_DIR env) k ss (checkpoint_pt d)"
  "preproc_json (mlp_writes env k ret p ss tree R' d) = (preproc_json d)((CHECKPOINT_DIR env, k) \<mapsto> p)"
  "shard_npz (mlp_writes env k ret p ss tree R' d) = (shard_npz d)(k \<mapsto> ret)"
  "routing_json (mlp_writes env k ret p ss tree R' d) = Some R'"
  "tree_caches (mlp_writes env k ret p ss tree R' d) = cache_tree (tree_caches d) k tree"
  by (simp_all add: mlp_writes_def)

lemma writes_lookup:
  assumes "map fst ss = [m..<N]"
  shows "write_states dir k ss f (dir, k', i) = (if k' = k \<and> m \<le> i \<and> i < N then map_of ss i else f (dir, k', i))"
proof (cases "k' = k")
  case True
  have keys: "fst ` set ss = {m..<N}" using assms by (metis atLeastLessThan_upt set_map)
  have "distinct (map fst ss)" unfolding assms by simp
  from write_states_same [OF this] keys True show ?thesis
    by (auto simp: map_of_eq_None_iff split: option.splits)
      (metis atLeastLessThan_iff map_of_eq_None_iff option.simps(3))+
next
  case False
  then show ?thesis by (subst write_states_other) auto
qed

text \<open>What two runs read when they agree.\<close>

lemma reads_sim:
  assumes agree: "mlp_agree env e v w" and wf: "aligned v"
    and reads: "mlp_reads env refs v (R, k, m, tb, ret, n, resume)" and m: "m < NUM_SLICES env"
  obtains rows rows' ret' where "shard_npz v k = Some rows" "shard_npz w k = Some rows'"
    "list_all2 (row_sim e) rows rows'" "list_all2 (row_sim e) ret ret'"
    "ret = filter (\<lambda>r. row_ref r \<notin> set refs) rows" "ret' = filter (\<lambda>r. row_ref r \<notin> set refs) rows'"
    "\<forall>x. mlp_reads env refs w x \<longrightarrow> x = (R, k, m, tb, ret', n, resume_point env w k m)"
    "(0 < m \<longrightarrow> resume_point env w k m \<noteq> None) \<longrightarrow> mlp_reads env refs w (R, k, m, tb, ret', n, resume_point env w k m)"
    "0 < m \<longrightarrow> clean_at e (m - 1) v k \<longrightarrow> resume_point env w k m = resume"
    "e \<in> set refs \<longrightarrow> ret' = ret \<and> (0 < m \<longrightarrow> clean_upto e (m - 1) rows)"
proof -
  from reads obtain rows where r: "refs \<noteq> []" "routing_json v = Some R" "batch_target R refs = Inr (k, m)"
      "shard_npz v k = Some rows" "tree_for_shard (tree_caches v) k (map row_ref rows) = Inr tb"
      "purge_all rows refs = Inr (ret, n)" "resume = resume_point env v k m"
    by (auto simp: mlp_reads_def)
  from agree r(4) obtain rows' where rows': "shard_npz w k = Some rows'" "list_all2 (row_sim e) rows rows'"
    unfolding mlp_agree_def files_agree_def by (metis option.rel_cases option.distinct(1) option.inject)
  obtain ret' where ret': "purge_all rows' refs = Inr (ret', n)" "list_all2 (row_sim e) ret ret'"
      "e \<in> set refs \<longrightarrow> ret' = ret"
    using purge_all_sim [OF rows'(2) r(6)] by metis
  have same: "routing_json w = Some R" "tree_caches w = tree_caches v"
    using agree r(2) by (auto simp: mlp_agree_def files_agree_def)
  have "resume_point env w k m = resume" if "0 < m" "clean_at e (m - 1) v k"
    using agree that m unfolding r(7) resume_point_def mlp_agree_def by auto
  moreover have "clean_upto e (m - 1) rows" if e: "e \<in> set refs" and pos: "0 < m"
  proof -
    obtain en where en: "map_of R e = Some en" "m \<le> min_slice_idx en"
      using batch_target_dest [OF r(3) e] by blast
    then show ?thesis using wf r(2,4) pos by (fastforce simp: aligned_def clean_upto_def list_all_iff)
  qed
  moreover have "mlp_reads env refs w x \<longrightarrow> x = (R, k, m, tb, ret', n, resume_point env w k m)" for x
    using r rows'(1) ret'(1) same sim_refs [OF rows'(2)] by (cases x) (auto simp: mlp_reads_def)
  moreover have "(0 < m \<longrightarrow> resume_point env w k m \<noteq> None) \<longrightarrow> mlp_reads env refs w (R, k, m, tb, ret', n, resume_point env w k m)"
    using r rows'(1) ret'(1) same sim_refs [OF rows'(2)] by (auto simp: mlp_reads_def)
  ultimately show thesis
    using that [OF r(4) rows' ret'(2) purge_all_ok(2) [OF r(6)] purge_all_ok(2) [OF ret'(1)]] ret'(3) by blast
qed

lemma alignedD:
  "aligned d \<Longrightarrow> routing_json d = Some R \<Longrightarrow> shard_npz d k = Some rows \<Longrightarrow> r \<in> set rows
    \<Longrightarrow> \<exists>en. map_of R (row_ref r) = Some en \<and> e_shard en = k \<and> min_slice_idx en \<le> slice_idx r"
  unfolding aligned_def list_all_iff by (fastforce split: option.splits)

lemma alignedI:
  assumes "\<And>R k rows r. routing_json d = Some R \<Longrightarrow> shard_npz d k = Some rows \<Longrightarrow> r \<in> set rows
    \<Longrightarrow> \<exists>en. map_of R (row_ref r) = Some en \<and> e_shard en = k \<and> min_slice_idx en \<le> slice_idx r"
  shows "aligned d"
  unfolding aligned_def list_all_iff
proof (intro allI impI ballI)
  fix R k rows r assume "routing_json d = Some R" "shard_npz d k = Some rows" "r \<in> set rows"
  then show "case map_of R (row_ref r) of None \<Rightarrow> False | Some en \<Rightarrow> e_shard en = k \<and> min_slice_idx en \<le> slice_idx r"
    using assms by fastforce
qed

lemma aligned_agree:
  assumes a: "files_agree e v w" "aligned v"
  shows "aligned w"
proof (rule alignedI)
  fix R k rows' r' assume r': "routing_json w = Some R" "shard_npz w k = Some rows'" "r' \<in> set rows'"
  from a(1) r'(2) obtain rows where rows: "shard_npz v k = Some rows" "list_all2 (row_sim e) rows rows'"
    unfolding files_agree_def by (metis option.rel_cases option.distinct(1) option.inject)
  then obtain r where r: "r \<in> set rows" "row_sim e r r'" using r'(3) by (metis in_set_conv_nth list_all2_conv_all_nth)
  have "routing_json v = Some R" using a(1) r'(1) by (simp add: files_agree_def)
  from alignedD [OF a(2) this rows(1) r(1)] r(2)
  show "\<exists>en. map_of R (row_ref r') = Some en \<and> e_shard en = k \<and> min_slice_idx en \<le> slice_idx r'"
    unfolding row_sim_def by (elim conjE) (simp only:)
qed

text \<open>The alignment of rows and routing after the purge of a batch in shard \<open>k\<close>.\<close>

lemma aligned_purged:
  assumes "aligned d" "routing_json d = Some R" "shard_npz d k = Some rows"
    and "routing_json d' = Some (filter (\<lambda>p. fst p \<notin> set refs) R)" "batch_target R refs = Inr (k, m)"
    and "shard_npz d' = (shard_npz d)(k \<mapsto> filter (\<lambda>r. row_ref r \<notin> set refs) rows)"
  shows "aligned d'"
proof (rule alignedI)
  fix R' k' rows' r assume r: "routing_json d' = Some R'" "shard_npz d' k' = Some rows'" "r \<in> set rows'"
  have R': "R' = filter (\<lambda>p. fst p \<notin> set refs) R" using r(1) assms(4) by simp
  obtain rows0 where rows0: "shard_npz d k' = Some rows0" "r \<in> set rows0"
    using r(2,3) assms(3,6) by (cases "k' = k") auto
  obtain en where en: "map_of R (row_ref r) = Some en" "e_shard en = k'" "min_slice_idx en \<le> slice_idx r"
    using alignedD [OF assms(1,2) rows0] by blast
  have "row_ref r \<notin> set refs"
  proof
    assume in_refs: "row_ref r \<in> set refs"
    with batch_target_dest [OF assms(5)] en have "k' = k" by force
    with r(2,3) assms(6) in_refs show False by auto
  qed
  with en show "\<exists>en. map_of R' (row_ref r) = Some en \<and> e_shard en = k' \<and> min_slice_idx en \<le> slice_idx r"
    by (simp add: R' map_of_filter_fst [where P = "\<lambda>x. x \<notin> set refs"])
qed

lemma plan_routing:
  "mlp_plan env np t sg pa ca refs seed sign R k m tb ret n resume (r, p, ss, tree, R')
    \<Longrightarrow> R' = filter (\<lambda>q. fst q \<notin> set refs) R"
  using routing_pops_dest by (auto simp: mlp_plan_def)

lemma mlp_keeps_aligned:
  assumes "aligned d" "rebuild_batch_by_ref env np t sg pa ca refs seed sign d = (Inr r, d')"
  shows "aligned d'"
proof -
  from assms(2) obtain R k m tb ret n resume p ss tree R' where
      reads: "mlp_reads env refs d (R, k, m, tb, ret, n, resume)"
    and plan: "mlp_plan env np t sg pa ca refs seed sign R k m tb ret n resume (r, p, ss, tree, R')"
    and d': "d' = mlp_writes env k ret p ss tree R' d"
    unfolding rebuild_iff by blast
  from reads obtain rows where r: "routing_json d = Some R" "batch_target R refs = Inr (k, m)"
      "shard_npz d k = Some rows" "purge_all rows refs = Inr (ret, n)"
    by (auto simp: mlp_reads_def)
  show ?thesis
    by (rule aligned_purged [OF assms(1) r(1,3) _ r(2)])
      (simp_all add: d' writes_checkpoint plan_routing [OF plan] purge_all_ok(2) [OF r(4)])
qed

lemma clean_at_upd:
  "shard_npz d' = (shard_npz d)(k \<mapsto> ret) \<Longrightarrow> clean_at e i d' k' = (if k' = k then clean_upto e i ret else clean_at e i d k')"
  by (simp add: clean_at_def)

lemma clean_upto_mono: "clean_upto e i rows \<Longrightarrow> j \<le> i \<Longrightarrow> clean_upto e j rows"
  unfolding clean_upto_def list_all_iff by fastforce

lemma clean_upto_filter:
  "e \<notin> set refs \<Longrightarrow> clean_upto e i (filter (\<lambda>r. row_ref r \<notin> set refs) rows) = clean_upto e i rows"
  by (auto simp: clean_upto_def list_all_iff)

lemma shard_models_fit:
  assumes "shard_models env np t rs m resume seed = Inr (p, ss)" "shard_models env np t rs' m resume' seed = Inr (p', ss')"
    and "list_all2 (row_sim e) rs rs'" "clean_upto e 0 rs"
  shows "p = p'"
proof -
  have "fit_preprocessor np rs = fit_preprocessor np rs'" by (rule fit_upto) (rule sim_upto [OF assms(3,4) order_refl])
  with assms(1,2) show ?thesis by (auto simp: shard_models_def res_simps)
qed

text \<open>The models of the slices that the data of \<open>e\<close> does not reach are the same.\<close>

lemma shard_models_sim:
  assumes 1: "shard_models env np t rs m resume seed = Inr (p, ss)" and 2: "shard_models env np t rs' m resume' seed = Inr (p', ss')"
    and sim: "list_all2 (row_sim e) rs rs'" and clean: "clean_upto e i rs"
    and res: "0 < m \<Longrightarrow> m \<le> i \<Longrightarrow> resume' = resume" and i: "m \<le> i"
  shows "map_of ss i = map_of ss' i"
proof -
  have upto: "upto_slice j rs = upto_slice j rs'" if "j \<le> i" for j by (rule sim_upto [OF sim clean that])
  have fit: "fit_preprocessor np rs = fit_preprocessor np rs'" by (rule fit_upto) (rule upto, simp)
  from 1 obtain g model where g: "enforce_determinism env t seed = Inr g" "fit_preprocessor np rs = Inr p"
      "initial_model t g m resume = Inr model"
      "train_states env np t seed p rs [m..<NUM_SLICES env] (model, adam t (LEARNING_RATE env) model) = Inr ss"
    by (auto simp: shard_models_def res_simps)
  from 2 obtain g' model' where g': "enforce_determinism env t seed = Inr g'" "fit_preprocessor np rs' = Inr p'"
      "initial_model t g' m resume' = Inr model'"
      "train_states env np t seed p' rs' [m..<NUM_SLICES env] (model', adam t (LEARNING_RATE env) model') = Inr ss'"
    by (auto simp: shard_models_def res_simps)
  have eq: "g' = g" "p' = p" using g(1,2) g'(1,2) fit by auto
  have "initial_model t g m resume' = initial_model t g m resume"
    using res i by (cases "m = 0") (simp_all add: initial_model_def)
  with g(3) g'(3) eq have "model' = model" by simp
  then show ?thesis
    using train_states_prefix [OF g(4) g'(4) [unfolded eq \<open>model' = model\<close>]] upto by simp
qed

lemma batch_rows:
  assumes "aligned d" "routing_json d = Some R" "batch_target R refs = Inr (k, m)" "row_ref x \<in> set refs"
    and "shard_npz d k' = Some rows" "x \<in> set rows"
  shows "k' = k \<and> m \<le> slice_idx x"
  using alignedD [OF assms(1,2,5,6)] batch_target_dest [OF assms(3,4)] by auto

lemma files_agree_writes:
  assumes "files_agree e v w" "list_all2 (row_sim e) ret ret'"
  shows "files_agree e (mlp_writes env k ret p ss tree R' v) (mlp_writes env k ret' p' ss' tree R' w)"
  using assms by (simp add: files_agree_def mlp_writes_def)

lemma clean_at_writes:
  "clean_at e i (mlp_writes env k ret p ss tree R' d) k' = (if k' = k then clean_upto e i ret else clean_at e i d k')"
  by (rule clean_at_upd) (simp add: writes_checkpoint)

text \<open>A batch on other subjects: what the data of \<open>e\<close> does not reach stays the same.\<close>

lemma mlp_keeps_other:
  assumes agree: "mlp_agree env e v w" and wf: "aligned v" and e: "e \<notin> set refs"
    and v: "rebuild_batch_by_ref env np t sg pa ca refs seed sign v = (Inr r, v')"
    and w: "rebuild_batch_by_ref env np t sg pa ca refs seed sign w = (Inr s, w')"
  shows "mlp_agree env e v' w'"
proof -
  from v obtain R k m tb ret n resume p ss tree R' where
      reads: "mlp_reads env refs v (R, k, m, tb, ret, n, resume)"
    and plan: "mlp_plan env np t sg pa ca refs seed sign R k m tb ret n resume (r, p, ss, tree, R')"
    and v': "v' = mlp_writes env k ret p ss tree R' v"
    unfolding rebuild_iff by blast
  note last = plan_last [OF plan]
  obtain rows rows' ret' where rows: "shard_npz v k = Some rows" "ret = filter (\<lambda>r. row_ref r \<notin> set refs) rows"
      and sim: "list_all2 (row_sim e) ret ret'"
      and only: "\<forall>x. mlp_reads env refs w x \<longrightarrow> x = (R, k, m, tb, ret', n, resume_point env w k m)"
      and res: "0 < m \<longrightarrow> clean_at e (m - 1) v k \<longrightarrow> resume_point env w k m = resume"
    by (rule reads_sim [OF agree wf reads last(1)])
  from w obtain p' ss' tree' R'' where
      plan': "mlp_plan env np t sg pa ca refs seed sign R k m tb ret' n (resume_point env w k m) (s, p', ss', tree', R'')"
    and w': "w' = mlp_writes env k ret' p' ss' tree' R'' w"
    unfolding rebuild_iff using only by (metis prod.inject)
  have same: "tree' = tree" "R'' = R'" using plan plan' by (auto simp: mlp_plan_def)
  have clean_k: "clean_at e i v k = clean_upto e i ret" for i
    using rows by (simp add: clean_at_def clean_upto_filter [OF e])
  have models: "shard_models env np t ret m resume seed = Inr (p, ss)"
      "shard_models env np t ret' m (resume_point env w k m) seed = Inr (p', ss')"
    using plan plan' by (auto simp: mlp_plan_def)
  have "checkpoint_pt v' (CHECKPOINT_DIR env, k', i) = checkpoint_pt w' (CHECKPOINT_DIR env, k', i)"
    if i: "i < NUM_SLICES env" and clean: "clean_at e i v' k'" for k' i
  proof (cases "k' = k \<and> m \<le> i")
    case True
    then have "clean_upto e i ret" using clean by (simp add: v' clean_at_writes)
    moreover from this have "resume_point env w k m = resume" if "0 < m"
    proof -
      have "clean_upto e (m - 1) ret" by (rule clean_upto_mono [OF \<open>clean_upto e i ret\<close>]) (use True in linarith)
      with res that show ?thesis by (simp add: clean_k)
    qed
    ultimately have "map_of ss i = map_of ss' i"
      using shard_models_sim [OF models sim] True by blast
    with True i show ?thesis
      by (simp add: v' w' writes_checkpoint writes_lookup [OF last(2)] writes_lookup [OF plan_last(2) [OF plan']])
  next
    case False
    then have "clean_at e i v k'" using clean by (cases "k' = k") (simp_all add: v' clean_at_writes clean_k)
    with agree i False show ?thesis
      by (auto simp: v' w' writes_checkpoint writes_lookup [OF last(2)] writes_lookup [OF plan_last(2) [OF plan']] mlp_agree_def)
  qed
  moreover have "preproc_json v' (CHECKPOINT_DIR env, k') = preproc_json w' (CHECKPOINT_DIR env, k')" if "clean_at e 0 v' k'" for k'
    using that agree shard_models_fit [OF models sim]
    by (cases "k' = k") (auto simp: v' w' writes_checkpoint clean_at_writes mlp_agree_def)
  moreover have "files_agree e v' w'"
    using agree sim unfolding v' w' same by (intro files_agree_writes) (simp_all add: mlp_agree_def)
  ultimately show ?thesis by (simp add: mlp_agree_def)
qed

text \<open>A batch with \<open>e\<close>: the other deployment does exactly the same.\<close>

lemma mlp_erases:
  assumes agree: "mlp_agree env e v w" and wf: "aligned v" and e: "e \<in> set refs"
    and v: "rebuild_batch_by_ref env np t sg pa ca refs seed sign v = (Inr r, v')"
  shows "\<exists>w'. rebuild_batch_by_ref env np t sg pa ca refs seed sign w = (Inr r, w') \<and> mlp_same env v' w' \<and> mlp_agree env e v' w'"
proof -
  from v obtain R k m tb ret n resume p ss tree R' where
      reads: "mlp_reads env refs v (R, k, m, tb, ret, n, resume)"
    and plan: "mlp_plan env np t sg pa ca refs seed sign R k m tb ret n resume (r, p, ss, tree, R')"
    and v': "v' = mlp_writes env k ret p ss tree R' v"
    unfolding rebuild_iff by blast
  note last = plan_last [OF plan]
  obtain rows rows' ret' where rows: "shard_npz v k = Some rows" "ret = filter (\<lambda>r. row_ref r \<notin> set refs) rows"
      and only: "(0 < m \<longrightarrow> resume_point env w k m \<noteq> None) \<longrightarrow> mlp_reads env refs w (R, k, m, tb, ret', n, resume_point env w k m)"
      and res: "0 < m \<longrightarrow> clean_at e (m - 1) v k \<longrightarrow> resume_point env w k m = resume"
      and ee: "e \<in> set refs \<longrightarrow> ret' = ret \<and> (0 < m \<longrightarrow> clean_upto e (m - 1) rows)"
    by (rule reads_sim [OF agree wf reads last(1)])
  have point: "resume_point env w k m = resume"
  proof (cases "0 < m")
    case True
    with ee e rows(1) have "clean_at e (m - 1) v k" by (simp add: clean_at_def)
    with res True show ?thesis by blast
  next
    case False
    with reads show ?thesis by (auto simp: mlp_reads_def resume_point_def)
  qed
  have "0 < m \<longrightarrow> resume \<noteq> None" using reads by (auto simp: mlp_reads_def)
  with only ee e point have reads': "mlp_reads env refs w (R, k, m, tb, ret, n, resume)" by simp
  define w' where "w' = mlp_writes env k ret p ss tree R' w"
  have run: "rebuild_batch_by_ref env np t sg pa ca refs seed sign w = (Inr r, w')"
    unfolding rebuild_iff using reads' plan w'_def by blast
  have R: "routing_json v = Some R" "batch_target R refs = Inr (k, m)" using reads by (auto simp: mlp_reads_def)
  have elsewhere: "clean_at e i v k'" if "k' \<noteq> k" for i k'
  proof -
    have "row_ref x \<noteq> e" if "shard_npz v k' = Some rows1" "x \<in> set rows1" for rows1 x
      using batch_rows [OF wf R _ that] e \<open>k' \<noteq> k\<close> by auto
    then show ?thesis by (auto simp: clean_at_def clean_upto_def list_all_iff split: option.split)
  qed
  have early: "clean_at e i v k" if "i < m" for i
    using ee e that rows(1) by (auto simp: clean_at_def intro: clean_upto_mono)
  have ckpt: "checkpoint_pt v' (CHECKPOINT_DIR env, k', i) = checkpoint_pt w' (CHECKPOINT_DIR env, k', i)" if "i < NUM_SLICES env" for k' i
    using agree that elsewhere [of k' i] early [of i]
    by (cases "k' = k") (auto simp: v' w'_def writes_checkpoint writes_lookup [OF last(2)] mlp_agree_def)
  have pre: "preproc_json v' (CHECKPOINT_DIR env, k') = preproc_json w' (CHECKPOINT_DIR env, k')" for k'
    using agree elsewhere [of k' 0] by (cases "k' = k") (auto simp: v' w'_def writes_checkpoint mlp_agree_def)
  have files: "files_agree e v' w'"
    unfolding v' w'_def using agree
    by (intro files_agree_writes) (auto simp: mlp_agree_def list_all2_same row_sim_def)
  have "shard_npz v' k' = shard_npz w' k'" for k'
  proof (cases "k' = k")
    case False
    have "rel_option (list_all2 (row_sim e)) (shard_npz v k') (shard_npz w k')" using agree by (simp add: mlp_agree_def files_agree_def)
    moreover have "\<forall>x\<in>set rows1. row_ref x \<noteq> e" if "shard_npz v k' = Some rows1" for rows1
      using batch_rows [OF wf R _ that] e False by auto
    ultimately have "shard_npz v k' = shard_npz w k'"
      by (cases "shard_npz v k'"; cases "shard_npz w k'") (auto dest: sim_without)
    with False show ?thesis by (simp add: v' w'_def writes_checkpoint)
  qed (simp add: v' w'_def writes_checkpoint)
  then have "mlp_same env v' w'" using ckpt pre files by (auto simp: mlp_same_def files_agree_def)
  moreover have "mlp_agree env e v' w'" using ckpt pre files by (simp add: mlp_agree_def)
  ultimately show ?thesis using run by blast
qed

lemma mlp_same_step:
  assumes same: "mlp_same env v w" and v: "rebuild_batch_by_ref env np t sg pa ca refs seed sign v = (Inr r, v')"
  shows "\<exists>w'. rebuild_batch_by_ref env np t sg pa ca refs seed sign w = (Inr r, w') \<and> mlp_same env v' w'"
proof -
  from v obtain R k m tb ret n resume p ss tree R' where
      reads: "mlp_reads env refs v (R, k, m, tb, ret, n, resume)"
    and plan: "mlp_plan env np t sg pa ca refs seed sign R k m tb ret n resume (r, p, ss, tree, R')"
    and v': "v' = mlp_writes env k ret p ss tree R' v"
    unfolding rebuild_iff by blast
  note last = plan_last [OF plan]
  have "resume_point env w k m = resume_point env v k m" using same last(1) by (auto simp: resume_point_def mlp_same_def)
  with reads same have "mlp_reads env refs w (R, k, m, tb, ret, n, resume)" by (auto simp: mlp_reads_def mlp_same_def)
  with plan have "rebuild_batch_by_ref env np t sg pa ca refs seed sign w = (Inr r, mlp_writes env k ret p ss tree R' w)"
    unfolding rebuild_iff by blast
  moreover have "mlp_same env v' (mlp_writes env k ret p ss tree R' w)"
    using same by (auto simp: mlp_same_def v' writes_checkpoint writes_lookup [OF last(2)])
  ultimately show ?thesis by blast
qed

text \<open>A batch of a history: the two timestamps and the references.\<close>

type_synonym batch = "string \<times> string \<times> string list"

definition batch_refs :: "batch \<Rightarrow> string set" where
  "batch_refs b = set (snd (snd b))"

definition mlp_batch ::
  "('f, 'z) env_scheme \<Rightarrow> 'f numpy \<Rightarrow> ('f, 'o, 'g) torch \<Rightarrow> (bytes \<Rightarrow> bytes \<Rightarrow> bytes) \<Rightarrow> nat \<Rightarrow> bool \<Rightarrow> batch
    \<Rightarrow> (('f, 't) disk, 'f mlp_replay rebuild_result) io" where
  "mlp_batch env np t sg seed sign b =
     rebuild_batch_by_ref env np t sg (fst b) (fst (snd b)) (snd (snd b)) seed sign"

interpretation mlp: erasure_engine "mlp_batch env np t sg seed sign" batch_refs aligned "mlp_agree env" "mlp_same env"
proof
  fix b r e v w v' w' s
  let ?run = "mlp_batch env np t sg seed sign b"
  show "aligned w \<Longrightarrow> ?run w = (Inr r, w') \<Longrightarrow> aligned w'" unfolding mlp_batch_def by (rule mlp_keeps_aligned)
  show "mlp_agree env e v w \<Longrightarrow> aligned v \<Longrightarrow> aligned w" by (auto simp: mlp_agree_def intro: aligned_agree)
  show "mlp_agree env e v w \<Longrightarrow> aligned v \<Longrightarrow> ?run v = (Inr r, v') \<Longrightarrow> ?run w = (Inr s, w') \<Longrightarrow> mlp_agree env e v' w'"
    using mlp_keeps_other [of env e v w] mlp_erases [of env e v w] unfolding mlp_batch_def
    by (cases "e \<in> set (snd (snd b))") fastforce+
  show "mlp_agree env e v w \<Longrightarrow> aligned v \<Longrightarrow> e \<in> batch_refs b \<Longrightarrow> ?run v = (Inr r, v')
      \<Longrightarrow> \<exists>w'. ?run w = (Inr r, w') \<and> mlp_same env v' w'"
    using mlp_erases unfolding mlp_batch_def batch_refs_def by blast
  show "mlp_same env v w \<Longrightarrow> ?run v = (Inr r, v') \<Longrightarrow> \<exists>w'. ?run w = (Inr r, w') \<and> mlp_same env v' w'"
    unfolding mlp_batch_def by (rule mlp_same_step)
qed

section \<open>The certificates of a batch\<close>

definition caches_ok :: "('f, 't) disk \<Rightarrow> bool" where
  "caches_ok d \<longleftrightarrow> (\<forall>k. case tree_caches d k of None \<Rightarrow> True | Some t \<Rightarrow> tree_ok t)"

lemma caches_okD: "caches_ok d \<Longrightarrow> tree_caches d k = Some t \<Longrightarrow> tree_ok t"
  unfolding caches_ok_def by (metis option.simps(5))

lemma certificate_fields_shape:
  "\<exists>rf cd cfg' mv. certificate_fields env cfg vp k m w pa ca tree ref pf
     = manifest_build ref k rf (smt_root tree) pf cd cfg' w mv pa ca"
  unfolding certificate_fields_def by blast

lemma issue_all_map:
  assumes "issue_all env sg sign mk tree refs = Inr ms" "distinct refs" "ref \<in> set refs"
  obtains m where "issue_manifest env sg sign mk tree ref = Inr m" "map_of ms ref = Some m"
proof -
  from assms(1) obtain ps where ps: "map_res (\<lambda>ref. bind_res (issue_manifest env sg sign mk tree ref) (\<lambda>m. Inr (ref, m))) refs = Inr ps"
      "ms = dict_of ps"
    by (auto simp: issue_all_def res_simps)
  note d = map_res_dest [OF ps(1)]
  have fst: "map fst ps = refs"
    by (rule nth_equalityI) (use d in \<open>auto simp: res_simps\<close>, metis fst_conv)
  then have "ms = ps" using ps(2) assms(2) by (simp add: dict_of_distinct)
  from assms(3) obtain i where i: "i < length refs" "refs ! i = ref" by (metis in_set_conv_nth)
  with d obtain m where m: "issue_manifest env sg sign mk tree ref = Inr m" "ps ! i = (ref, m)" by (auto simp: res_simps)
  have "(ref, m) \<in> set ps" using i d m(2) by (metis nth_mem)
  with fst assms(2) have "map_of ps ref = Some m" by (simp add: map_of_is_SomeI)
  with that m(1) \<open>ms = ps\<close> show thesis by simp
qed

text \<open>A signed certificate of the batch is accepted by the standalone verifier.\<close>

lemma issued_manifest_verifies:
  assumes tree: "tree_ok tree" "valid_ref ref"
    and m: "issue_manifest env sg True (certificate_fields env cfg vp k lo w pa ca tree) tree ref = Inr m"
    and key: "signing_key (SIGNING_KEY env) = Inr key" "\<And>b. ed_verify (ed_public key) b (sg key b)" "\<And>b. sg key b \<noteq> []"
  shows "(\<exists>fs. verify_certificate ed_verify (PDict m) (ed_public key) = Inr (True, fs))
     \<and> getitem (PDict m) ''subject_ref'' = Inr (PStr ref) \<and> getitem (PDict m) ''dataset_root'' = Inr (PStr (smt_root tree))
     \<and> getitem (PDict m) ''result_weights'' = Inr (PStr w)"
proof -
  from m obtain pf s where pf: "smt_prove tree ref = Inr pf"
      and s: "sign_manifest sg (SIGNING_KEY env) (PDict (certificate_fields env cfg vp k lo w pa ca tree ref pf)) = Inr s"
      and m': "m = add_signature (certificate_fields env cfg vp k lo w pa ca tree ref pf) s"
    by (auto simp: issue_manifest_def res_simps Let_def)
  obtain rf cd cfg' mv where f: "certificate_fields env cfg vp k lo w pa ca tree ref pf
     = manifest_build ref k rf (smt_root tree) pf cd cfg' w mv pa ca"
    using certificate_fields_shape by blast
  from s [unfolded f] key(1) obtain b where b: "canonical_bytes (PDict (manifest_build ref k rf (smt_root tree) pf cd cfg' w mv pa ca)) = Inr b"
      "s = to_hex (sg key b)"
    by (auto simp: sign_manifest_eq)
  have "\<exists>fs. verify_certificate ed_verify (PDict m) (ed_public key) = Inr (True, fs)"
    unfolding m' f add_signature_manifest b(2)
    by (rule direct_certificate [where ed_verify = ed_verify, OF refl issued_accepts [OF tree pf] b(1)]) (rule key)+
  then show ?thesis unfolding m' f add_signature_manifest by (simp add: manifest_fields del: getitem.simps)
qed

text \<open>Issuing cannot fail over a tree without the references.\<close>

lemma issue_manifest_total:
  assumes tree: "tree_ok tree" "valid_ref ref" "key_of ref \<notin> set (tree_keys tree)"
    and key: "sign \<longrightarrow> (\<exists>key. signing_key (SIGNING_KEY env) = Inr key)"
  shows "\<exists>m. issue_manifest env sg sign (certificate_fields env cfg vp k lo w pa ca tree) tree ref = Inr m"
proof -
  obtain pf where pf: "smt_prove tree ref = Inr pf" by (rule smt_prove_verifies [OF tree])
  then obtain sibs where sibs: "pf = proof_of_siblings sibs" using smt_prove_shape [OF tree(1,2)] by blast
  show ?thesis
  proof (cases sign)
    case True
    with key obtain sk where "signing_key (SIGNING_KEY env) = Inr sk" by blast
    moreover obtain b where "canonical_bytes (PDict (certificate_fields env cfg vp k lo w pa ca tree ref pf)) = Inr b"
      unfolding sibs certificate_fields_def using canonical_manifest_ok by blast
    ultimately have "sign_manifest sg (SIGNING_KEY env) (PDict (certificate_fields env cfg vp k lo w pa ca tree ref pf)) = Inr (to_hex (sg sk b))"
      by (simp add: sign_manifest_def)
    with True pf show ?thesis by (simp add: issue_manifest_def Let_def)
  next
    case False
    with pf show ?thesis by (simp add: issue_manifest_def)
  qed
qed

lemma issue_all_total:
  assumes "tree_ok tree" "list_all valid_ref refs" "\<And>ref. ref \<in> set refs \<Longrightarrow> key_of ref \<notin> set (tree_keys tree)"
    and "sign \<longrightarrow> (\<exists>key. signing_key (SIGNING_KEY env) = Inr key)"
  shows "\<exists>ms. issue_all env sg sign (certificate_fields env cfg vp k lo w pa ca tree) tree refs = Inr ms"
proof -
  have "\<exists>y. bind_res (issue_manifest env sg sign (certificate_fields env cfg vp k lo w pa ca tree) tree ref) (\<lambda>m. Inr (ref, m)) = Inr y"
    if "ref \<in> set refs" for ref
    using issue_manifest_total [OF assms(1) _ assms(3) [OF that] assms(4), of sg cfg vp k lo w pa ca] assms(2) that
    by (auto simp: list_all_iff)
  then have "\<exists>ps. map_res (\<lambda>ref. bind_res (issue_manifest env sg sign (certificate_fields env cfg vp k lo w pa ca tree) tree ref) (\<lambda>m. Inr (ref, m))) refs = Inr ps"
    by (rule map_res_total)
  then show ?thesis by (auto simp: issue_all_def)
qed

text \<open>
  The tree of a batch: it exists, commits to the references that are left, and its root
  is the one of the rows on disk unless the cached tree's fingerprint collides.
\<close>

lemma batch_tree:
  assumes caches: "caches_ok d" and valid: "list_all valid_ref (map row_ref rows)" "list_all valid_ref refs"
    and tb: "tree_for_shard (tree_caches d) k (map row_ref rows) = Inr tb" and tree: "smt_remove tb refs = Inr tree"
  shows "tree_ok tree" "\<And>ref. ref \<in> set refs \<Longrightarrow> key_of ref \<notin> set (tree_keys tree)"
    "build_root (filter (\<lambda>q. key_of q \<notin> key_of ` set refs) (map row_ref rows)) = Inr (smt_root tree)
     \<or> collides (concat (tree_keys tb)) (concat (ref_keys (map row_ref rows)))"
proof -
  obtain tb' where tb': "tree_for_shard (tree_caches d) k (map row_ref rows) = Inr tb'" "tree_ok tb'"
      "tree_keys tb' = ref_keys (map row_ref rows) \<or> collides (concat (tree_keys tb')) (concat (ref_keys (map row_ref rows)))"
    by (rule tree_for_shard_ok [OF valid(1), of "tree_caches d" k]) (use caches_okD [OF caches] in auto)
  with tb have ok: "tree_ok tb" and eq: "tb' = tb" by auto
  have sub: "key_of ` set refs \<subseteq> set (tree_keys tb)"
    using smt_remove_missing [OF ok valid(2)] tree by (cases "key_of ` set refs \<subseteq> set (tree_keys tb)") auto
  obtain t' where t': "smt_remove tb refs = Inr t'" "tree_ok t'" "tree_keys t' = filter (\<lambda>k. k \<notin> key_of ` set refs) (tree_keys tb)"
    by (rule smt_remove_ok [OF ok valid(2) sub])
  with tree show tok: "tree_ok tree" by simp
  from t' tree have keys: "tree_keys tree = filter (\<lambda>k. k \<notin> key_of ` set refs) (tree_keys tb)" by simp
  then show "ref \<in> set refs \<Longrightarrow> key_of ref \<notin> set (tree_keys tree)" for ref by auto
  let ?left = "filter (\<lambda>q. key_of q \<notin> key_of ` set refs) (map row_ref rows)"
  have "build_root ?left = Inr (smt_root tree)" if k: "tree_keys tb = ref_keys (map row_ref rows)"
  proof -
    have "set (tree_keys tree) = set (ref_keys ?left)" unfolding keys k by (rule ref_keys_survivors)
    then have "spec_root 0 (tree_keys tree) = spec_root 0 (ref_keys ?left)"
      using tok by (intro spec_root_set) (auto simp: tree_ok_def wf_keys_def)
    moreover have "list_all valid_ref ?left" using valid(1) by (auto simp: list_all_iff)
    ultimately show ?thesis using tok by (simp add: build_root_spec tree_ok_root)
  qed
  with tb'(3) eq show "build_root ?left = Inr (smt_root tree) \<or> collides (concat (tree_keys tb)) (concat (ref_keys (map row_ref rows)))"
    by blast
qed

section \<open>When a rebuild succeeds\<close>

definition batch_ready :: "('f, 'z) env_scheme \<Rightarrow> bool \<Rightarrow> string list \<Rightarrow> ('f, 't) disk \<Rightarrow> routing \<Rightarrow> nat \<Rightarrow> nat \<Rightarrow> 'f row list \<Rightarrow> bool" where
  "batch_ready env sign refs d R k m rows \<longleftrightarrow>
     refs \<noteq> [] \<and> distinct refs \<and> list_all valid_ref refs \<and> caches_ok d \<and> PYTHONHASHSEED env = Some ''0''
     \<and> (sign \<longrightarrow> (\<exists>key. signing_key (SIGNING_KEY env) = Inr key))
     \<and> routing_json d = Some R \<and> batch_target R refs = Inr (k, m) \<and> shard_npz d k = Some rows \<and> m < NUM_SLICES env
     \<and> list_all (\<lambda>r. valid_ref (row_ref r) \<and> type_idx r < length TYPES) rows
     \<and> set refs \<subseteq> row_ref ` set rows \<and> (\<exists>r\<in>set rows. row_ref r \<notin> set refs \<and> slice_idx r = 0)"

definition cache_collides :: "('f, 't) disk \<Rightarrow> nat \<Rightarrow> bool" where
  "cache_collides d k \<longleftrightarrow> (\<exists>tb rows. tree_caches d k = Some tb \<and> shard_npz d k = Some rows
     \<and> collides (concat (tree_keys tb)) (concat (ref_keys (map row_ref rows))))"

lemma ready_tree:
  assumes "batch_ready env sign refs d R k m rows" "\<not> cache_collides d k"
  obtains tb tree where "tree_for_shard (tree_caches d) k (map row_ref rows) = Inr tb" "smt_remove tb refs = Inr tree"
proof -
  have valid: "list_all valid_ref (map row_ref rows)" "list_all valid_ref refs" and shard: "shard_npz d k = Some rows"
    and sub: "set refs \<subseteq> row_ref ` set rows" and caches: "caches_ok d"
    using assms(1) by (auto simp: batch_ready_def list_all_iff)
  obtain tb where tb: "tree_for_shard (tree_caches d) k (map row_ref rows) = Inr tb" "tree_ok tb"
      "tree_keys tb = ref_keys (map row_ref rows) \<or> collides (concat (tree_keys tb)) (concat (ref_keys (map row_ref rows)))"
    by (rule tree_for_shard_ok [OF valid(1), of "tree_caches d" k]) (use caches_okD [OF caches] in auto)
  have "tree_keys tb = ref_keys (map row_ref rows)"
  proof (rule ccontr)
    assume other: "tree_keys tb \<noteq> ref_keys (map row_ref rows)"
    with tb(3) have c: "collides (concat (tree_keys tb)) (concat (ref_keys (map row_ref rows)))" by blast
    obtain t0 where t0: "smt_init (map row_ref rows) = Inr t0" "tree_keys t0 = ref_keys (map row_ref rows)"
      by (rule smt_init_ok [OF valid(1)])
    have "tree_caches d k = Some tb"
      using tb(1) other t0 by (auto simp: tree_for_shard_def res_simps split: option.splits if_splits)
    with c shard assms(2) show False by (auto simp: cache_collides_def)
  qed
  then have "key_of ` set refs \<subseteq> set (tree_keys tb)" using sub by auto
  then obtain tree where "smt_remove tb refs = Inr tree" by (rule smt_remove_ok [OF tb(2) valid(2)])
  with tb(1) show thesis by (rule that)
qed

lemma ready_finish:
  assumes ready: "batch_ready env sign refs d R k m rows"
    and tb: "tree_for_shard (tree_caches d) k (map row_ref rows) = Inr tb" "smt_remove tb refs = Inr tree"
  shows "\<exists>ms R'. issue_all env sg sign (certificate_fields env cfg vp k lo w pa ca tree) tree refs = Inr ms
     \<and> fold_res routing_pop refs R = Inr R'"
proof -
  have valid: "list_all valid_ref (map row_ref rows)" "list_all valid_ref refs" and caches: "caches_ok d"
    and sign: "sign \<longrightarrow> (\<exists>key. signing_key (SIGNING_KEY env) = Inr key)" and dist: "distinct refs"
    and target: "batch_target R refs = Inr (k, m)"
    using ready by (auto simp: batch_ready_def list_all_iff)
  note bt = batch_tree [OF caches valid tb]
  obtain ms where "issue_all env sg sign (certificate_fields env cfg vp k lo w pa ca tree) tree refs = Inr ms"
    using issue_all_total [OF bt(1) valid(2) bt(2) sign] by blast
  moreover obtain R' where "fold_res routing_pop refs R = Inr R'"
    using routing_pops_total [OF dist] batch_target_dest [OF target] by (metis option.distinct(1))
  ultimately show ?thesis by blast
qed

lemma train_states_total:
  "(\<And>r. r \<in> set rs \<Longrightarrow> type_idx r < length TYPES) \<Longrightarrow> \<exists>ss. train_states env np t seed p rs is mo = Inr ss"
proof (induction "is" arbitrary: mo)
  case (Cons i "is")
  have "\<exists>x. preproc_transform np p (upto_slice i rs) = Inr x"
    unfolding preproc_transform_def by (rule map_res_total) (auto simp: upto_slice_def intro: transform_row_ok Cons.prems)
  then obtain data where data: "slice_data np p rs i = Inr data" by (auto simp: slice_data_def)
  obtain ss where "train_states env np t seed p rs is
      (train_epochs t (BATCH_SIZE env) (EPOCHS_PER_SLICE env) data (manual_seed t (seed + i)) mo) = Inr ss"
    using Cons.IH Cons.prems by blast
  then show ?case by (simp add: data Let_def)
qed simp

definition resumable :: "('f, 'o, 'g) torch \<Rightarrow> nat \<Rightarrow> nat \<Rightarrow> state_dict option \<Rightarrow> bool" where
  "resumable t seed m resume \<longleftrightarrow>
     m = 0 \<or> (\<exists>st model. resume = Some st \<and> load_state_dict (build_model t (manual_seed t seed)) st = Inr model)"

lemma mlp_rebuild_ok:
  assumes ready: "batch_ready env sign refs d R k m rows" and res: "resumable t seed m (resume_point env d k m)"
    and free: "\<not> cache_collides d k"
  shows "\<exists>r d'. rebuild_batch_by_ref env np t sg pa ca refs seed sign d = (Inr r, d')"
proof -
  obtain tb tree where tb: "tree_for_shard (tree_caches d) k (map row_ref rows) = Inr tb" "smt_remove tb refs = Inr tree"
    by (rule ready_tree [OF ready free])
  have basic: "refs \<noteq> []" "distinct refs" "PYTHONHASHSEED env = Some ''0''" "routing_json d = Some R"
      "batch_target R refs = Inr (k, m)" "shard_npz d k = Some rows" "m < NUM_SLICES env" "set refs \<subseteq> row_ref ` set rows"
    using ready by (auto simp: batch_ready_def)
  obtain ret n where p: "purge_all rows refs = Inr (ret, n)"
    using purge_all_total [OF basic(2), of "(rows, 0)"] basic(8) by (fastforce simp: purge_all_def)
  have ret: "ret = filter (\<lambda>r. row_ref r \<notin> set refs) rows" by (rule purge_all_ok(2) [OF p])
  have "filter (\<lambda>r. slice_idx r = 0) ret \<noteq> []" using ready by (auto simp: ret batch_ready_def filter_empty_conv)
  then obtain pre where pre: "fit_preprocessor np ret = Inr pre" by (auto simp: fit_preprocessor_def preproc_fit_def Let_def)
  obtain model where model: "initial_model t (manual_seed t seed) m (resume_point env d k m) = Inr model"
    using res by (cases "m = 0") (auto simp: initial_model_def resumable_def)
  have "type_idx r < length TYPES" if "r \<in> set ret" for r
    using ready that by (auto simp: ret batch_ready_def list_all_iff)
  then obtain ss where ss: "train_states env np t seed pre ret [m..<NUM_SLICES env] (model, adam t (LEARNING_RATE env) model) = Inr ss"
    using train_states_total by blast
  have models: "shard_models env np t ret m (resume_point env d k m) seed = Inr (pre, ss)"
    by (simp add: shard_models_def enforce_determinism_def basic(3) pre model ss)
  have "map_of ss (NUM_SLICES env - 1) \<noteq> None"
    using train_states_fst [OF ss] basic(7) by (auto simp: map_of_eq_None_iff simp flip: set_map)
  then obtain st where st: "map_of ss (NUM_SLICES env - 1) = Some st" by blast
  obtain ms R' where fin: "issue_all env sg sign (certificate_fields env (config_digest env np) ''shard'' k m (state_dict_digest st) pa ca tree) tree refs = Inr ms"
      "fold_res routing_pop refs R = Inr R'"
    using ready_finish [OF ready tb] by blast
  have reads: "mlp_reads env refs d (R, k, m, tb, ret, n, resume_point env d k m)"
    using basic tb(1) p res by (auto simp: mlp_reads_def resumable_def)
  show ?thesis
    unfolding rebuild_iff mlp_plan_def using reads models st tb(2) fin by (fastforce simp: map_of_digests)
qed

section \<open>A small deployment\<close>

text \<open>
  Two subjects in one shard of two slices; the second, \<open>erin\<close>, is in slice 1 and her
  amounts are \<open>v\<close>. The libraries are simple computable functions.
\<close>

definition adam_ref :: string where "adam_ref = to_hex (replicate 32 1)"
definition erin :: string where "erin = to_hex (replicate 32 2)"

definition small_env :: "int env" where
  "small_env = \<lparr>NUM_SHARDS = 5, HOT_SHARDS = 2, NUM_SLICES = 2, SEED = 1337, TENANT_ID = ''dev'',
     TENANT_KEY = [], CODE_DIGEST = ''dev'', HOT_THRESHOLD = 6, EPOCHS_PER_SLICE = 1, BATCH_SIZE = 256,
     LEARNING_RATE = 1, CHECKPOINT_DIR = ''checkpoints'', TREES_PER_SLICE = 1, PYTHONHASHSEED = Some ''0'',
     SIGNING_KEY = Some (to_hex (replicate 32 9))\<rparr>"

definition small_np :: "int numpy" where
  "small_np = \<lparr>np_log1p = (\<lambda>x. x), np_mean = sum_list, np_std = (\<lambda>_. 0), np_less = (<), np_sub = (-), np_div = (div),
     np_float32 = (\<lambda>x. x), np_of_int = (\<lambda>x. x), np_lit = (\<lambda>_. 1), np_add = (+), np_mul = (*), np_maximum = max,
     np_minimum = min, np_beta = (\<lambda>_ n. replicate n 0), float_repr = int_dec\<rparr>"

definition small_torch :: "(int, unit, nat) torch" where
  "small_torch = \<lparr>manual_seed = (\<lambda>s. s), build_model = (\<lambda>_. [(''0.weight'', [1])]), adam = (\<lambda>_ _. ()),
     shuffled_batches = (\<lambda>_ data g. ([data], g)),
     adam_step = (\<lambda>batch (sd, u). (map (\<lambda>(k, w). (k, map (\<lambda>b. b + word_of_int (sum_list (map (sum_list \<circ> fst) batch))) w)) sd, u)),
     forward = (\<lambda>_ _. 0), sigmoid = (\<lambda>x. x)\<rparr>"

definition small_row :: "string \<Rightarrow> nat \<Rightarrow> int \<Rightarrow> int row" where
  "small_row ref i v = \<lparr>t_step = 1, t_amount = v, t_oldbalanceOrg = 1, t_newbalanceOrig = 1, t_oldbalanceDest = 1,
     t_newbalanceDest = 1, type_idx = 0, isFraud = 0, row_ref = ref, slice_idx = i\<rparr>"

definition small_entry :: "nat \<Rightarrow> entry" where
  "small_entry i = \<lparr>tenant_id = ''dev'', e_shard = 0, min_slice_idx = i, record_count = 1\<rparr>"

definition small_rows :: "int \<Rightarrow> int row list" where
  "small_rows v = [small_row adam_ref 0 7, small_row erin 1 v]"

definition small_routing :: routing where
  "small_routing = [(adam_ref, small_entry 0), (erin, small_entry 1)]"

definition small_disk :: "int \<Rightarrow> (int, int) disk" where
  "small_disk v = \<lparr>routing_json = Some small_routing, shard_npz = (\<lambda>k. if k = 0 then Some (small_rows v) else None),
     checkpoint_pt = (\<lambda>(dir, k, i). if k = 0 \<and> i = 0 then Some [(''0.weight'', [5])]
        else if k = 0 \<and> i = 1 then Some [(''0.weight'', [word_of_int v])] else None),
     preproc_json = (\<lambda>_. None), gbdt_json = (\<lambda>k. if k = 0 then Some [1, v] else None), cas_file = (\<lambda>_. None),
     tree_caches = (\<lambda>_. None)\<rparr>"

lemma small_refs [simp]: "valid_ref adam_ref" "valid_ref erin" "adam_ref \<noteq> erin" "erin \<noteq> adam_ref"
  by (auto simp: adam_ref_def erin_def replicate_eq_replicate)

lemma small_row_simps [simp]:
  "row_ref (small_row ref i v) = ref" "slice_idx (small_row ref i v) = i" "type_idx (small_row ref i v) = 0"
  by (simp_all add: small_row_def)

lemma small_disk_simps [simp]:
  "routing_json (small_disk v) = Some small_routing" "tree_caches (small_disk v) = (\<lambda>_. None)"
  "shard_npz (small_disk v) k = (if k = 0 then Some (small_rows v) else None)"
  "gbdt_json (small_disk v) k = (if k = 0 then Some [1, v] else None)"
  by (simp_all add: small_disk_def)

lemma small_target: "batch_target small_routing [erin] = Inr (0, 1)"
  by (simp add: batch_target_def small_routing_def small_entry_def)

lemma small_aligned: "aligned (small_disk v)"
  by (auto simp: aligned_def small_rows_def small_routing_def small_entry_def split: if_splits)

lemma small_files_agree: "files_agree erin (small_disk v) (small_disk w)"
  by (simp add: files_agree_def small_rows_def row_sim_def)

lemma small_clean: "clean_at erin i (small_disk v) k \<longleftrightarrow> k = 0 \<longrightarrow> i = 0"
  by (auto simp: clean_at_def clean_upto_def small_rows_def)

lemma small_agree: "mlp_agree small_env erin (small_disk v) (small_disk w)"
  by (simp add: mlp_agree_def small_files_agree small_clean) (simp add: small_disk_def)

lemma small_ready: "batch_ready small_env True [erin] (small_disk v) small_routing 0 1 (small_rows v)"
proof -
  have "signing_key (SIGNING_KEY small_env) = Inr (replicate 32 9)"
    unfolding small_env_def by (simp add: signing_key_hex)
  then show ?thesis
    by (simp add: batch_ready_def small_target caches_ok_def small_rows_def TYPES_def) (simp add: small_env_def)
qed

lemma small_resumable: "resumable small_torch 1337 1 (resume_point small_env (small_disk v) 0 1)"
  by (simp add: resumable_def resume_point_def small_disk_def small_torch_def load_state_dict_def)

lemma small_rebuild:
  "\<exists>r d'. rebuild_batch_by_ref small_env small_np small_torch sg pa ca [erin] 1337 True (small_disk v) = (Inr r, d')"
  by (rule mlp_rebuild_ok [OF small_ready small_resumable]) (simp add: cache_collides_def)

lemma small_batch:
  "\<exists>r d'. mlp_batch small_env small_np small_torch sg 1337 True (pa, ca, [erin]) (small_disk v) = (Inr r, d')"
  using small_rebuild by (simp add: mlp_batch_def)

lemma batch_certificates:
  assumes caches: "caches_ok d" and rows: "shard_npz d (res_shard r) = Some rows" "list_all (\<lambda>q. valid_ref (row_ref q)) rows"
    and refs: "list_all valid_ref refs" and tb: "tree_for_shard (tree_caches d) (res_shard r) (map row_ref rows) = Inr tb"
    and tree: "smt_remove tb refs = Inr tree"
    and ms: "issue_all env sg True (certificate_fields env cfg vp k lo (result_weights r) pa ca tree) tree refs = Inr (manifests r)"
    and dist: "distinct refs" and ref: "ref \<in> set refs"
    and key: "signing_key (SIGNING_KEY env) = Inr key" "\<And>b. ed_verify (ed_public key) b (sg key b)" "\<And>b. sg key b \<noteq> []"
  shows "\<exists>m fs root. map_of (manifests r) ref = Some m \<and> verify_certificate ed_verify (PDict m) (ed_public key) = Inr (True, fs)
     \<and> getitem (PDict m) ''subject_ref'' = Inr (PStr ref) \<and> getitem (PDict m) ''dataset_root'' = Inr (PStr root)
     \<and> getitem (PDict m) ''result_weights'' = Inr (PStr (result_weights r))
     \<and> (build_root (filter (\<lambda>q. key_of q \<notin> key_of ` set refs) (map row_ref rows)) = Inr root \<or> cache_collides d (res_shard r))"
proof -
  have valid: "list_all valid_ref (map row_ref rows)" using rows(2) by (simp add: list_all_iff)
  note bt = batch_tree [OF caches valid refs tb tree]
  have coll: "cache_collides d (res_shard r)" if "collides (concat (tree_keys tb)) (concat (ref_keys (map row_ref rows)))"
  proof -
    obtain t0 where t0: "smt_init (map row_ref rows) = Inr t0" "tree_keys t0 = ref_keys (map row_ref rows)"
      by (rule smt_init_ok [OF valid])
    have "tree_caches d (res_shard r) = Some tb"
      using tb that t0 by (auto simp: tree_for_shard_def res_simps collides_def split: option.splits if_splits)
    with that rows(1) show ?thesis by (auto simp: cache_collides_def)
  qed
  obtain m where m: "issue_manifest env sg True (certificate_fields env cfg vp k lo (result_weights r) pa ca tree) tree ref = Inr m"
      "map_of (manifests r) ref = Some m"
    by (rule issue_all_map [OF ms dist ref])
  have "valid_ref ref" using refs ref by (simp add: list_all_iff)
  from issued_manifest_verifies [where ed_verify = ed_verify and ed_public = ed_public, OF bt(1) this m(1) key] m(2) bt(3) coll show ?thesis by blast
qed

section \<open>Properties\<close>

text \<open>
  C2 Erasure by the MLP engine. Take two deployments that differ only in the values of
  the rows of subject \<open>e\<close> and in the models those rows reach. Whatever batches run first,
  from the batch that erases \<open>e\<close> on the two behave identically: the same results
  (weights, certificates, replay data) and the same files. Nothing that remains depends
  on the erased data.
\<close>

theorem mlp_erasure_noninterference:
  assumes "mlp_agree env e v w" "aligned v"
    and "run_batches (mlp_batch env np t sg seed sign) earlier v = (Inr rs, v1)"
    and "run_batches (mlp_batch env np t sg seed sign) earlier w = (Inr ss, w1)"
    and "e \<in> batch_refs b" "run_batches (mlp_batch env np t sg seed sign) (b # later) v1 = (Inr out, v2)"
  shows "\<exists>w2. run_batches (mlp_batch env np t sg seed sign) (b # later) w1 = (Inr out, w2) \<and> mlp_same env v2 w2"
  by (rule mlp.erased_for_good [OF assms])

theorem mlp_erasure_noninterference_witness:
  "\<exists>out v2 w2. run_batches (mlp_batch small_env small_np small_torch (\<lambda>k b. k) 1337 True) [([], [], [erin])] (small_disk 3) = (Inr out, v2)
     \<and> run_batches (mlp_batch small_env small_np small_torch (\<lambda>k b. k) 1337 True) [([], [], [erin])] (small_disk 4) = (Inr out, w2)
     \<and> mlp_same small_env v2 w2"
proof -
  obtain r v2 where "mlp_batch small_env small_np small_torch (\<lambda>k b. k) 1337 True ([], [], [erin]) (small_disk 3) = (Inr r, v2)"
    using small_batch by blast
  then have run: "run_batches (mlp_batch small_env small_np small_torch (\<lambda>k b. k) 1337 True) [([], [], [erin])] (small_disk 3) = (Inr [r], v2)"
    by (simp add: io_bind_def io_return_def)
  have none: "run_batches (mlp_batch small_env small_np small_torch (\<lambda>k b. k) 1337 True) [] d = (Inr [], d)" for d :: "(int, int) disk"
    by (simp add: io_return_def)
  from mlp_erasure_noninterference [OF small_agree [of 3 4] small_aligned none none _ run] run show ?thesis
    by (fastforce simp: batch_refs_def)
qed

text \<open>
  The effect of a rebuild: the rows of the batch, and only they, are gone from the
  shard's file; the routing table has lost exactly the batch; the other shards' rows,
  models and preprocessors are untouched, and so are the models of the slices before the
  rollback slice; what is written is the model trained on the retained rows.
\<close>

theorem mlp_rebuild_effect:
  assumes "rebuild_batch_by_ref env np t sg pa ca refs seed sign d = (Inr r, d')"
  shows "case (routing_json d, shard_npz d (res_shard r)) of
     (Some R, Some rows) \<Rightarrow>
       let lo = replay_from (replay r); retained = filter (\<lambda>q. row_ref q \<notin> set refs) rows in
       routing_json d' = Some (filter (\<lambda>p. fst p \<notin> set refs) R)
       \<and> shard_npz d' = (shard_npz d)(res_shard r \<mapsto> retained) \<and> rows_purged r + length retained = length rows
       \<and> (\<exists>p ss. shard_models env np t retained lo (resume_point env d (res_shard r) lo) seed = Inr (p, ss)
           \<and> result_weights r = state_dict_digest (the (map_of ss (NUM_SLICES env - 1)))
           \<and> (\<forall>dir k i. checkpoint_pt d' (dir, k, i) =
                (if dir = CHECKPOINT_DIR env \<and> k = res_shard r \<and> lo \<le> i \<and> i < NUM_SLICES env then map_of ss i
                 else checkpoint_pt d (dir, k, i)))
           \<and> preproc_json d' = (preproc_json d)((CHECKPOINT_DIR env, res_shard r) \<mapsto> p))
   | _ \<Rightarrow> False"
proof -
  from assms obtain R k m tb ret n resume p ss tree R' where
      reads: "mlp_reads env refs d (R, k, m, tb, ret, n, resume)"
    and plan: "mlp_plan env np t sg pa ca refs seed sign R k m tb ret n resume (r, p, ss, tree, R')"
    and d': "d' = mlp_writes env k ret p ss tree R' d"
    unfolding rebuild_iff by blast
  from reads obtain rows where r: "routing_json d = Some R" "shard_npz d k = Some rows" "purge_all rows refs = Inr (ret, n)"
      "resume = resume_point env d k m"
    by (auto simp: mlp_reads_def)
  from plan have res: "res_shard r = k" "replay_from (replay r) = m" "rows_purged r = n"
      "shard_models env np t ret m resume seed = Inr (p, ss)"
      "map_option state_dict_digest (map_of ss (NUM_SLICES env - 1)) = Some (result_weights r)"
    by (auto simp: mlp_plan_def map_of_digests)
  have look: "checkpoint_pt d' (dir, k', i) =
      (if dir = CHECKPOINT_DIR env \<and> k' = k \<and> m \<le> i \<and> i < NUM_SLICES env then map_of ss i else checkpoint_pt d (dir, k', i))" for dir k' i
    by (cases "dir = CHECKPOINT_DIR env")
      (simp_all add: d' writes_checkpoint writes_lookup [OF plan_last(2) [OF plan]] write_states_other image_iff)
  have "\<exists>p ss. shard_models env np t ret m (resume_point env d k m) seed = Inr (p, ss)
      \<and> result_weights r = state_dict_digest (the (map_of ss (NUM_SLICES env - 1)))
      \<and> (\<forall>dir k' i. checkpoint_pt d' (dir, k', i) =
           (if dir = CHECKPOINT_DIR env \<and> k' = k \<and> m \<le> i \<and> i < NUM_SLICES env then map_of ss i else checkpoint_pt d (dir, k', i)))
      \<and> preproc_json d' = (preproc_json d)((CHECKPOINT_DIR env, k) \<mapsto> p)"
    using res(4,5) r(4) look by (intro exI [of _ p] exI [of _ ss]) (auto simp: d' writes_checkpoint)
  then show ?thesis
    using purge_all_ok(2,3) [OF r(3)] plan_routing [OF plan]
    by (simp add: r(1,2) res(1-3) Let_def) (simp add: d' writes_checkpoint)
qed

theorem mlp_rebuild_effect_witness:
  "\<exists>r d'. rebuild_batch_by_ref small_env small_np small_torch (\<lambda>k b. k) [] [] [erin] 1337 True (small_disk 3) = (Inr r, d')
     \<and> routing_json d' = Some [(adam_ref, small_entry 0)]"
proof -
  obtain r d' where run: "rebuild_batch_by_ref small_env small_np small_torch (\<lambda>k b. k) [] [] [erin] 1337 True (small_disk 3) = (Inr r, d')"
    using small_rebuild by blast
  from mlp_rebuild_effect [OF run] have "routing_json d' = Some [(adam_ref, small_entry 0)]"
    by (auto simp: Let_def small_routing_def split: option.splits if_splits)
  with run show ?thesis by blast
qed

lemma mlp_certificates:
  assumes "rebuild_batch_by_ref env np t sg pa ca refs seed True d = (Inr r, d')"
    and "caches_ok d" "shard_npz d (res_shard r) = Some rows" "list_all (\<lambda>q. valid_ref (row_ref q)) rows" "list_all valid_ref refs"
    and "signing_key (SIGNING_KEY env) = Inr key" "\<And>b. ed_verify (ed_public key) b (sg key b)" "\<And>b. sg key b \<noteq> []"
    and "ref \<in> set refs"
  shows "\<exists>m fs root. map_of (manifests r) ref = Some m \<and> verify_certificate ed_verify (PDict m) (ed_public key) = Inr (True, fs)
     \<and> getitem (PDict m) ''subject_ref'' = Inr (PStr ref) \<and> getitem (PDict m) ''dataset_root'' = Inr (PStr root)
     \<and> getitem (PDict m) ''result_weights'' = Inr (PStr (result_weights r))
     \<and> (build_root (filter (\<lambda>q. key_of q \<notin> key_of ` set refs) (map row_ref rows)) = Inr root \<or> cache_collides d (res_shard r))"
proof -
  from assms(1) obtain R k m tb ret n resume p ss tree R' where
      reads: "mlp_reads env refs d (R, k, m, tb, ret, n, resume)"
    and plan: "mlp_plan env np t sg pa ca refs seed True R k m tb ret n resume (r, p, ss, tree, R')"
    unfolding rebuild_iff by blast
  from plan have k: "res_shard r = k" and tree: "smt_remove tb refs = Inr tree"
    and ms: "issue_all env sg True (certificate_fields env (config_digest env np) ''shard'' k m (result_weights r) pa ca tree) tree refs = Inr (manifests r)"
    by (auto simp: mlp_plan_def)
  from reads assms(3) have tb: "tree_for_shard (tree_caches d) k (map row_ref rows) = Inr tb"
    and p: "purge_all rows refs = Inr (ret, n)"
    by (auto simp: mlp_reads_def k)
  show ?thesis
    by (rule batch_certificates [where ed_verify = ed_verify and ed_public = ed_public, OF assms(2-5) tb [folded k] tree ms purge_all_ok(1) [OF p] assms(9,6,7,8)])
qed

text \<open>
  C5 Every certificate of a rebuild verifies. For each subject of the batch the result
  holds a manifest that the standalone verifier accepts; it names the subject, the digest
  of the model on disk, and a root that is the one of the retained references (computed
  from scratch) unless the fingerprint of a cached tree collides.
\<close>

theorem mlp_certificates_verify:
  assumes "rebuild_batch_by_ref env np t sg pa ca refs seed True d = (Inr r, d')"
    and "caches_ok d" "shard_npz d (res_shard r) = Some rows" "list_all (\<lambda>q. valid_ref (row_ref q)) rows" "list_all valid_ref refs"
    and "signing_key (SIGNING_KEY env) = Inr key" "\<And>b. ed_verify (ed_public key) b (sg key b)" "\<And>b. sg key b \<noteq> []"
    and "ref \<in> set refs"
  shows "\<exists>m fs root. map_of (manifests r) ref = Some m \<and> verify_certificate ed_verify (PDict m) (ed_public key) = Inr (True, fs)
     \<and> getitem (PDict m) ''subject_ref'' = Inr (PStr ref) \<and> getitem (PDict m) ''dataset_root'' = Inr (PStr root)
     \<and> getitem (PDict m) ''result_weights'' = Inr (PStr (result_weights r))
     \<and> (build_root (filter (\<lambda>q. key_of q \<notin> key_of ` set refs) (map row_ref rows)) = Inr root \<or> cache_collides d (res_shard r))"
  using mlp_certificates [where ed_verify = ed_verify and ed_public = ed_public, OF assms] by blast

theorem mlp_certificates_verify_witness:
  "\<exists>r d' m fs. rebuild_batch_by_ref small_env small_np small_torch (\<lambda>k b. k @ b) [] [] [erin] 1337 True (small_disk 3) = (Inr r, d')
     \<and> map_of (manifests r) erin = Some m \<and> verify_certificate (\<lambda>pk b s. s = pk @ b) (PDict m) (replicate 32 9) = Inr (True, fs)"
proof -
  obtain r d' where run: "rebuild_batch_by_ref small_env small_np small_torch (\<lambda>k b. k @ b) [] [] [erin] 1337 True (small_disk 3) = (Inr r, d')"
    using small_rebuild by blast
  then have shard: "res_shard r = 0" unfolding rebuild_iff mlp_reads_def mlp_plan_def by (auto simp: small_target)
  have key: "signing_key (SIGNING_KEY small_env) = Inr (replicate 32 9)"
    unfolding small_env_def by (simp add: signing_key_hex)
  have "\<exists>m fs. map_of (manifests r) erin = Some m \<and> verify_certificate (\<lambda>pk b s. s = pk @ b) (PDict m) (replicate 32 9) = Inr (True, fs)"
    using mlp_certificates_verify [where rows = "small_rows 3" and ed_public = "\<lambda>k. k"
        and ed_verify = "\<lambda>pk b s. s = pk @ b" and ref = erin, OF run _ _ _ _ key]
    by (auto simp: shard caches_ok_def small_rows_def)
  with run show ?thesis by blast
qed

lemma purge_all_error: "fold_res purge_step refs s = Inl e \<Longrightarrow> e = ValueError"
  by (induction refs arbitrary: s) (auto simp: res_simps purge_step_def Let_def purge_def split: if_splits)

text \<open>A rebuild up to its first write.\<close>

lemma rebuild_purge_error:
  assumes "refs \<noteq> []" "routing_json d = Some R" "batch_target R refs = Inr (k, m)" "shard_npz d k = Some rows"
    and "tree_for_shard (tree_caches d) k (map row_ref rows) = Inr tb" "purge_all rows refs = Inl e"
  shows "rebuild_batch_by_ref env np t sg pa ca refs seed sign d = (Inl ValueError, d)"
proof -
  have "e = ValueError" using assms(6) purge_all_error unfolding purge_all_def by blast
  with assms show ?thesis
    by (simp add: rebuild_batch_by_ref_def io_bind_def io_when_def io_return_def load_routing_def io_read_def io_lift_def
        load_shard_def io_get_def)
qed

lemma rebuild_fit_error:
  assumes "refs \<noteq> []" "routing_json d = Some R" "batch_target R refs = Inr (k, 0)" "shard_npz d k = Some rows"
    and "tree_for_shard (tree_caches d) k (map row_ref rows) = Inr tb" "purge_all rows refs = Inr (ret, n)"
    and "PYTHONHASHSEED env = Some ''0''" "filter (\<lambda>r. slice_idx r = 0) ret = []"
  shows "rebuild_batch_by_ref env np t sg pa ca refs seed sign d = (Inl ValueError, d\<lparr>shard_npz := (shard_npz d)(k \<mapsto> ret)\<rparr>)"
  using assms
  by (simp add: rebuild_batch_by_ref_def io_bind_def io_when_def io_return_def load_routing_def io_read_def io_lift_def
      load_shard_def io_get_def save_shard_def io_modify_def load_resume_def train_shard_def enforce_determinism_def
      fit_preprocessor_def preproc_fit_def Let_def)

text \<open>
  C17 A rebuild succeeds on a deployment in good order: the batch names distinct routed
  subjects of one shard that have rows, some other subject is in slice 0, the
  transaction types are known, the checkpoint to resume from has the model's shapes, and
  the keys and the hash seed are set. The only way out is a fingerprint collision in the
  tree cache.
\<close>

theorem mlp_rebuild_succeeds:
  assumes "batch_ready env sign refs d R k m rows" "resumable t seed m (resume_point env d k m)"
  shows "cache_collides d k \<or> (\<exists>r d'. rebuild_batch_by_ref env np t sg pa ca refs seed sign d = (Inr r, d'))"
  using mlp_rebuild_ok [OF assms] by blast

theorem mlp_rebuild_succeeds_witness:
  "\<exists>r d'. rebuild_batch_by_ref small_env small_np small_torch (\<lambda>k b. k) [] [] [erin] 1337 True (small_disk 3) = (Inr r, d')"
  using mlp_rebuild_succeeds [OF small_ready small_resumable] by (auto simp: cache_collides_def)

text \<open>
  C18 The last subjects of slice 0 cannot be erased. If a batch leaves no row in slice 0
  of its shard, the preprocessor has nothing to be fitted on and the rebuild raises
  ValueError. By then the rows are gone from the file, while the routing table still
  lists the subjects; repeating the request raises ValueError again and changes nothing.
\<close>

theorem mlp_slice0_exhausted:
  assumes "refs \<noteq> []" "routing_json d = Some R" "batch_target R refs = Inr (k, 0)" "shard_npz d k = Some rows"
    and "caches_ok d" "list_all (\<lambda>q. valid_ref (row_ref q)) rows" "purge_all rows refs = Inr (ret, n)"
    and "PYTHONHASHSEED env = Some ''0''" "list_all (\<lambda>r. slice_idx r \<noteq> 0) ret"
  shows "let d1 = d\<lparr>shard_npz := (shard_npz d)(k \<mapsto> ret)\<rparr> in
     rebuild_batch_by_ref env np t sg pa ca refs seed sign d = (Inl ValueError, d1)
     \<and> rebuild_batch_by_ref env np t sg pa' ca' refs seed sign d1 = (Inl ValueError, d1)"
proof -
  define d1 where "d1 = d\<lparr>shard_npz := (shard_npz d)(k \<mapsto> ret)\<rparr>"
  have valid: "list_all valid_ref (map row_ref rows)" "list_all valid_ref (map row_ref ret)"
    using assms(6) by (auto simp: purge_all_ok(2) [OF assms(7)] list_all_iff)
  obtain tb where "tree_for_shard (tree_caches d) k (map row_ref rows) = Inr tb"
    by (rule tree_for_shard_ok [OF valid(1), of "tree_caches d" k]) (use caches_okD [OF assms(5)] in auto)
  moreover have "filter (\<lambda>r. slice_idx r = 0) ret = []" using assms(9) by (auto simp: list_all_iff filter_empty_conv)
  ultimately have first: "rebuild_batch_by_ref env np t sg pa ca refs seed sign d = (Inl ValueError, d1)"
    unfolding d1_def by (rule rebuild_fit_error [OF assms(1-4) _ assms(7,8)])
  obtain tb1 where tb1: "tree_for_shard (tree_caches d) k (map row_ref ret) = Inr tb1"
    by (rule tree_for_shard_ok [OF valid(2), of "tree_caches d" k]) (use caches_okD [OF assms(5)] in auto)
  obtain q qs where q: "refs = q # qs" using assms(1) by (cases refs) auto
  have "filter (\<lambda>r. row_ref r = q) ret = []" by (auto simp: purge_all_ok(2) [OF assms(7)] filter_empty_conv q)
  then have "purge_all ret refs = Inl ValueError" by (simp add: purge_all_def purge_step_def purge_def q)
  then have "rebuild_batch_by_ref env np t sg pa' ca' refs seed sign d1 = (Inl ValueError, d1)"
    using assms(1-3) tb1 unfolding d1_def by (intro rebuild_purge_error [where k = k and R = R]) simp_all
  with first show ?thesis by (simp only: Let_def d1_def [symmetric])
qed

theorem mlp_slice0_exhausted_witness:
  "fst (rebuild_batch_by_ref small_env small_np small_torch (\<lambda>k b. k) [] [] [adam_ref] 1337 True (small_disk 3)) = Inl ValueError"
proof -
  have target: "batch_target small_routing [adam_ref] = Inr (0, 0)"
    by (simp add: batch_target_def small_routing_def small_entry_def)
  have purge: "purge_all (small_rows 3) [adam_ref] = Inr ([small_row erin 1 3], 1)"
    by (simp add: purge_all_def purge_step_def purge_def small_rows_def)
  have hs: "PYTHONHASHSEED small_env = Some ''0''" by (simp add: small_env_def)
  have d: "shard_npz (small_disk 3) 0 = Some (small_rows 3)" "routing_json (small_disk 3) = Some small_routing"
      "caches_ok (small_disk 3)" "list_all (\<lambda>q. valid_ref (row_ref q)) (small_rows 3)"
    by (simp_all add: caches_ok_def small_rows_def)
  have "list_all (\<lambda>r. slice_idx r \<noteq> 0) [small_row erin 1 3]" by simp
  from mlp_slice0_exhausted [OF _ d(2) target d(1,3,4) purge hs this,
      of small_np small_torch "\<lambda>k b. k" "[]" "[]" 1337 True "[]" "[]"]
  show ?thesis by (simp add: Let_def)
qed

text \<open>
  A batch that names a subject twice fails as a whole, before anything is written:
  the second purge finds no row left.
\<close>

theorem mlp_duplicate_refs:
  assumes "\<not> distinct refs" "routing_json d = Some R" "batch_target R refs = Inr (k, m)" "shard_npz d k = Some rows"
    and "caches_ok d" "list_all (\<lambda>q. valid_ref (row_ref q)) rows"
  shows "rebuild_batch_by_ref env np t sg pa ca refs seed sign d = (Inl ValueError, d)"
proof -
  have valid: "list_all valid_ref (map row_ref rows)" using assms(6) by (simp add: list_all_iff)
  obtain tb where tb: "tree_for_shard (tree_caches d) k (map row_ref rows) = Inr tb"
    by (rule tree_for_shard_ok [OF valid, of "tree_caches d" k]) (use caches_okD [OF assms(5)] in auto)
  obtain e where "purge_all rows refs = Inl e"
    using purge_all_ok(1) [of rows refs] assms(1) by (cases "purge_all rows refs") auto
  moreover have "refs \<noteq> []" using assms(1) by auto
  ultimately show ?thesis using rebuild_purge_error [OF _ assms(2-4) tb] by blast
qed

theorem mlp_duplicate_refs_witness:
  "rebuild_batch_by_ref small_env small_np small_torch (\<lambda>k b. k) [] [] [erin, erin] 1337 True (small_disk 3) = (Inl ValueError, small_disk 3)"
proof -
  have target: "batch_target small_routing [erin, erin] = Inr (0, 1)"
    by (simp add: batch_target_def small_routing_def small_entry_def)
  show ?thesis by (rule mlp_duplicate_refs [OF _ _ target]) (auto simp: caches_ok_def small_rows_def)
qed

end
