(* ===== verification/Build.thy ===== *)
theory Build
  imports Rebuild
begin

text \<open>
  What partitioning the raw data (\<open>build\<close> in \<open>engine/train.py\<close>, the definition
  \<open>build_shards\<close>) establishes: the invariant that every rebuild needs and keeps.
\<close>

section \<open>The assignment of subjects\<close>

lemma set_subjects [simp]: "set (subjects_of raw) = nameOrig ` set raw" "distinct (subjects_of raw)"
  by (simp_all add: subjects_of_def)

lemma count_of_pos: "s \<in> nameOrig ` set raw \<Longrightarrow> 1 \<le> count_of raw s"
  by (force simp: count_of_def Suc_le_eq filter_empty_conv)

lemma length_churn_scores [simp]:
  "length (np_beta np seed (length ids)) = length ids \<Longrightarrow> length steps = length ids
    \<Longrightarrow> length (churn_scores np ids steps ms seed) = length ids"
  by (simp add: churn_scores_def Let_def)

lemma assign_all_range:
  assumes "assign_all ids churn num hot thr = Inr shards" "length churn = length ids"
  shows "length shards = length ids \<and> (\<forall>k\<in>set shards. 0 \<le> k \<and> k < num)"
proof -
  note d = map_res_dest [OF assms(1) [unfolded assign_all_def]]
  have "0 \<le> shards ! i \<and> shards ! i < num" if "i < length shards" for i
    using d that assign_shard_range [of "ids ! i" "churn ! i" num hot thr "shards ! i"] assms(2) by auto
  with d assms(2) show ?thesis by (auto simp: in_set_conv_nth)
qed

lemma shard_slices_range:
  assumes "shard_slices N count assigned k = Inr sl" "\<And>s. s \<in> fst ` set assigned \<Longrightarrow> 1 \<le> count s"
  shows "map fst sl = map fst (filter (\<lambda>(s, c, sh). sh = int k) assigned) \<and> (\<forall>p\<in>set sl. 0 \<le> snd p \<and> snd p < int N)"
proof -
  let ?m = "filter (\<lambda>(s, c, sh). sh = int k) assigned"
  from assms(1) obtain out where out: "assign_slices (map fst ?m) (map (\<lambda>(s, c, sh). c) ?m) (map (\<lambda>s. int (count s)) (map fst ?m)) (int N) = Inr out"
      "sl = zip (map fst ?m) out"
    by (auto simp: shard_slices_def Let_def res_simps)
  have len: "length out = length ?m"
    using out(1) assign_slices_eq(4) [OF out(1)] by (cases "?m = []") (auto simp: assign_slices_def split: if_splits)
  have pos: "1 \<le> c" if "c \<in> set (map (\<lambda>s. int (count s)) (map fst ?m))" for c using that assms(2) by fastforce
  have "0 \<le> out ! i \<and> out ! i < int N" if "i < length out" for i
    using assign_slices_range [OF out(1) pos] that len by simp
  then show ?thesis using len unfolding out(2) by (auto simp: in_set_zip)
qed

lemma assign_subjects_dest:
  assumes "assign_subjects env np seed ms raw = Inr (assigned, slices)" "\<And>n. length (np_beta np seed n) = n"
  shows "map fst assigned = subjects_of raw"
    and "s \<in> nameOrig ` set raw \<Longrightarrow> \<exists>c k. map_of assigned s = Some (c, k) \<and> 0 \<le> k \<and> k < NUM_SHARDS env"
    and "s \<in> nameOrig ` set raw \<Longrightarrow> \<exists>i. map_of slices s = Some i \<and> 0 \<le> i \<and> i < int (NUM_SLICES env)"
proof -
  let ?subj = "subjects_of raw" and ?churn = "churn_scores np (subjects_of raw) (map (last_step_of np raw) (subjects_of raw)) ms seed"
  from assms(1) obtain shards sls where a: "assign_all ?subj ?churn (NUM_SHARDS env) (HOT_SHARDS env) (HOT_THRESHOLD env) = Inr shards"
      "assigned = zip ?subj (zip ?churn shards)"
      "map_res (shard_slices (NUM_SLICES env) (count_of raw) assigned) [0..<nat (NUM_SHARDS env)] = Inr sls" "slices = concat sls"
    by (auto simp: assign_subjects_def Let_def res_simps)
  have lc: "length ?churn = length ?subj" using assms(2) by simp
  note r = assign_all_range [OF a(1) lc]
  show fst: "map fst assigned = ?subj" using r lc by (simp add: a(2))
  then have set1: "fst ` set assigned = nameOrig ` set raw" by (metis set_map set_subjects(1))
  have val: "0 \<le> snd (snd p) \<and> snd (snd p) < NUM_SHARDS env" if "p \<in> set assigned" for p
    using that r unfolding a(2) by (metis set_zip_rightD surjective_pairing)
  have look: "\<exists>c k. map_of assigned s = Some (c, k) \<and> (s, c, k) \<in> set assigned \<and> 0 \<le> k \<and> k < NUM_SHARDS env"
    if s: "s \<in> nameOrig ` set raw"
  proof -
    from s set1 have "map_of assigned s \<noteq> None" by (simp add: map_of_eq_None_iff)
    then obtain c k where ck: "map_of assigned s = Some (c, k)" by auto
    from map_of_SomeD [OF this] val ck show ?thesis by fastforce
  qed
  then show "s \<in> nameOrig ` set raw \<Longrightarrow> \<exists>c k. map_of assigned s = Some (c, k) \<and> 0 \<le> k \<and> k < NUM_SHARDS env" by blast
  note sd = map_res_dest [OF a(3)]
  have pos: "1 \<le> count_of raw q" if "q \<in> fst ` set assigned" for q using that count_of_pos unfolding set1 by blast
  have one: "map fst (sls ! k) = map fst (filter (\<lambda>(s, c, sh). sh = int k) assigned) \<and> (\<forall>p\<in>set (sls ! k). 0 \<le> snd p \<and> snd p < int (NUM_SLICES env))"
    if "k < nat (NUM_SHARDS env)" for k
    using sd that by (intro shard_slices_range [OF _ pos]) auto
  have all: "0 \<le> snd p \<and> snd p < int (NUM_SLICES env)" if "p \<in> set slices" for p
  proof -
    from that obtain xs where xs: "xs \<in> set sls" "p \<in> set xs" by (auto simp: a(4))
    then obtain k where "k < length sls" "sls ! k = xs" by (meson in_set_conv_nth)
    with xs one sd show ?thesis by simp
  qed
  show "\<exists>i. map_of slices s = Some i \<and> 0 \<le> i \<and> i < int (NUM_SLICES env)" if s: "s \<in> nameOrig ` set raw"
  proof -
    obtain c k where k: "(s, c, k) \<in> set assigned" "0 \<le> k" "k < NUM_SHARDS env" using look [OF s] by blast
    have n: "nat k < nat (NUM_SHARDS env)" using k(2,3) by simp
    have "s \<in> set (map fst (filter (\<lambda>(s, c, sh). sh = int (nat k)) assigned))" using k(1,2) by force
    with one [OF n] have "s \<in> fst ` set (sls ! nat k)" by (metis set_map)
    moreover have "sls ! nat k \<in> set sls" using sd n by simp
    ultimately have "s \<in> fst ` set slices" unfolding a(4) by fastforce
    then obtain i where "map_of slices s = Some i" by (metis map_of_eq_None_iff not_None_eq)
    with all [OF map_of_SomeD] show ?thesis by fastforce
  qed
qed

section \<open>The files\<close>

lemma save_shards:
  "io_fold (\<lambda>k _. save_shard k (f k)) [0..<n] () d
     = (Inr (), d\<lparr>shard_npz := (\<lambda>k. if k < n then Some (f k) else shard_npz d k)\<rparr>)"
proof (induction n)
  case (Suc n)
  have "(\<lambda>k. if k < n then Some (f k) else shard_npz d k)(n \<mapsto> f n) = (\<lambda>k. if k < Suc n then Some (f k) else shard_npz d k)"
    by auto
  with Suc show ?case by (simp add: io_fold_append io_bind_def save_shard_def io_modify_def io_return_def)
qed (simp add: io_return_def)

lemma map_of_routing:
  assumes "inj_on (subject_ref (settings.truncate env)) (nameOrig ` set raw)" "s \<in> nameOrig ` set raw"
  shows "map_of (routing_of env sh sl cnt (subjects_of raw)) (subject_ref (settings.truncate env) s)
     = Some \<lparr>tenant_id = TENANT_ID env, e_shard = sh s, min_slice_idx = sl s, record_count = cnt s\<rparr>"
proof -
  let ?f = "\<lambda>s. (subject_ref (settings.truncate env) s, \<lparr>tenant_id = TENANT_ID env, e_shard = sh s, min_slice_idx = sl s, record_count = cnt s\<rparr>)"
  have d: "distinct (map fst (map ?f (subjects_of raw)))"
    using assms(1) by (simp add: comp_def distinct_map)
  show ?thesis unfolding routing_of_def dict_of_distinct [OF d]
    by (rule map_of_is_SomeI [OF d]) (use assms(2) in auto)
qed

lemma build_shards_dest:
  assumes "build_shards env np seed ms raw d = (Inr R, d')"
  obtains assigned slices shard_of slice_of where "assign_subjects env np seed ms raw = Inr (assigned, slices)"
    "shard_of = (\<lambda>s. case map_of assigned s of Some (c, k) \<Rightarrow> nat k | None \<Rightarrow> 0)"
    "slice_of = (\<lambda>s. case map_of slices s of Some i \<Rightarrow> nat i | None \<Rightarrow> 0)"
    "R = routing_of env shard_of slice_of (count_of raw) (subjects_of raw)"
    "d' = d\<lparr>shard_npz := (\<lambda>k. if k < nat (NUM_SHARDS env)
            then Some (map (shard_row env slice_of) (filter (\<lambda>r. shard_of (nameOrig r) = k) raw)) else shard_npz d k),
          routing_json := Some R\<rparr>"
proof -
  from assms obtain assigned slices where a: "assign_subjects env np seed ms raw = Inr (assigned, slices)"
    by (auto simp: build_shards_def io_simps)
  with assms that show thesis
    by (auto simp: build_shards_def io_bind_def io_lift_def Let_def save_shards save_routing_def io_modify_def io_return_def)
qed

lemma partitions_aligned:
  assumes "build_shards env np seed ms raw d = (Inr R, d')" "\<And>n. length (np_beta np seed n) = n"
    and "inj_on (subject_ref (settings.truncate env)) (nameOrig ` set raw)"
    and "\<forall>k. NUM_SHARDS env \<le> int k \<longrightarrow> shard_npz d k = None"
  shows "routing_json d' = Some R \<and> aligned d' \<and> (\<forall>r\<in>set raw. \<exists>en rows.
     map_of R (subject_ref (settings.truncate env) (nameOrig r)) = Some en \<and> int (e_shard en) < NUM_SHARDS env
     \<and> min_slice_idx en < NUM_SLICES env \<and> shard_npz d' (e_shard en) = Some rows
     \<and> record_count en = count_of raw (nameOrig r)
     \<and> record_count en = length (filter (\<lambda>q. row_ref q = subject_ref (settings.truncate env) (nameOrig r)) rows))"
proof -
  let ?ref = "subject_ref (settings.truncate env)"
  from assms(1) obtain assigned slices sh sl where a: "assign_subjects env np seed ms raw = Inr (assigned, slices)"
      and sh: "sh = (\<lambda>s. case map_of assigned s of Some (c, k) \<Rightarrow> nat k | None \<Rightarrow> 0)"
      and sl: "sl = (\<lambda>s. case map_of slices s of Some i \<Rightarrow> nat i | None \<Rightarrow> 0)"
      and R: "R = routing_of env sh sl (count_of raw) (subjects_of raw)"
      and d': "d' = d\<lparr>shard_npz := (\<lambda>k. if k < nat (NUM_SHARDS env)
            then Some (map (shard_row env sl) (filter (\<lambda>r. sh (nameOrig r) = k) raw)) else shard_npz d k),
          routing_json := Some R\<rparr>"
    by (rule build_shards_dest)
  note dest = assign_subjects_dest [OF a assms(2)]
  have look: "map_of R (?ref (nameOrig r)) = Some \<lparr>tenant_id = TENANT_ID env, e_shard = sh (nameOrig r),
      min_slice_idx = sl (nameOrig r), record_count = count_of raw (nameOrig r)\<rparr>" if "r \<in> set raw" for r
    unfolding R using that by (intro map_of_routing [OF assms(3)]) auto
  have "aligned d'"
  proof (rule alignedI)
    fix R' k rows q assume q: "routing_json d' = Some R'" "shard_npz d' k = Some rows" "q \<in> set rows"
    then have "k < nat (NUM_SHARDS env)" using assms(4) by (auto simp: d' split: if_splits)
    with q obtain r where r: "r \<in> set raw" "sh (nameOrig r) = k" "q = shard_row env sl r" "R' = R" by (auto simp: d')
    with look [OF r(1)] show "\<exists>en. map_of R' (row_ref q) = Some en \<and> e_shard en = k \<and> min_slice_idx en \<le> slice_idx q"
      by (simp add: shard_row_def)
  qed
  moreover have "\<exists>en rows. map_of R (?ref (nameOrig r)) = Some en \<and> int (e_shard en) < NUM_SHARDS env
     \<and> min_slice_idx en < NUM_SLICES env \<and> shard_npz d' (e_shard en) = Some rows \<and> record_count en = count_of raw (nameOrig r)
     \<and> record_count en = length (filter (\<lambda>q. row_ref q = ?ref (nameOrig r)) rows)" if r: "r \<in> set raw" for r
  proof -
    let ?k = "sh (nameOrig r)"
    have k: "int ?k < NUM_SHARDS env" using dest(2) [of "nameOrig r"] r by (auto simp: sh)
    moreover have "sl (nameOrig r) < NUM_SLICES env" using dest(3) [of "nameOrig r"] r by (auto simp: sl)
    moreover have "shard_npz d' ?k = Some (map (shard_row env sl) (filter (\<lambda>q. sh (nameOrig q) = ?k) raw))"
      using k by (auto simp: d')
    moreover have "filter (\<lambda>q. row_ref q = ?ref (nameOrig r)) (map (shard_row env sl) (filter (\<lambda>q. sh (nameOrig q) = ?k) raw))
        = map (shard_row env sl) (filter (\<lambda>q. nameOrig q = nameOrig r) raw)"
    proof -
      have "sh (nameOrig q) = ?k \<and> row_ref (shard_row env sl q) = ?ref (nameOrig r) \<longleftrightarrow> nameOrig q = nameOrig r" if "q \<in> set raw" for q
        using inj_on_eq_iff [OF assms(3), of "nameOrig q" "nameOrig r"] that r by (auto simp: shard_row_def)
      then show ?thesis by (auto simp: filter_map comp_def intro!: filter_cong arg_cong [where f = "map (shard_row env sl)"])
    qed
    ultimately show ?thesis using look [OF r] by (simp add: count_of_def)
  qed
  ultimately show ?thesis by (simp add: d')
qed

section \<open>Properties\<close>


lemma map_res_ok: "list_all (\<lambda>x. \<exists>y. f x = Inr y) xs \<Longrightarrow> \<exists>ys. map_res f xs = Inr ys"
  by (induction xs) auto

lemma build_ok:
  assumes "\<And>n. length (np_beta np seed n) = n" "0 < HOT_SHARDS env" "HOT_SHARDS env < NUM_SHARDS env" "0 < NUM_SLICES env"
  shows "\<exists>R d'. build_shards env np seed ms raw d = (Inr R, d')"
proof -
  let ?churn = "churn_scores np (subjects_of raw) (map (last_step_of np raw) (subjects_of raw)) ms seed"
  have "\<exists>shards. assign_all (subjects_of raw) ?churn (NUM_SHARDS env) (HOT_SHARDS env) (HOT_THRESHOLD env) = Inr shards"
    unfolding assign_all_def by (rule map_res_ok) (use assms(2,3) in \<open>auto simp: list_all_iff assign_shard_def\<close>)
  then obtain shards where s: "assign_all (subjects_of raw) ?churn (NUM_SHARDS env) (HOT_SHARDS env) (HOT_THRESHOLD env) = Inr shards"
    by blast
  have "\<exists>sls. map_res (shard_slices (NUM_SLICES env) (count_of raw) (zip (subjects_of raw) (zip ?churn shards))) [0..<nat (NUM_SHARDS env)] = Inr sls"
    by (rule map_res_ok) (use assms(4) in \<open>auto simp: list_all_iff shard_slices_def assign_slices_def Let_def\<close>)
  with s obtain a where "assign_subjects env np seed ms raw = Inr a" by (auto simp: assign_subjects_def Let_def)
  then show ?thesis
    by (cases a) (auto simp: build_shards_def io_bind_def io_lift_def Let_def save_shards save_routing_def io_modify_def io_return_def)
qed

text \<open>
  Partitioning succeeds on any data, whatever the churn scores are, when there are hot
  and cold shards and at least one slice.
\<close>

theorem build_succeeds:
  assumes "\<And>n. length (np_beta np seed n) = n" "0 < HOT_SHARDS env" "HOT_SHARDS env < NUM_SHARDS env" "0 < NUM_SLICES env"
  shows "\<exists>R d'. build_shards env np seed ms raw d = (Inr R, d')"
  by (rule build_ok [OF assms])

lemma small_build_params:
  "length (np_beta small_np seed n) = n" "0 < HOT_SHARDS small_env" "HOT_SHARDS small_env < NUM_SHARDS small_env"
  "0 < NUM_SLICES small_env"
  by (simp_all add: small_np_def small_env_def)

theorem build_succeeds_witness:
  "\<exists>R d'. build_shards small_env small_np 1337 720 [] (small_disk 3) = (Inr R, d')"
  by (rule build_succeeds) (rule small_build_params)+

definition small_raw :: "int raw_row list" where
  "small_raw = [\<lparr>t_step = 1, t_amount = 7, t_oldbalanceOrg = 1, t_newbalanceOrig = 1, t_oldbalanceDest = 1,
     t_newbalanceDest = 1, type_idx = 0, isFraud = 0, nameOrig = ''C0''\<rparr>]"


lemma slice_first_zero_iff:
  assumes "counts_ok cs" "1 \<le> num"
  shows "0 \<in> set (slice_of_ordered cs num) \<longleftrightarrow> (cs ! 0 - 1) * num < records_total cs"
proof -
  have ne: "0 < length cs" using assms(1) by (simp add: counts_ok_def)
  note first = slice_nth [OF assms(1) ne assms(2)]
  have zero: "slice_of_ordered cs num ! 0 = 0 \<longleftrightarrow> (cs ! 0 - 1) * num < records_total cs"
  proof -
    have "slice_of_ordered cs num ! 0 = (cs ! 0 - 1) * num div records_total cs" using first(1) by (simp add: records_upto_def)
    moreover have "0 \<le> (cs ! 0 - 1) * num" using counts_pos [OF assms(1) ne] assms(2) by simp
    moreover have "0 < records_total cs" using records_total_pos [OF assms(1)] by simp
    ultimately show ?thesis using div_pos_pos_trivial pos_imp_zdiv_pos_iff by (metis div_bounds linorder_not_less mult_zero_left less_le_not_le zdiv_eq_0_iff)
  qed
  have "slice_of_ordered cs num ! 0 = 0" if j: "j < length cs" "slice_of_ordered cs num ! j = 0" for j
  proof -
    have "slice_of_ordered cs num ! 0 \<le> 0" using slice_mono [OF assms(1,2) _ j(1), of 0] j(2) by simp
    with first show ?thesis by simp
  qed
  with zero ne show ?thesis by (auto simp: in_set_conv_nth)
qed

lemma set_assign_slices:
  assumes "assign_slices ids churn counts num = Inr out" "ids \<noteq> []"
  shows "set out = set (slice_of_ordered (map (\<lambda>i. counts ! i) (lexsort ids churn)) num)"
proof -
  let ?o = "lexsort ids churn" and ?s = "slice_of_ordered (map (\<lambda>i. counts ! i) (lexsort ids churn)) num"
  have len: "length out = length ids" "length ?s = length ids"
    using assign_slices_eq(4) [OF assms] by (simp_all add: lexsort_perm)
  note nth = assign_slices_nth [OF assms]
  have "?o ! p < length ids" if "p < length ids" for p
    using lexsort_perm [of ids churn] that by (metis lessThan_iff nth_mem)
  then have "x \<in> set out" if "x \<in> set ?s" for x using that nth len by (metis in_set_conv_nth)
  moreover have "x \<in> set ?s" if "x \<in> set out" for x
  proof -
    from that obtain i where i: "i < length ids" "x = out ! i" by (metis in_set_conv_nth len(1))
    obtain p where p: "p < length ids" "?o ! p = i" by (rule lexsort_index [OF i(1)])
    with nth [OF p(1)] i(2) len(2) show ?thesis by simp
  qed
  ultimately show ?thesis by blast
qed

text \<open>
  When slice 0 of a shard is empty. Slice 0 gets a subject exactly if the subject with
  the lowest churn has few enough records, \<open>(count - 1) * num_slices < total\<close>; otherwise no
  subject is in slice 0, and training the shard raises ValueError.
\<close>

theorem slice0_empty_iff:
  assumes "assign_slices ids churn counts num = Inr out" "ids \<noteq> []" "length counts = length ids" "list_all (\<lambda>c. 1 \<le> c) counts"
  shows "0 \<in> set out \<longleftrightarrow> (counts ! hd (lexsort ids churn) - 1) * num < sum_list counts"
proof -
  note e = assign_slices_eq [OF assms(1,2)]
  let ?cs = "map (\<lambda>i. counts ! i) (lexsort ids churn)"
  have ok: "counts_ok ?cs" by (rule ordered_counts_ok [OF assms(2) e(3)]) (use assms(4) in \<open>simp add: list_all_iff\<close>)
  have ne: "lexsort ids churn \<noteq> []" using ok by (auto simp: counts_ok_def)
  have "records_total ?cs = sum_list ?cs" by (simp only: records_total_def sum_list_sum_nth atLeast0LessThan)
  also have "\<dots> = sum_list (map (\<lambda>i. counts ! i) [0..<length ids])"
    using lexsort_perm [of ids churn] by (simp add: sum_list_distinct_conv_sum_set atLeast0LessThan)
  also have "map (\<lambda>i. counts ! i) [0..<length ids] = counts" using assms(3) by (metis map_nth)
  finally have "records_total ?cs = sum_list counts" .
  with slice_first_zero_iff [OF ok e(1)] ne show ?thesis
    by (simp add: set_assign_slices [OF assms(1,2)] hd_conv_nth)
qed

theorem slice0_empty_iff_witness:
  "\<exists>out. assign_slices [''a'', ''b''] [1 :: int, 2] [10, 1] 5 = Inr out \<and> 0 \<notin> set out"
proof -
  obtain out where out: "assign_slices [''a'', ''b''] [1 :: int, 2] [10, 1] 5 = Inr out"
    by (simp add: assign_slices_def Let_def)
  have "lexsort [''a'', ''b''] [1 :: int, 2] = [0, 1]" by code_simp
  with slice0_empty_iff [OF out] out show ?thesis by simp
qed

end
