(* ===== verification/Datagen.thy ===== *)
theory Datagen
  imports Build
begin

text \<open>
  \<open>data/synth.py\<close>, the generator of transactions, \<open>data/eval_set.py\<close>'s corpus and the entry
  point \<open>build\<close> of \<open>engine/train.py\<close> over both sources of rows. NumPy's random generator is
  a parameter: a state, and draws that give values and the next state.
\<close>

section \<open>The generator\<close>

record ('f, 'r) generator =
  default_rng :: "nat \<Rightarrow> 'r"
  rng_geometric :: "'f \<Rightarrow> nat \<Rightarrow> 'r \<Rightarrow> nat list \<times> 'r"
  rng_integers :: "int \<Rightarrow> int \<Rightarrow> nat \<Rightarrow> 'r \<Rightarrow> (int list \<times> 'r) res"
  rng_lognormal :: "'f \<Rightarrow> 'f \<Rightarrow> nat \<Rightarrow> 'r \<Rightarrow> 'f list \<times> 'r"
  rng_random :: "nat \<Rightarrow> 'r \<Rightarrow> 'f list \<times> 'r"

text \<open>\<open>f"C{i:07d}"\<close>, and \<open>np.repeat\<close> with a list of counts.\<close>

definition subject_name :: "nat \<Rightarrow> string" where
  "subject_name i = CHR ''C'' # replicate (7 - length (nat_dec i)) CHR ''0'' @ nat_dec i"

definition repeat_each :: "'a list \<Rightarrow> nat list \<Rightarrow> 'a list" where
  "repeat_each xs counts = concat (map (\<lambda>(x, n). replicate n x) (zip xs counts))"

text \<open>
  One row from its draws: \<open>u\<close> is the uniform draw for the label. The draws are never NaN, so
  that \<open>x <= y\<close> is the negation of \<open>y < x\<close>.
\<close>

definition fraud_probability :: "'f numpy \<Rightarrow> 'f \<Rightarrow> nat \<Rightarrow> 'f" where
  "fraud_probability np new_org i =
     (if \<not> np_less np (np_lit np ''1e-9'') new_org \<and> TYPES ! i \<in> {''TRANSFER'', ''CASH_OUT''}
      then np_lit np ''0.25'' else np_lit np ''0.001'')"

definition synth_row :: "'f numpy \<Rightarrow> int \<Rightarrow> string \<Rightarrow> int \<Rightarrow> int \<Rightarrow> nat \<Rightarrow> 'f \<Rightarrow> 'f \<Rightarrow> 'f \<Rightarrow> 'f \<Rightarrow> 'f raw_row" where
  "synth_row np max_step owner first_step offset i amount old_org old_dest u =
     (let new_org = np_maximum np (np_sub np old_org amount) (np_of_int np 0) in
      \<lparr>t_step = np_of_int np (min (first_step + offset) max_step), t_amount = amount, t_oldbalanceOrg = old_org,
       t_newbalanceOrig = new_org, t_oldbalanceDest = old_dest, t_newbalanceDest = np_add np old_dest amount,
       type_idx = i, isFraud = (if np_less np u (fraud_probability np new_org i) then 1 else 0), nameOrig = owner\<rparr>)"

fun synth_rows ::
  "'f numpy \<Rightarrow> int \<Rightarrow> string list \<Rightarrow> int list \<Rightarrow> int list \<Rightarrow> int list \<Rightarrow> 'f list \<Rightarrow> 'f list \<Rightarrow> 'f list \<Rightarrow> 'f list \<Rightarrow> 'f raw_row list" where
  "synth_rows np ms (o1 # os) (f1 # fs) (d1 # ds) (t1 # ts) (a1 # as) (b1 # bs) (c1 # cs) (u1 # us) =
     synth_row np ms o1 f1 d1 (nat t1) a1 b1 c1 u1 # synth_rows np ms os fs ds ts as bs cs us"
| "synth_rows np ms _ _ _ _ _ _ _ _ = []"

definition generate :: "'f numpy \<Rightarrow> ('f, 'r) generator \<Rightarrow> nat \<Rightarrow> nat \<Rightarrow> int \<Rightarrow> 'f raw_row list res" where
  "generate np g n_subjects seed max_step =
     (let (geometric, r1) = rng_geometric g (np_lit np ''0.25'') n_subjects (default_rng g seed);
          counts = map Suc geometric; total = sum_list counts;
          owner = repeat_each (map subject_name [0..<n_subjects]) counts
      in
      bind_res (rng_integers g 0 max_step n_subjects r1) (\<lambda>(starts, r2).
      bind_res (rng_integers g 0 48 total r2) (\<lambda>(offset, r3).
      bind_res (rng_integers g 0 (int (length TYPES)) total r3) (\<lambda>(types, r4).
        let (amount, r5) = rng_lognormal g (np_lit np ''7.0'') (np_lit np ''1.6'') total r4;
            (old_org, r6) = rng_lognormal g (np_lit np ''8.0'') (np_lit np ''1.8'') total r5;
            (old_dest, r7) = rng_lognormal g (np_lit np ''8.0'') (np_lit np ''1.8'') total r6;
            (u, _) = rng_random g total r7
        in Inr (synth_rows np max_step owner (repeat_each starts counts) offset types amount old_org old_dest u)))))"

section \<open>Its uses\<close>

definition EVAL_SEED :: nat where
  "EVAL_SEED = 999983"

definition EVAL_SIZE :: nat where
  "EVAL_SIZE = 300"

definition eval_load :: "'f numpy \<Rightarrow> ('f, 'r) generator \<Rightarrow> 'f raw_row list res" where
  "eval_load np g = generate np g EVAL_SIZE EVAL_SEED 720"

text \<open>\<open>raw["step"].max()\<close>, which raises for no rows.\<close>

definition last_step :: "'f numpy \<Rightarrow> 'f raw_row list \<Rightarrow> 'f res" where
  "last_step np raw = (case raw of [] \<Rightarrow> Inl ValueError | r # rs \<Rightarrow> Inr (fold (\<lambda>q m. np_maximum np m (t_step q)) rs (t_step r)))"

text \<open>\<open>build\<close> of \<open>engine/train.py\<close>: \<open>max_step or 720\<close> for generated rows, their own horizon for given ones.\<close>

definition engine_build ::
  "('f::linorder, 'z) env_scheme \<Rightarrow> 'f numpy \<Rightarrow> ('f, 'r) generator \<Rightarrow> 'f raw_row list option \<Rightarrow> nat \<Rightarrow> nat \<Rightarrow> int option
    \<Rightarrow> (('f, 't) disk, routing) io" where
  "engine_build env np g raw n_subjects seed max_step =
     (case raw of
        None \<Rightarrow>
          let ms = (case max_step of Some m \<Rightarrow> if m = 0 then 720 else m | None \<Rightarrow> 720) in
          io_bind (io_lift (generate np g n_subjects seed ms)) (\<lambda>rows.
          build_shards env np seed (np_of_int np ms) rows)
      | Some rows \<Rightarrow>
          io_bind (io_lift (case max_step of Some m \<Rightarrow> Inr (np_of_int np m) | None \<Rightarrow> last_step np rows)) (\<lambda>horizon.
          build_shards env np seed horizon rows))"

section \<open>Names\<close>

lemma digits_value_zeros: "digits_value 0 (replicate n CHR ''0'' @ s) = digits_value 0 s"
proof (induction n)
  case (Suc n)
  have "digit_value CHR ''0'' = Some 0" by (simp add: digit_value_def)
  with Suc show ?case by simp
qed simp

lemma subject_name_inject [simp]: "subject_name i = subject_name j \<longleftrightarrow> i = j"
proof
  assume "subject_name i = subject_name j"
  then have "replicate (7 - length (nat_dec i)) CHR ''0'' @ nat_dec i = replicate (7 - length (nat_dec j)) CHR ''0'' @ nat_dec j"
    by (simp add: subject_name_def)
  from arg_cong [OF this, of "digits_value 0"] show "i = j" by (simp add: digits_value_zeros digits_value_dec)
qed simp

section \<open>What is drawn\<close>

text \<open>NumPy's documentation of the four methods: sizes and ranges.\<close>

definition draws_ok :: "('f, 'r) generator \<Rightarrow> bool" where
  "draws_ok g \<longleftrightarrow>
     (\<forall>p n r. length (fst (rng_geometric g p n r)) = n \<and> (\<forall>k\<in>set (fst (rng_geometric g p n r)). 1 \<le> k))
   \<and> (\<forall>lo hi n r. lo < hi \<longrightarrow> (\<exists>xs r'. rng_integers g lo hi n r = Inr (xs, r') \<and> length xs = n \<and> (\<forall>x\<in>set xs. lo \<le> x \<and> x < hi)))
   \<and> (\<forall>m s n r. length (fst (rng_lognormal g m s n r)) = n) \<and> (\<forall>n r. length (fst (rng_random g n r)) = n)"

lemma draws_integers:
  assumes "draws_ok g" "lo < hi"
  obtains xs r' where "rng_integers g lo hi n r = Inr (xs, r')" "length xs = n" "\<forall>x\<in>set xs. lo \<le> x \<and> x < hi"
  using assms unfolding draws_ok_def by meson

lemma repeat_each_Cons [simp]: "repeat_each (x # xs) (n # ns) = replicate n x @ repeat_each xs ns"
  by (simp add: repeat_each_def)

lemma repeat_each_Nil [simp]: "repeat_each [] [] = []"
  by (simp add: repeat_each_def)

lemma length_repeat_each: "length xs = length ns \<Longrightarrow> length (repeat_each xs ns) = sum_list ns"
  by (induction xs ns rule: list_induct2) simp_all

lemma set_repeat_each: "length xs = length ns \<Longrightarrow> set (repeat_each xs ns) \<subseteq> set xs"
  by (induction xs ns rule: list_induct2) auto

lemma count_repeat_each:
  "length xs = length ns \<Longrightarrow> distinct xs \<Longrightarrow> i < length xs \<Longrightarrow> length (filter (\<lambda>x. x = xs ! i) (repeat_each xs ns)) = ns ! i"
proof (induction xs ns arbitrary: i rule: list_induct2)
  case (Cons x xs n ns)
  show ?case
  proof (cases i)
    case 0
    have "filter (\<lambda>y. y = x) (repeat_each xs ns) = []"
      using Cons.prems(1) set_repeat_each [OF Cons.hyps] by (auto simp: filter_empty_conv)
    with 0 show ?thesis by simp
  next
    case (Suc k)
    with Cons.prems have "xs ! k \<noteq> x" by auto
    then have "filter (\<lambda>y. y = xs ! k) (replicate n x) = []" by (auto simp: filter_empty_conv)
    with Suc Cons show ?thesis by simp
  qed
qed simp

text \<open>The rows, one for each owner.\<close>

definition row_ok :: "'f raw_row \<Rightarrow> bool" where
  "row_ok r \<longleftrightarrow> type_idx r < length TYPES \<and> isFraud r \<in> {0, 1}"

lemma synth_row_ok: "0 \<le> i \<Longrightarrow> i < int (length TYPES) \<Longrightarrow> row_ok (synth_row np ms own f d (nat i) a b c u)"
  by (simp add: row_ok_def synth_row_def Let_def)

lemma nameOrig_synth_row [simp]: "nameOrig (synth_row np ms own f d i a b c u) = own"
  by (simp add: synth_row_def Let_def)

lemma synth_rows_owner:
  assumes "length fs = length os" "length ds = length os" "length ts = length os" "length as = length os"
    "length bs = length os" "length cs = length os" "length us = length os"
  shows "map nameOrig (synth_rows np ms os fs ds ts as bs cs us) = os"
  using assms
proof (induction os arbitrary: fs ds ts as bs cs us)
  case (Cons x os)
  then obtain f fs' d ds' t ts' a as' b bs' c cs' u us' where "fs = f # fs'" "ds = d # ds'" "ts = t # ts'" "as = a # as'"
      "bs = b # bs'" "cs = c # cs'" "us = u # us'"
    by (metis length_Suc_conv)
  with Cons show ?case by simp
qed simp

lemma synth_rows_ok:
  assumes "\<forall>t\<in>set ts. 0 \<le> t \<and> t < int (length TYPES)"
  shows "\<forall>r\<in>set (synth_rows np ms os fs ds ts as bs cs us). row_ok r"
  using assms
proof (induction np ms os fs ds ts as bs cs us rule: synth_rows.induct)
  case (1 np ms o1 os f1 fs d1 ds t1 ts a1 as b1 bs c1 cs u1 us)
  then show ?case by (simp add: synth_row_ok)
qed simp_all

lemma generate_rows:
  assumes "draws_ok g" "0 < max_step"
  obtains raw counts where "generate np g n seed max_step = Inr raw" "length counts = n" "\<forall>k\<in>set counts. 2 \<le> k"
    "map nameOrig raw = repeat_each (map subject_name [0..<n]) counts" "\<forall>r\<in>set raw. row_ok r"
proof -
  obtain geo r1 where geo: "rng_geometric g (np_lit np ''0.25'') n (default_rng g seed) = (geo, r1)" by fastforce
  let ?counts = "map Suc geo" and ?total = "sum_list (map Suc geo)"
  have len: "length geo = n" "\<forall>k\<in>set geo. 1 \<le> k" using assms(1) geo unfolding draws_ok_def by (metis fst_conv)+
  obtain starts r2 where starts: "rng_integers g 0 max_step n r1 = Inr (starts, r2)" "length starts = n"
    using draws_integers [OF assms] by metis
  obtain offset r3 where offset: "rng_integers g 0 48 ?total r2 = Inr (offset, r3)" "length offset = ?total"
    using draws_integers [OF assms(1), of 0 48] by (metis zero_less_numeral)
  have five: "(0 :: int) < int (length TYPES)" by (simp add: TYPES_def)
  obtain types r4 where types: "rng_integers g 0 (int (length TYPES)) ?total r3 = Inr (types, r4)" "length types = ?total"
      "\<forall>t\<in>set types. 0 \<le> t \<and> t < int (length TYPES)"
    by (rule draws_integers [OF assms(1) five])
  obtain am r5 where am: "rng_lognormal g (np_lit np ''7.0'') (np_lit np ''1.6'') ?total r4 = (am, r5)" by fastforce
  obtain bs r6 where bs: "rng_lognormal g (np_lit np ''8.0'') (np_lit np ''1.8'') ?total r5 = (bs, r6)" by fastforce
  obtain cs r7 where cs: "rng_lognormal g (np_lit np ''8.0'') (np_lit np ''1.8'') ?total r6 = (cs, r7)" by fastforce
  obtain us r8 where us: "rng_random g ?total r7 = (us, r8)" by fastforce
  have lens: "length am = ?total" "length bs = ?total" "length cs = ?total" "length us = ?total"
    using assms(1) am bs cs us unfolding draws_ok_def by (metis fst_conv)+
  let ?own = "repeat_each (map subject_name [0..<n]) ?counts"
  have own: "length ?own = ?total" by (rule length_repeat_each) (simp add: len)
  have st: "length (repeat_each starts ?counts) = ?total" by (rule length_repeat_each) (simp add: len starts)
  let ?raw = "synth_rows np max_step ?own (repeat_each starts ?counts) offset types am bs cs us"
  have "map nameOrig ?raw = ?own" by (rule synth_rows_owner) (simp_all only: own st offset(2) types(2) lens)
  moreover have "\<forall>r\<in>set ?raw. row_ok r" by (rule synth_rows_ok [OF types(3)])
  moreover have "generate np g n seed max_step = Inr ?raw"
    by (simp add: generate_def geo Let_def starts(1) offset(1) [simplified] types(1) [simplified] am [simplified] bs [simplified] cs [simplified] us [simplified])
  moreover have "length ?counts = n" "\<forall>k\<in>set ?counts. 2 \<le> k" using len by auto
  ultimately show thesis using that by blast
qed

lemma length_filter_map: "length (filter (\<lambda>r. f r = x) rows) = length (filter (\<lambda>y. y = x) (map f rows))"
  by (induction rows) auto

lemma generated_counts:
  assumes "length counts = n" "\<forall>k\<in>set counts. 2 \<le> k" "map nameOrig raw = repeat_each (map subject_name [0..<n]) counts"
  shows "i < n \<Longrightarrow> count_of raw (subject_name i) = counts ! i \<and> 2 \<le> counts ! i"
    and "nameOrig ` set raw = subject_name ` {..<n}"
proof -
  have count: "count_of raw (subject_name i) = counts ! i \<and> 2 \<le> counts ! i" if "i < n" for i
  proof -
    have "distinct (map subject_name [0..<n])" by (simp add: distinct_map inj_on_def)
    then have "length (filter (\<lambda>x. x = map subject_name [0..<n] ! i) (repeat_each (map subject_name [0..<n]) counts)) = counts ! i"
      by (rule count_repeat_each [rotated]) (use assms(1) that in simp_all)
    moreover have "map subject_name [0..<n] ! i = subject_name i" using that by simp
    moreover have "count_of raw (subject_name i) = length (filter (\<lambda>x. x = subject_name i) (map nameOrig raw))"
      unfolding count_of_def by (rule length_filter_map)
    ultimately have "count_of raw (subject_name i) = counts ! i" unfolding assms(3) by (simp only:)
    moreover have "2 \<le> counts ! i" using assms(1,2) that by simp
    ultimately show ?thesis ..
  qed
  then show "i < n \<Longrightarrow> count_of raw (subject_name i) = counts ! i \<and> 2 \<le> counts ! i" .
  show "nameOrig ` set raw = subject_name ` {..<n}"
  proof
    have "set (map nameOrig raw) \<subseteq> set (map subject_name [0..<n])"
      unfolding assms(3) by (rule set_repeat_each) (simp add: assms(1))
    then show "nameOrig ` set raw \<subseteq> subject_name ` {..<n}" by (simp add: lessThan_atLeast0)
    show "subject_name ` {..<n} \<subseteq> nameOrig ` set raw"
    proof
      fix s assume "s \<in> subject_name ` {..<n}"
      then obtain i where i: "i < n" "s = subject_name i" by auto
      with count have "count_of raw s \<noteq> 0" by fastforce
      then obtain r where "r \<in> set raw" "nameOrig r = s" by (auto simp: count_of_def filter_empty_conv)
      then show "s \<in> nameOrig ` set raw" by blast
    qed
  qed
qed

lemma built_size:
  assumes "build_shards env np seed ms raw d = (Inr R, d')" "inj_on (subject_ref (settings.truncate env)) (nameOrig ` set raw)"
  shows "length R = card (nameOrig ` set raw)"
proof -
  from assms(1) obtain sh sl where R: "R = routing_of env sh sl (count_of raw) (subjects_of raw)" by (rule build_shards_dest)
  have "distinct (map (subject_ref (settings.truncate env)) (subjects_of raw))" using assms(2) by (simp add: distinct_map)
  then have "length R = length (subjects_of raw)" unfolding R routing_of_def by (subst dict_of_distinct) (simp_all add: comp_def)
  also have "\<dots> = card (nameOrig ` set raw)" using distinct_card [OF set_subjects(2), of raw] by simp
  finally show ?thesis .
qed

section \<open>Property\<close>

text \<open>
  C38 From a seed to a deployment. If the draws have the documented sizes and ranges and the
  references of the subjects do not collide, building from generated data succeeds: exactly
  the \<open>n\<close> subjects are routed, each to a shard whose file holds all its rows, at least two;
  every file agrees with the routing table; and every row has a type of the vocabulary and a
  label 0 or 1, so that no later encoding can raise.
\<close>

theorem generated_deployment:
  assumes "draws_ok g" "\<And>n. length (np_beta np seed n) = n" "0 < HOT_SHARDS env" "HOT_SHARDS env < NUM_SHARDS env" "0 < NUM_SLICES env"
    and "inj_on (subject_ref (settings.truncate env)) (subject_name ` {..<n})" "\<forall>k. shard_npz d k = None"
    and "\<forall>m. max_step = Some m \<longrightarrow> 0 \<le> m"
  shows "\<exists>R d'. engine_build env np g None n seed max_step d = (Inr R, d') \<and> routing_json d' = Some R \<and> aligned d' \<and> length R = n
     \<and> (\<forall>i<n. \<exists>en rows. map_of R (subject_ref (settings.truncate env) (subject_name i)) = Some en \<and> int (e_shard en) < NUM_SHARDS env
          \<and> shard_npz d' (e_shard en) = Some rows \<and> 2 \<le> record_count en
          \<and> record_count en = length (filter (\<lambda>q. row_ref q = subject_ref (settings.truncate env) (subject_name i)) rows))
     \<and> (\<forall>k rows. shard_npz d' k = Some rows \<longrightarrow> (\<forall>q\<in>set rows. type_idx q < length TYPES \<and> isFraud q \<in> {0, 1}
          \<and> (\<exists>x. feature_row np q = Inr x)))"
proof -
  let ?ms = "case max_step of Some m \<Rightarrow> if m = 0 then 720 else m | None \<Rightarrow> 720" and ?ref = "subject_ref (settings.truncate env)"
  have "0 < ?ms" using assms(8) by (auto split: option.split)
  from generate_rows [OF assms(1) this] obtain raw counts where raw: "generate np g n seed ?ms = Inr raw" "length counts = n"
      "\<forall>k\<in>set counts. 2 \<le> k" "map nameOrig raw = repeat_each (map subject_name [0..<n]) counts" "\<forall>r\<in>set raw. row_ok r" .
  from build_ok [OF assms(2-5)] obtain R d' where run: "build_shards env np seed (np_of_int np ?ms) raw d = (Inr R, d')" by blast
  note count = generated_counts(1) [OF raw(2-4)] and names = generated_counts(2) [OF raw(2-4)]
  have inj: "inj_on ?ref (nameOrig ` set raw)" using assms(6) by (simp only: names)
  have none: "\<forall>k. NUM_SHARDS env \<le> int k \<longrightarrow> shard_npz d k = None" using assms(7) by simp
  note parts = partitions_aligned [OF run assms(2) inj none]
  have "length R = card (nameOrig ` set raw)" by (rule built_size [OF run inj])
  also have "\<dots> = n" unfolding names by (subst card_image) (simp_all add: inj_on_def)
  finally have size: "length R = n" .
  have subj: "\<exists>en rows. map_of R (?ref (subject_name i)) = Some en \<and> int (e_shard en) < NUM_SHARDS env
          \<and> shard_npz d' (e_shard en) = Some rows \<and> 2 \<le> record_count en
          \<and> record_count en = length (filter (\<lambda>q. row_ref q = ?ref (subject_name i)) rows)" if i: "i < n" for i
  proof -
    have "subject_name i \<in> nameOrig ` set raw" using i names by blast
    then obtain r where r: "r \<in> set raw" "nameOrig r = subject_name i" by auto
    with parts count [OF i] show ?thesis by metis
  qed
  have good: "type_idx q < length TYPES \<and> isFraud q \<in> {0, 1} \<and> (\<exists>x. feature_row np q = Inr x)"
    if q: "shard_npz d' k = Some rows" "q \<in> set rows" for k rows q
  proof -
    from run obtain sh sl where d': "d' = d\<lparr>shard_npz := (\<lambda>k. if k < nat (NUM_SHARDS env)
          then Some (map (shard_row env sl) (filter (\<lambda>r. sh (nameOrig r) = k) raw)) else shard_npz d k),
        routing_json := Some R\<rparr>"
      by (rule build_shards_dest)
    from q assms(7) obtain r where "r \<in> set raw" "q = shard_row env sl r" by (auto simp: d' split: if_splits)
    with raw(5) show ?thesis using feature_row_ok [of q np] by (auto simp: row_ok_def shard_row_def)
  qed
  have "engine_build env np g None n seed max_step d = (Inr R, d')"
    unfolding engine_build_def option.case Let_def by (simp add: io_bind_def io_lift_def raw(1) run)
  with parts size subj good show ?thesis by blast
qed

definition small_draws :: "(int, nat) generator" where
  "small_draws = \<lparr>default_rng = (\<lambda>s. s), rng_geometric = (\<lambda>_ n r. (replicate n 1, r)),
     rng_integers = (\<lambda>lo hi n r. if lo < hi then Inr (replicate n lo, r) else Inl ValueError),
     rng_lognormal = (\<lambda>_ _ n r. (replicate n 7, r)), rng_random = (\<lambda>n r. (replicate n 0, r))\<rparr>"

theorem generated_deployment_witness:
  "\<exists>R d'. engine_build small_env small_np small_draws None 1 1337 None (small_disk 3\<lparr>shard_npz := Map.empty\<rparr>) = (Inr R, d') \<and> aligned d'
     \<and> length R = 1"
proof -
  have "draws_ok small_draws" by (auto simp: draws_ok_def small_draws_def)
  moreover have "inj_on (subject_ref (settings.truncate small_env)) (subject_name ` {..<1})" by (simp add: inj_on_def lessThan_Suc)
  moreover have "\<forall>k. shard_npz (small_disk 3\<lparr>shard_npz := Map.empty\<rparr>) k = None" by simp
  ultimately show ?thesis
    using generated_deployment [OF _ small_build_params, of small_draws 1 "small_disk 3\<lparr>shard_npz := Map.empty\<rparr>" None 1337] by blast
qed

end
