(* ===== verification/Ingest.thy ===== *)
theory Ingest
  imports Build "HOL-Library.Sublist"
begin

text \<open>
  \<open>data/prepare.py\<close>: reading the transactions of a PaySim file, with the reader of the standard
  library's \<open>csv\<close> (the default dialect) written out as the state machine that it is.
\<close>

section \<open>Lines\<close>

text \<open>\<open>open(path, newline="")\<close>: lines end with LF, CR or CR LF, and keep their end.\<close>

fun split_line :: "string \<Rightarrow> string \<times> string" where
  "split_line [] = ([], [])"
| "split_line (c # s) =
     (if c = CHR 0x0A then ([c], s)
      else if c = CHR 0x0D then
        (case s of d # s' \<Rightarrow> if d = CHR 0x0A then ([c, d], s') else ([c], s) | [] \<Rightarrow> ([c], []))
      else (let (l, r) = split_line s in (c # l, r)))"

lemma split_line_shorter: "length (snd (split_line s)) \<le> length s - 1"
proof (induction s)
  case (Cons c s)
  have "snd (let (l, r) = split_line s in (c # l, r)) = snd (split_line s)" by (cases "split_line s") simp
  with Cons show ?case by (cases s) simp_all
qed simp

function lines_of :: "string \<Rightarrow> string list" where
  "lines_of s = (if s = [] then [] else let (l, r) = split_line s in l # lines_of r)"
  by pat_completeness auto
termination
proof (relation "measure length")
  fix s :: string and x l r assume "s \<noteq> []" "x = split_line s" "(l, r) = x"
  then show "(r, s) \<in> measure length" using split_line_shorter [of s] by (cases s) (auto simp: less_Suc_eq_le dest: arg_cong [of _ _ snd])
qed simp

declare lines_of.simps [simp del]

section \<open>Records\<close>

datatype csv_mode = Start_Record | Start_Field | In_Field | In_Quoted | Quote_In_Quoted | Eat_Crnl

record csv_state =
  c_mode :: csv_mode
  c_field :: string
  c_fields :: "string list"

definition csv_start :: csv_state where
  "csv_start = \<lparr>c_mode = Start_Record, c_field = [], c_fields = []\<rparr>"

definition save_field :: "csv_mode \<Rightarrow> csv_state \<Rightarrow> csv_state" where
  "save_field m s = \<lparr>c_mode = m, c_field = [], c_fields = c_fields s @ [c_field s]\<rparr>"

text \<open>A field has at most 131072 characters.\<close>

definition add_char :: "char \<Rightarrow> csv_mode \<Rightarrow> csv_state \<Rightarrow> csv_state res" where
  "add_char c m s =
     (if 131072 \<le> length (c_field s) then Inl OtherError
      else Inr \<lparr>c_mode = m, c_field = c_field s @ [c], c_fields = c_fields s\<rparr>)"

text \<open>\<open>None\<close> is the end of a line, after its characters.\<close>

definition line_end :: "char option \<Rightarrow> bool" where
  "line_end c \<longleftrightarrow> c = None \<or> c = Some (CHR 0x0A) \<or> c = Some (CHR 0x0D)"

definition end_mode :: "char option \<Rightarrow> csv_mode" where
  "end_mode c = (if c = None then Start_Record else Eat_Crnl)"

definition start_field :: "char option \<Rightarrow> csv_state \<Rightarrow> csv_state res" where
  "start_field c s =
     (if line_end c then Inr (save_field (end_mode c) s)
      else if c = Some (CHR 0x22) then Inr (s\<lparr>c_mode := In_Quoted\<rparr>)
      else if c = Some (CHR '','') then Inr (save_field Start_Field s)
      else add_char (the c) In_Field s)"

definition csv_char :: "char option \<Rightarrow> csv_state \<Rightarrow> csv_state res" where
  "csv_char c s =
     (case c_mode s of
        Start_Record \<Rightarrow> if c = None then Inr s else if line_end c then Inr (s\<lparr>c_mode := Eat_Crnl\<rparr>) else start_field c s
      | Start_Field \<Rightarrow> start_field c s
      | In_Field \<Rightarrow>
          if line_end c then Inr (save_field (end_mode c) s)
          else if c = Some (CHR '','') then Inr (save_field Start_Field s)
          else add_char (the c) In_Field s
      | In_Quoted \<Rightarrow>
          if c = None then Inr s
          else if c = Some (CHR 0x22) then Inr (s\<lparr>c_mode := Quote_In_Quoted\<rparr>)
          else add_char (the c) In_Quoted s
      | Quote_In_Quoted \<Rightarrow>
          if c = Some (CHR 0x22) then add_char (CHR 0x22) In_Quoted s
          else if c = Some (CHR '','') then Inr (save_field Start_Field s)
          else if line_end c then Inr (save_field (end_mode c) s)
          else add_char (the c) In_Field s
      | Eat_Crnl \<Rightarrow>
          if c = None then Inr (s\<lparr>c_mode := Start_Record\<rparr>) else if line_end c then Inr s else Inl OtherError)"

definition csv_line :: "string \<Rightarrow> csv_state \<Rightarrow> csv_state res" where
  "csv_line l s = fold_res csv_char (map Some l @ [None]) s"

text \<open>The next record and the lines after it; a quoted field may go on over several lines.\<close>

fun csv_record :: "string list \<Rightarrow> csv_state \<Rightarrow> (string list option \<times> string list) res" where
  "csv_record [] s =
     Inr (if c_field s \<noteq> [] \<or> c_mode s = In_Quoted then Some (c_fields s @ [c_field s]) else None, [])"
| "csv_record (l # ls) s =
     bind_res (csv_line l s) (\<lambda>s'. if c_mode s' = Start_Record then Inr (Some (c_fields s'), ls) else csv_record ls s')"

lemma csv_record_shorter: "csv_record ls s = Inr (r, ls') \<Longrightarrow> length ls' \<le> length ls \<and> (ls \<noteq> [] \<longrightarrow> length ls' < length ls)"
proof (induction ls arbitrary: s)
  case (Cons l ls)
  then show ?case by (fastforce simp: res_simps split: if_splits)
qed auto

lemma csv_record_progress: "csv_record ls csv_start = Inr (Some r, ls') \<Longrightarrow> length ls' < length ls"
  using csv_record_shorter [of ls csv_start "Some r" ls'] by (cases ls) (auto simp: csv_start_def)

section \<open>Rows\<close>

text \<open>\<open>DictReader\<close> skips empty lines.\<close>

function next_row :: "string list \<Rightarrow> (string list option \<times> string list) res" where
  "next_row ls =
     (case csv_record ls csv_start of
        Inl e \<Rightarrow> Inl e
      | Inr (Some [], ls') \<Rightarrow> next_row ls'
      | Inr (r, ls') \<Rightarrow> Inr (r, ls'))"
  by pat_completeness auto
termination
  by (relation "measure length") (auto dest: csv_record_progress)

declare next_row.simps [simp del]

lemma next_row_progress: "next_row ls = Inr (Some r, ls') \<Longrightarrow> length ls' < length ls"
proof (induction ls rule: next_row.induct)
  case (1 ls)
  show ?case
  proof (cases "csv_record ls csv_start")
    case (Inr x)
    obtain q ls'' where x: "x = (q, ls'')" by (cases x)
    show ?thesis
    proof (cases q)
      case None
      with 1(2) Inr x show ?thesis by (simp add: next_row.simps [of ls])
    next
      case (Some row)
      with Inr x csv_record_progress [of ls row ls''] have less: "length ls'' < length ls" by simp
      show ?thesis
      proof (cases row)
        case Nil
        with 1 Inr x Some less show ?thesis by (fastforce simp: next_row.simps [of ls])
      next
        case (Cons a as)
        with 1(2) Inr x Some less show ?thesis by (simp add: next_row.simps [of ls])
      qed
    qed
  qed (use 1(2) in \<open>simp add: next_row.simps [of ls]\<close>)
qed

text \<open>\<open>row[k]\<close>: the last column of that name, \<open>None\<close> where the row is too short.\<close>

definition csv_item :: "string list \<Rightarrow> string list \<Rightarrow> string \<Rightarrow> string option res" where
  "csv_item header row k =
     (case map_of (rev (zip header (map Some row) @ map (\<lambda>h. (h, None)) (drop (length row) header))) k of
        None \<Rightarrow> Inl KeyError | Some v \<Rightarrow> Inr v)"

fun index_of :: "'a \<Rightarrow> 'a list \<Rightarrow> nat option" where
  "index_of x [] = None"
| "index_of x (y # ys) = (if x = y then Some 0 else map_option Suc (index_of x ys))"

definition type_of_text :: "string option \<Rightarrow> nat res" where
  "type_of_text v = (case v of None \<Rightarrow> Inl KeyError | Some t \<Rightarrow> case index_of t TYPES of None \<Rightarrow> Inl KeyError | Some i \<Rightarrow> Inr i)"

text \<open>\<open>float\<close> of a text is the parameter \<open>py_float\<close>; the name may be missing in a short row.\<close>

definition number :: "(string \<Rightarrow> 'a res) \<Rightarrow> string option \<Rightarrow> 'a res" where
  "number parse v = (case v of None \<Rightarrow> Inl TypeError | Some t \<Rightarrow> parse t)"

definition convert_row :: "(string \<Rightarrow> 'f res) \<Rightarrow> string list \<Rightarrow> string list \<Rightarrow> (string option \<times> 'f txn) res" where
  "convert_row py_float header row =
     (let float = (\<lambda>k. bind_res (csv_item header row k) (number py_float)) in
      bind_res (csv_item header row ''nameOrig'') (\<lambda>name.
      bind_res (float ''step'') (\<lambda>step.
      bind_res (bind_res (csv_item header row ''type'') type_of_text) (\<lambda>i.
      bind_res (float ''amount'') (\<lambda>amount.
      bind_res (float ''oldbalanceOrg'') (\<lambda>old_org.
      bind_res (float ''newbalanceOrig'') (\<lambda>new_org.
      bind_res (float ''oldbalanceDest'') (\<lambda>old_dest.
      bind_res (float ''newbalanceDest'') (\<lambda>new_dest.
      bind_res (bind_res (csv_item header row ''isFraud'') (number int_of_string)) (\<lambda>fraud.
      Inr (name, \<lparr>t_step = step, t_amount = amount, t_oldbalanceOrg = old_org, t_newbalanceOrig = new_org,
                  t_oldbalanceDest = old_dest, t_newbalanceDest = new_dest, type_idx = i, isFraud = fraud\<rparr>)))))))))))"

text \<open>The loop of \<open>load\<close>: the row after the last one wanted is read, and not converted.\<close>

function load_rows ::
  "(string \<Rightarrow> 'f res) \<Rightarrow> int option \<Rightarrow> string list \<Rightarrow> int \<Rightarrow> string list \<Rightarrow> (string option \<times> 'f txn) list res" where
  "load_rows py_float max_rows header i ls =
     (case next_row ls of
        Inl e \<Rightarrow> Inl e
      | Inr (None, _) \<Rightarrow> Inr []
      | Inr (Some row, ls') \<Rightarrow>
          if (case max_rows of Some m \<Rightarrow> m \<le> i | None \<Rightarrow> False) then Inr []
          else bind_res (convert_row py_float header row) (\<lambda>x.
               bind_res (load_rows py_float max_rows header (i + 1) ls') (\<lambda>xs. Inr (x # xs))))"
  by pat_completeness auto
termination
  by (relation "measure (\<lambda>(_, _, _, _, ls). length ls)") (auto dest: next_row_progress)

declare load_rows.simps [simp del]

text \<open>\<open>load\<close> for the text of the file; the labels must fit into 64 bits.\<close>

definition labels_fit :: "(string option \<times> 'f txn) list \<Rightarrow> bool" where
  "labels_fit records = list_all (\<lambda>(_, r). - (2 ^ 63) \<le> isFraud r \<and> isFraud r < 2 ^ 63) records"

definition load_csv :: "(string \<Rightarrow> 'f res) \<Rightarrow> int option \<Rightarrow> string \<Rightarrow> (string option \<times> 'f txn) list res" where
  "load_csv py_float max_rows file_text =
     bind_res (csv_record (lines_of file_text) csv_start) (\<lambda>(header, ls).
     bind_res (case header of None \<Rightarrow> Inr [] | Some h \<Rightarrow> load_rows py_float max_rows h 0 ls) (\<lambda>records.
     if labels_fit records then Inr records else Inl OverflowError))"

text \<open>
  \<open>main\<close>: the records that are saved. \<open>choice\<close> is \<open>rng.choice(n, m, replace=False)\<close>; a limit
  of 0 counts as none.
\<close>

definition prepare_main ::
  "(string \<Rightarrow> 'f res) \<Rightarrow> (nat \<Rightarrow> int \<Rightarrow> nat list res) \<Rightarrow> int option \<Rightarrow> string \<Rightarrow> (string option \<times> 'f txn) list res" where
  "prepare_main py_float choice max_rows file_text =
     bind_res (load_csv py_float None file_text) (\<lambda>records.
     case max_rows of
       None \<Rightarrow> Inr records
     | Some m \<Rightarrow>
         if m = 0 \<or> int (length records) \<le> m then Inr records
         else bind_res (choice (length records) m) (\<lambda>idx. Inr (map (\<lambda>i. records ! i) (sort idx))))"

section \<open>Files without quotes\<close>

definition plain_char :: "char \<Rightarrow> bool" where
  "plain_char c \<longleftrightarrow> c \<noteq> CHR '','' \<and> c \<noteq> CHR 0x22 \<and> c \<noteq> CHR 0x0A \<and> c \<noteq> CHR 0x0D"

definition plain_field :: "string \<Rightarrow> bool" where
  "plain_field f \<longleftrightarrow> list_all plain_char f \<and> length f \<le> 131072"

fun row_text :: "string list \<Rightarrow> string" where
  "row_text [] = []"
| "row_text [f] = f"
| "row_text (f # g # fs) = f @ CHR '','' # row_text (g # fs)"

definition plain_row :: "string list \<Rightarrow> bool" where
  "plain_row r \<longleftrightarrow> list_all plain_field r \<and> 2 \<le> length r"

definition table_text :: "string list list \<Rightarrow> string" where
  "table_text rows = concat (map (\<lambda>r. row_text r @ [CHR 0x0A]) rows)"

lemma split_plain: "list_all (\<lambda>c. c \<noteq> CHR 0x0A \<and> c \<noteq> CHR 0x0D) l \<Longrightarrow> split_line (l @ CHR 0x0A # rest) = (l @ [CHR 0x0A], rest)"
  by (induction l) simp_all

lemma plain_no_break: "plain_field f \<Longrightarrow> list_all (\<lambda>c. c \<noteq> CHR 0x0A \<and> c \<noteq> CHR 0x0D) f"
  unfolding plain_field_def by (elim conjE list.pred_mono_strong) (simp add: plain_char_def)

lemma row_text_chars: "list_all plain_field r \<Longrightarrow> list_all (\<lambda>c. c \<noteq> CHR 0x0A \<and> c \<noteq> CHR 0x0D) (row_text r)"
proof (induction r rule: row_text.induct)
  case (2 f)
  then show ?case using plain_no_break [of f] by simp
next
  case (3 f g fs)
  then show ?case using plain_no_break [of f] by simp
qed simp

lemma lines_of_table: "list_all plain_row rows \<Longrightarrow> lines_of (table_text rows) = map (\<lambda>r. row_text r @ [CHR 0x0A]) rows"
proof (induction rows)
  case Nil
  show ?case by (simp add: table_text_def lines_of.simps)
next
  case (Cons r rows)
  have tx: "table_text (r # rows) = row_text r @ CHR 0x0A # table_text rows" by (simp add: table_text_def)
  have "list_all (\<lambda>c. c \<noteq> CHR 0x0A \<and> c \<noteq> CHR 0x0D) (row_text r)" by (rule row_text_chars) (use Cons.prems in \<open>simp add: plain_row_def\<close>)
  from split_plain [OF this] Cons show ?case unfolding tx by (subst lines_of.simps) simp
qed

text \<open>A field, from its first character to the one after it.\<close>

lemma field_chars:
  assumes "list_all plain_char f" "length acc + length f \<le> 131072"
  shows "fold_res csv_char (map Some f) \<lparr>c_mode = In_Field, c_field = acc, c_fields = fs\<rparr>
     = Inr \<lparr>c_mode = In_Field, c_field = acc @ f, c_fields = fs\<rparr>"
  using assms
proof (induction f arbitrary: acc)
  case (Cons c f)
  then have "csv_char (Some c) \<lparr>c_mode = In_Field, c_field = acc, c_fields = fs\<rparr> = Inr \<lparr>c_mode = In_Field, c_field = acc @ [c], c_fields = fs\<rparr>"
    by (simp add: csv_char_def line_end_def add_char_def plain_char_def)
  with Cons show ?case by simp
qed simp

lemma field_read:
  assumes "plain_field f" "c = CHR '','' \<or> c = CHR 0x0A"
  shows "fold_res csv_char (map Some f @ [Some c]) \<lparr>c_mode = Start_Field, c_field = [], c_fields = fs\<rparr>
     = Inr \<lparr>c_mode = (if c = CHR '','' then Start_Field else Eat_Crnl), c_field = [], c_fields = fs @ [f]\<rparr>"
proof (cases f)
  case Nil
  with assms(2) show ?thesis by (auto simp: csv_char_def start_field_def line_end_def save_field_def end_mode_def)
next
  case (Cons d g)
  have d: "plain_char d" and g: "list_all plain_char g" "length [d] + length g \<le> 131072"
    using assms(1) by (auto simp: plain_field_def Cons)
  have "csv_char (Some d) \<lparr>c_mode = Start_Field, c_field = [], c_fields = fs\<rparr> = Inr \<lparr>c_mode = In_Field, c_field = [d], c_fields = fs\<rparr>"
    using d by (simp add: csv_char_def start_field_def line_end_def add_char_def plain_char_def)
  moreover have "csv_char (Some c) \<lparr>c_mode = In_Field, c_field = [d] @ g, c_fields = fs\<rparr>
      = Inr \<lparr>c_mode = (if c = CHR '','' then Start_Field else Eat_Crnl), c_field = [], c_fields = fs @ [f]\<rparr>"
    using assms(2) by (auto simp: csv_char_def line_end_def save_field_def end_mode_def Cons)
  ultimately show ?thesis using field_chars [OF g] by (simp add: Cons fold_res_append)
qed

lemma row_read:
  assumes "list_all plain_field r" "r \<noteq> []"
  shows "fold_res csv_char (map Some (row_text r) @ [Some (CHR 0x0A), None]) \<lparr>c_mode = Start_Field, c_field = [], c_fields = fs\<rparr>
     = Inr \<lparr>c_mode = Start_Record, c_field = [], c_fields = fs @ r\<rparr>"
  using assms
proof (induction r arbitrary: fs rule: row_text.induct)
  case (2 f)
  have "fold_res csv_char (map Some (row_text [f]) @ [Some (CHR 0x0A), None]) \<lparr>c_mode = Start_Field, c_field = [], c_fields = fs\<rparr>
      = fold_res csv_char ((map Some f @ [Some (CHR 0x0A)]) @ [None]) \<lparr>c_mode = Start_Field, c_field = [], c_fields = fs\<rparr>"
    by simp
  also have "\<dots> = fold_res csv_char [None] \<lparr>c_mode = Eat_Crnl, c_field = [], c_fields = fs @ [f]\<rparr>"
    using 2 field_read [of f "CHR 0x0A" fs] by (simp only: fold_res_append [where xs = "_ @ [_]"]) simp
  also have "\<dots> = Inr \<lparr>c_mode = Start_Record, c_field = [], c_fields = fs @ [f]\<rparr>" by (simp add: csv_char_def)
  finally show ?case .
next
  case (3 f g r)
  have "fold_res csv_char (map Some (row_text (f # g # r)) @ [Some (CHR 0x0A), None]) \<lparr>c_mode = Start_Field, c_field = [], c_fields = fs\<rparr>
      = fold_res csv_char ((map Some f @ [Some (CHR '','')]) @ (map Some (row_text (g # r)) @ [Some (CHR 0x0A), None]))
          \<lparr>c_mode = Start_Field, c_field = [], c_fields = fs\<rparr>"
    by simp
  also have "\<dots> = fold_res csv_char (map Some (row_text (g # r)) @ [Some (CHR 0x0A), None]) \<lparr>c_mode = Start_Field, c_field = [], c_fields = fs @ [f]\<rparr>"
    using 3 field_read [of f "CHR '',''" fs] by (simp only: fold_res_append [where xs = "_ @ [_]"]) simp
  also have "\<dots> = Inr \<lparr>c_mode = Start_Record, c_field = [], c_fields = fs @ f # g # r\<rparr>" using 3 by simp
  finally show ?case .
qed simp

lemma csv_record_plain:
  assumes "plain_row r"
  shows "csv_record ((row_text r @ [CHR 0x0A]) # ls) csv_start = Inr (Some r, ls)"
proof -
  obtain f g fs where r: "r = f # g # fs" using assms by (auto simp: plain_row_def numeral_2_eq_2 Suc_le_length_iff)
  obtain c l where l: "row_text r @ [CHR 0x0A] = c # l" "\<not> line_end (Some c)"
  proof (cases f)
    case (Cons d f')
    with assms that show thesis by (auto simp: r plain_row_def plain_field_def plain_char_def line_end_def)
  qed (use that in \<open>simp add: r line_end_def\<close>)
  have "csv_char (Some c) csv_start = csv_char (Some c) \<lparr>c_mode = Start_Field, c_field = [], c_fields = []\<rparr>"
    using l(2) by (simp add: csv_char_def csv_start_def start_field_def save_field_def add_char_def)
  then have "csv_line (row_text r @ [CHR 0x0A]) csv_start
      = fold_res csv_char (map Some (row_text r @ [CHR 0x0A]) @ [None]) \<lparr>c_mode = Start_Field, c_field = [], c_fields = []\<rparr>"
    unfolding csv_line_def l(1) by simp
  also have "\<dots> = Inr \<lparr>c_mode = Start_Record, c_field = [], c_fields = r\<rparr>"
    using row_read [of r "[]"] assms by (simp add: plain_row_def r)
  finally show ?thesis by simp
qed

lemma next_row_plain: "plain_row r \<Longrightarrow> next_row ((row_text r @ [CHR 0x0A]) # ls) = Inr (Some r, ls)"
  unfolding next_row.simps [of "_ # _"] csv_record_plain by (cases r) (simp_all add: plain_row_def)

lemma load_rows_plain:
  "list_all plain_row rows \<Longrightarrow> load_rows py_float None header i (map (\<lambda>r. row_text r @ [CHR 0x0A]) rows) = map_res (convert_row py_float header) rows"
proof (induction rows arbitrary: i)
  case Nil
  show ?case by (simp add: load_rows.simps next_row.simps csv_start_def)
next
  case (Cons r rows)
  then show ?case by (simp add: load_rows.simps [of _ _ _ _ "_ # _"] next_row_plain)
qed

section \<open>Prefixes and samples\<close>

lemma load_rows_prefix:
  "load_rows py_float None header i ls = Inr recs \<Longrightarrow> load_rows py_float (Some m) header i ls = Inr (take (nat (m - i)) recs)"
proof (induction "length ls" arbitrary: i ls recs rule: less_induct)
  case less
  obtain q ls' where q: "next_row ls = Inr (q, ls')"
    using less.prems by (cases "next_row ls") (auto simp: load_rows.simps [of _ _ _ _ ls])
  show ?case
  proof (cases q)
    case None
    with less.prems q show ?thesis by (simp add: load_rows.simps [of _ _ _ _ ls])
  next
    case (Some row)
    with less.prems q obtain x xs where x: "convert_row py_float header row = Inr x" "load_rows py_float None header (i + 1) ls' = Inr xs" "recs = x # xs"
      by (auto simp: load_rows.simps [of _ _ _ _ ls] res_simps)
    from less.hyps [OF _ x(2)] next_row_progress [of ls row ls'] q Some
    have "load_rows py_float (Some m) header (i + 1) ls' = Inr (take (nat (m - (i + 1))) xs)" by simp
    moreover have "nat (m - i) = Suc (nat (m - (i + 1)))" if "\<not> m \<le> i" using that by simp
    ultimately show ?thesis using q Some x(1)
      by (cases "m \<le> i") (simp_all add: load_rows.simps [of _ _ _ _ ls] x(3))
  qed
qed

lemma load_csv_prefix:
  assumes "load_csv py_float None file_text = Inr recs"
  shows "load_csv py_float (Some m) file_text = Inr (take (nat m) recs)"
proof -
  from assms obtain header ls where h: "csv_record (lines_of file_text) csv_start = Inr (header, ls)"
      "(case header of None \<Rightarrow> Inr [] | Some h \<Rightarrow> load_rows py_float None h 0 ls) = Inr recs" "labels_fit recs"
    by (auto simp: load_csv_def res_simps split: if_splits)
  then have "(case header of None \<Rightarrow> Inr [] | Some h \<Rightarrow> load_rows py_float (Some m) h 0 ls) = Inr (take (nat m) recs)"
    by (cases header) (auto dest: load_rows_prefix [where m = m])
  moreover have "labels_fit (take (nat m) recs)" using h(3) by (auto simp: labels_fit_def list_all_iff dest: in_set_takeD)
  ultimately show ?thesis using h(1) by (simp add: load_csv_def)
qed

section \<open>Properties\<close>

lemma nths_upt_filter: "nths [0..<n] A = filter (\<lambda>i. i \<in> A) [0..<n]"
  by (induction n) (simp_all add: nths_append nths_singleton)

text \<open>
  C39 A file is read row by row. Of a file of at least two columns without quotes, each line
  after the header gives one record, in order, and the first row that cannot be converted
  decides the exception; labels beyond 64 bits raise at the end. A limit gives the records of
  the first rows and nothing else, whatever the file looks like.
\<close>

theorem ingest_reads_table:
  assumes "plain_row header" "list_all plain_row rows"
  shows "load_csv py_float None (table_text (header # rows))
       = bind_res (map_res (convert_row py_float header) rows) (\<lambda>recs. if labels_fit recs then Inr recs else Inl OverflowError)
     \<and> (\<forall>m recs file_text. load_csv py_float None file_text = Inr recs \<longrightarrow> load_csv py_float (Some m) file_text = Inr (take (nat m) recs))"
proof -
  have "lines_of (table_text (header # rows)) = (row_text header @ [CHR 0x0A]) # map (\<lambda>r. row_text r @ [CHR 0x0A]) rows"
    by (subst lines_of_table) (use assms in simp_all)
  then have "load_csv py_float None (table_text (header # rows))
      = bind_res (map_res (convert_row py_float header) rows) (\<lambda>recs. if labels_fit recs then Inr recs else Inl OverflowError)"
    unfolding load_csv_def using csv_record_plain [OF assms(1)] load_rows_plain [OF assms(2), of py_float header 0] by (simp del: csv_record.simps)
  then show ?thesis using load_csv_prefix by blast
qed

definition small_header :: "string list" where
  "small_header = [''step'', ''type'', ''amount'', ''nameOrig'', ''oldbalanceOrg'', ''newbalanceOrig'', ''oldbalanceDest'', ''newbalanceDest'', ''isFraud'']"

definition small_line :: "string list" where
  "small_line = [''1'', ''PAYMENT'', ''9'', ''C1'', ''1'', ''1'', ''1'', ''1'', ''0'']"

definition small_txn :: "int txn" where
  "small_txn = \<lparr>t_step = 1, t_amount = 9, t_oldbalanceOrg = 1, t_newbalanceOrig = 1, t_oldbalanceDest = 1, t_newbalanceDest = 1,
     type_idx = 3, isFraud = 0\<rparr>"

lemma small_converts: "convert_row int_of_string small_header small_line = Inr (Some ''C1'', small_txn)"
proof -
  have int: "int_of_string ''1'' = Inr 1" "int_of_string ''9'' = Inr 9" "int_of_string ''0'' = Inr 0"
    using int_of_string_dec [of 1] int_of_string_dec [of 9] int_of_string_dec [of 0]
    by (simp_all add: int_dec_def nat_dec.simps hex_digit_def char_of_def bit_0)
  show ?thesis
    by (simp add: convert_row_def csv_item_def small_header_def small_line_def number_def type_of_text_def TYPES_def small_txn_def int)
qed

theorem ingest_reads_table_witness:
  "load_csv int_of_string None (table_text [small_header, small_line]) = Inr [(Some ''C1'', small_txn)]"
proof -
  have "plain_row small_header" "list_all plain_row [small_line]"
    by (simp_all add: plain_row_def plain_field_def plain_char_def small_header_def small_line_def)
  with ingest_reads_table [of small_header "[small_line]" int_of_string] show ?thesis
    by (simp add: small_converts labels_fit_def small_txn_def)
qed

text \<open>
  A sample is a part of the file in its order. If \<open>choice\<close> draws as NumPy documents, a
  limit below the number of rows keeps that many of them, in the order of the file.
\<close>

theorem sample_in_order:
  assumes "load_csv py_float None file_text = Inr recs" "0 < m"
    and "\<And>n. m \<le> int n \<Longrightarrow> \<exists>idx. choice n m = Inr idx \<and> length idx = nat m \<and> distinct idx \<and> set idx \<subseteq> {..<n}"
  shows "\<exists>sample. prepare_main py_float choice (Some m) file_text = Inr sample \<and> subseq sample recs
     \<and> length sample = min (nat m) (length recs)"
proof (cases "int (length recs) \<le> m")
  case True
  then show ?thesis using assms(1,2) by (simp add: prepare_main_def)
next
  case False
  then obtain idx where idx: "choice (length recs) m = Inr idx" "length idx = nat m" "distinct idx" "set idx \<subseteq> {..<length recs}"
    using assms(3) [of "length recs"] by auto
  have "map (\<lambda>i. recs ! i) (sort idx) = nths recs (set idx)"
  proof -
    have "sort idx = filter (\<lambda>i. i \<in> set idx) [0..<length recs]"
      by (rule sorted_distinct_set_unique) (use idx(3,4) in \<open>auto intro: sorted_wrt_filter\<close>)
    moreover have "nths recs (set idx) = map (\<lambda>i. recs ! i) (filter (\<lambda>i. i \<in> set idx) [0..<length recs])"
      using nths_map [of "\<lambda>i. recs ! i" "[0..<length recs]" "set idx"] by (simp add: map_nth nths_upt_filter)
    ultimately show ?thesis by simp
  qed
  then have "subseq (map (\<lambda>i. recs ! i) (sort idx)) recs" by (auto simp: subseq_conv_nths)
  moreover have "prepare_main py_float choice (Some m) file_text = Inr (map (\<lambda>i. recs ! i) (sort idx))"
    using False assms(1,2) idx(1) by (simp add: prepare_main_def)
  ultimately show ?thesis using False idx(2) by auto
qed

end
