(* ===== verification/Gbdt.thy ===== *)
theory Gbdt
  imports Rebuild
begin

text \<open>
  \<open>engine/gbdt.py\<close>: the same contract over gradient-boosted trees. XGBoost is the
  parameter \<open>('f, 't) xgboost\<close>: a booster is the list of its trees, one per boosting
  round, and the next tree is a function of the training data and the trees before it
  (the parameters are fixed, \<open>base_score\<close> included). Training data that it does not
  accept, such as none at all, raises its own error class.
\<close>

record ('f, 't) xgboost =
  accepts :: "('f list \<times> int) list \<Rightarrow> bool"
  boost :: "('f list \<times> int) list \<Rightarrow> 't list \<Rightarrow> 't"
  save_raw :: "'t list \<Rightarrow> bytes"
  xgb_score :: "'t list \<Rightarrow> 'f list \<Rightarrow> 'f"

section \<open>Training and rolling back\<close>

definition matrix :: "'f numpy \<Rightarrow> 'f row list \<Rightarrow> nat \<Rightarrow> ('f list \<times> int) list res" where
  "matrix np records i =
     bind_res (features np (upto_slice i records)) (\<lambda>x.
       Inr (zip x (map isFraud (upto_slice i records))))"

text \<open>\<open>xgb.train(PARAMS, data, num_boost_round=n, xgb_model=booster)\<close>\<close>

fun xgb_rounds :: "('f, 't) xgboost \<Rightarrow> ('f list \<times> int) list \<Rightarrow> nat \<Rightarrow> 't list \<Rightarrow> 't list" where
  "xgb_rounds x data 0 booster = booster"
| "xgb_rounds x data (Suc n) booster = xgb_rounds x data n (booster @ [boost x data booster])"

definition xgb_train :: "('f, 't) xgboost \<Rightarrow> ('f list \<times> int) list \<Rightarrow> nat \<Rightarrow> 't list option \<Rightarrow> 't list res" where
  "xgb_train x data n booster =
     (if \<not> accepts x data then Inl OtherError
      else Inr (xgb_rounds x data n (case booster of None \<Rightarrow> [] | Some b \<Rightarrow> b)))"

definition gbdt_train_slice ::
  "'f numpy \<Rightarrow> ('f, 't) xgboost \<Rightarrow> nat \<Rightarrow> 'f row list \<Rightarrow> nat \<Rightarrow> 't list option \<Rightarrow> 't list option res" where
  "gbdt_train_slice np x trees records i booster =
     bind_res (matrix np records i) (\<lambda>data.
     bind_res (xgb_train x data trees booster) (\<lambda>b. Inr (Some b)))"

definition gbdt_train_shard ::
  "('f, 'z) env_scheme \<Rightarrow> 'f numpy \<Rightarrow> ('f, 't) xgboost \<Rightarrow> 'f row list \<Rightarrow> nat \<Rightarrow> 't list option \<Rightarrow> nat
    \<Rightarrow> 't list option res" where
  "gbdt_train_shard env np x records from_slice booster trees =
     (if 0 < from_slice \<and> booster = None then Inl ValueError
      else if PYTHONHASHSEED env \<noteq> Some ''0'' then Inl DeterminismError
      else fold_res (gbdt_train_slice np x trees records) [from_slice..<NUM_SLICES env] booster)"

text \<open>\<open>booster[0:n]\<close> raises IndexError beyond the last round.\<close>

definition rollback :: "'t list \<Rightarrow> nat \<Rightarrow> nat \<Rightarrow> 't list option res" where
  "rollback booster to_slice trees =
     (if to_slice = 0 then Inr None
      else if length booster < to_slice * trees then Inl IndexError
      else Inr (Some (take (to_slice * trees) booster)))"

definition rebuild_booster ::
  "('f, 'z) env_scheme \<Rightarrow> 'f numpy \<Rightarrow> ('f, 't) xgboost \<Rightarrow> string list \<Rightarrow> 'f row list \<Rightarrow> nat \<Rightarrow> 't list \<Rightarrow> nat
    \<Rightarrow> ('t list option \<times> 'f row list) res" where
  "rebuild_booster env np x refs records min_slice booster trees =
     (let retained = filter (\<lambda>r. row_ref r \<notin> set refs) records in
      if retained = records then Inl ValueError
      else bind_res (rollback booster min_slice trees) (\<lambda>b.
           bind_res (gbdt_train_shard env np x retained min_slice b trees) (\<lambda>rebuilt.
           Inr (rebuilt, retained))))"

definition gbdt_predict :: "'f numpy \<Rightarrow> ('f, 't) xgboost \<Rightarrow> 't list \<Rightarrow> ('f, 'z) txn_scheme list \<Rightarrow> 'f list res" where
  "gbdt_predict np x booster rows = bind_res (features np rows) (\<lambda>m. Inr (map (xgb_score x booster) m))"

section \<open>Files and digests\<close>

text \<open>Without a booster (no slice was trained) the methods of None raise AttributeError.\<close>

definition save_booster :: "'t list option \<Rightarrow> nat \<Rightarrow> (('f, 't) disk, unit) io" where
  "save_booster booster shard =
     (case booster of None \<Rightarrow> io_raise AttributeError
      | Some b \<Rightarrow> io_modify (\<lambda>d. d\<lparr>gbdt_json := (gbdt_json d)(shard \<mapsto> b)\<rparr>))"

definition load_booster :: "nat \<Rightarrow> (('f, 't) disk, 't list) io" where
  "load_booster shard = io_read (\<lambda>d. gbdt_json d shard)"

definition booster_digest :: "('f, 't) xgboost \<Rightarrow> 't list option \<Rightarrow> string res" where
  "booster_digest x booster =
     (case booster of None \<Rightarrow> Inl AttributeError | Some b \<Rightarrow> Inr (to_hex (sha256 (save_raw x b))))"

definition gbdt_config_digest :: "('f, 'z) env_scheme \<Rightarrow> string" where
  "gbdt_config_digest env = ''sha256:'' @ sha256_hex (json_object
     [(''base_score'', ''0.5''), (''eta'', ''0.1''), (''max_depth'', ''4''), (''nthread'', ''1''),
      (''num_shards'', int_dec (NUM_SHARDS env)), (''num_slices'', int_dec (int (NUM_SLICES env))),
      (''objective'', quote ''binary:logistic''), (''seed'', int_dec (int (SEED env))),
      (''tree_method'', quote ''hist''), (''trees_per_slice'', int_dec (int (TREES_PER_SLICE env)))])"

definition gbdt_build ::
  "('f, 'z) env_scheme \<Rightarrow> 'f numpy \<Rightarrow> ('f, 't) xgboost \<Rightarrow> routing \<Rightarrow> nat \<Rightarrow> (('f, 't) disk, unit) io" where
  "gbdt_build env np x routing trees =
     io_fold (\<lambda>shard _.
         io_bind (load_shard shard) (\<lambda>records.
         io_bind (io_lift (gbdt_train_shard env np x records 0 None trees)) (\<lambda>b.
         save_booster b shard)))
       (sorted_list_of_set (e_shard ` snd ` set routing)) ()"

section \<open>The rebuild of a batch\<close>

record ('f, 't) gbdt_replay =
  g_records :: "'f row list"
  g_from :: nat
  g_booster :: "'t list option"
  g_trees :: nat
  g_seed :: nat

definition gbdt_rebuild_batch_by_ref ::
  "('f, 'z) env_scheme \<Rightarrow> 'f numpy \<Rightarrow> ('f, 't) xgboost \<Rightarrow> (bytes \<Rightarrow> bytes \<Rightarrow> bytes) \<Rightarrow> string \<Rightarrow> string
    \<Rightarrow> string list \<Rightarrow> nat \<Rightarrow> bool \<Rightarrow> (('f, 't) disk, ('f, 't) gbdt_replay rebuild_result) io" where
  "gbdt_rebuild_batch_by_ref env np x ed_sign purged_at completed_at refs trees sign =
     io_bind (io_when (refs = []) ValueError) (\<lambda>_.
     io_bind load_routing (\<lambda>routing.
     io_bind (io_lift (batch_target routing refs)) (\<lambda>(shard, min_slice).
     io_bind (load_shard shard) (\<lambda>records.
     io_bind (io_get tree_caches) (\<lambda>cache.
     io_bind (io_lift (tree_for_shard cache shard (map row_ref records))) (\<lambda>tree_before.
     io_bind (load_booster shard) (\<lambda>booster.
     io_bind (io_lift (rebuild_booster env np x refs records min_slice booster trees)) (\<lambda>(rebuilt, retained).
     io_bind (save_shard shard retained) (\<lambda>_.
     io_bind (save_booster rebuilt shard) (\<lambda>_.
     io_bind (io_lift (rollback booster min_slice trees)) (\<lambda>resume_booster.
     io_bind (io_lift (booster_digest x rebuilt)) (\<lambda>weights.
     io_bind (certify env ed_sign sign (gbdt_config_digest env) ''gbdt-shard'' shard min_slice weights
                purged_at completed_at tree_before refs routing) (\<lambda>ms.
     io_return
       \<lparr>res_shard = shard, resumed_from = resumed_text min_slice,
        rows_purged = length records - length retained,
        slices_retrained = [min_slice..<NUM_SLICES env], result_weights = weights, manifests = ms,
        replay = \<lparr>g_records = retained, g_from = min_slice, g_booster = resume_booster,
                  g_trees = trees, g_seed = SEED env\<rparr>\<rparr>)))))))))))))"

definition gbdt_replay_digest ::
  "('f, 'z) env_scheme \<Rightarrow> 'f numpy \<Rightarrow> ('f, 't) xgboost \<Rightarrow> ('f, 't) gbdt_replay \<Rightarrow> string res" where
  "gbdt_replay_digest env np x rp =
     bind_res (gbdt_train_shard env np x (g_records rp) (g_from rp) (g_booster rp) (g_trees rp)) (booster_digest x)"

definition gbdt_rebuild_batch ::
  "('f, 'z) env_scheme \<Rightarrow> 'f numpy \<Rightarrow> ('f, 't) xgboost \<Rightarrow> (bytes \<Rightarrow> bytes \<Rightarrow> bytes) \<Rightarrow> string \<Rightarrow> string
    \<Rightarrow> string list \<Rightarrow> nat \<Rightarrow> bool \<Rightarrow> (('f, 't) disk, ('f, 't) gbdt_replay rebuild_result) io" where
  "gbdt_rebuild_batch env np x ed_sign purged_at completed_at subject_ids trees sign =
     gbdt_rebuild_batch_by_ref env np x ed_sign purged_at completed_at
       (map (subject_ref (settings.truncate env)) subject_ids) trees sign"

definition gbdt_rebuild ::
  "('f, 'z) env_scheme \<Rightarrow> 'f numpy \<Rightarrow> ('f, 't) xgboost \<Rightarrow> (bytes \<Rightarrow> bytes \<Rightarrow> bytes) \<Rightarrow> string \<Rightarrow> string
    \<Rightarrow> string \<Rightarrow> nat \<Rightarrow> bool \<Rightarrow> (('f, 't) disk, string \<times> manifest \<times> ('f, 't) gbdt_replay rebuild_result) io" where
  "gbdt_rebuild env np x ed_sign purged_at completed_at subject_id trees sign =
     (let ref = subject_ref (settings.truncate env) subject_id in
      io_bind (gbdt_rebuild_batch env np x ed_sign purged_at completed_at [subject_id] trees sign) (\<lambda>result.
      io_bind (io_lift (case map_of (manifests result) ref of None \<Rightarrow> Inl KeyError | Some m \<Rightarrow> Inr m)) (\<lambda>m.
      io_return (ref, m, result))))"

section \<open>Boosters grow by appending\<close>

definition trees_of :: "'t list option \<Rightarrow> 't list" where
  "trees_of b = (case b of None \<Rightarrow> [] | Some ts \<Rightarrow> ts)"

lemma trees_of_simps [simp]: "trees_of None = []" "trees_of (Some ts) = ts"
  by (simp_all add: trees_of_def)

lemma xgb_rounds_grows: "\<exists>new. xgb_rounds x data n b = b @ new \<and> length new = n"
proof (induction n arbitrary: b)
  case (Suc n)
  from Suc [of "b @ [boost x data b]"] show ?case by auto
qed simp

lemma gbdt_slice_grows:
  assumes "gbdt_train_slice np x trees rs i b = Inr b'"
  shows "\<exists>new. b' = Some (trees_of b @ new) \<and> length new = trees"
  using assms xgb_rounds_grows [of x _ trees "trees_of b"]
  by (auto simp: gbdt_train_slice_def xgb_train_def res_simps trees_of_def split: if_splits option.splits)

lemma gbdt_fold_grows:
  "fold_res (gbdt_train_slice np x trees rs) is b = Inr b' \<Longrightarrow>
   \<exists>new. trees_of b' = trees_of b @ new \<and> length new = length is * trees \<and> (is \<noteq> [] \<or> b \<noteq> None \<longrightarrow> b' \<noteq> None)"
proof (induction "is" arbitrary: b)
  case (Cons i "is")
  then obtain b1 where b1: "gbdt_train_slice np x trees rs i b = Inr b1" "fold_res (gbdt_train_slice np x trees rs) is b1 = Inr b'"
    by (auto simp: res_simps)
  from gbdt_slice_grows [OF b1(1)] obtain new1 where new1: "b1 = Some (trees_of b @ new1)" "length new1 = trees" by blast
  from Cons.IH [OF b1(2)] new1 obtain new where "trees_of b' = (trees_of b @ new1) @ new" "length new = length is * trees" "b' \<noteq> None"
    by auto
  with new1(2) show ?case by (intro exI [of _ "new1 @ new"]) simp
qed auto

lemma gbdt_fold_cong:
  "(\<And>j. j \<in> set is \<Longrightarrow> upto_slice j rs = upto_slice j rs') \<Longrightarrow>
   fold_res (gbdt_train_slice np x trees rs) is b = fold_res (gbdt_train_slice np x trees rs') is b"
proof (induction "is" arbitrary: b)
  case (Cons i "is")
  then have "gbdt_train_slice np x trees rs i b = gbdt_train_slice np x trees rs' i b"
    by (simp add: gbdt_train_slice_def matrix_def)
  with Cons show ?case by (cases "gbdt_train_slice np x trees rs' i b") simp_all
qed simp

text \<open>
  The trees of the slices up to \<open>i\<close> do not depend on rows of later slices, nor on how
  many slices follow.
\<close>

lemma gbdt_prefix:
  assumes 1: "fold_res (gbdt_train_slice np x trees rs) [m..<N] b = Inr c"
    and 2: "fold_res (gbdt_train_slice np x trees rs') [m..<N] b = Inr c'"
    and upto: "\<And>j. j \<le> i \<Longrightarrow> upto_slice j rs = upto_slice j rs'" and i: "m \<le> i" "i < N"
    and len: "length (trees_of b) = m * trees"
  shows "take (Suc i * trees) (trees_of c) = take (Suc i * trees) (trees_of c')"
proof -
  have split: "[m..<N] = [m..<Suc i] @ [Suc i..<N]"
    using i upt_add_eq_append [of m "Suc i" "N - Suc i"] by simp
  let ?f = "fold_res (gbdt_train_slice np x trees rs)"
  let ?g = "fold_res (gbdt_train_slice np x trees rs')"
  from 1 obtain a where a: "?f [m..<Suc i] b = Inr a" "?f [Suc i..<N] a = Inr c"
    unfolding split fold_res_append by (auto simp: res_simps)
  from 2 obtain a' where a': "?g [m..<Suc i] b = Inr a'" "?g [Suc i..<N] a' = Inr c'"
    unfolding split fold_res_append by (auto simp: res_simps)
  have "?f [m..<Suc i] b = ?g [m..<Suc i] b" by (rule gbdt_fold_cong) (use upto in auto)
  with a(1) a'(1) have eq: "a' = a" by simp
  from gbdt_fold_grows [OF a(1)] len have "length (trees_of a) = m * trees + (Suc i - m) * trees" by auto
  also have "\<dots> = (m + (Suc i - m)) * trees" by (simp only: add_mult_distrib)
  finally have "length (trees_of a) = Suc i * trees" using i(1) by simp
  with gbdt_fold_grows [OF a(2)] gbdt_fold_grows [OF a'(2)] eq show ?thesis by auto
qed

section \<open>The effect of a successful rebuild\<close>

definition gbdt_plan ::
  "('f, 'z) env_scheme \<Rightarrow> 'f numpy \<Rightarrow> ('f, 't) xgboost \<Rightarrow> (bytes \<Rightarrow> bytes \<Rightarrow> bytes) \<Rightarrow> string \<Rightarrow> string
    \<Rightarrow> string list \<Rightarrow> nat \<Rightarrow> bool \<Rightarrow> routing \<Rightarrow> nat \<Rightarrow> nat \<Rightarrow> smt \<Rightarrow> 'f row list \<Rightarrow> nat \<Rightarrow> 't list option
    \<Rightarrow> ('f, 't) gbdt_replay rebuild_result \<times> 't list \<times> smt \<times> routing \<Rightarrow> bool" where
  "gbdt_plan env np x sg pa ca refs trees sign R k m tb ret n resume = (\<lambda>(r, b, tree, R').
     \<exists>ms. gbdt_train_shard env np x ret m resume trees = Inr (Some b) \<and> smt_remove tb refs = Inr tree
       \<and> issue_all env sg sign (certificate_fields env (gbdt_config_digest env) ''gbdt-shard'' k m
            (to_hex (sha256 (save_raw x b))) pa ca tree) tree refs = Inr ms
       \<and> fold_res routing_pop refs R = Inr R'
       \<and> r = \<lparr>res_shard = k, resumed_from = resumed_text m, rows_purged = n,
               slices_retrained = [m..<NUM_SLICES env], result_weights = to_hex (sha256 (save_raw x b)), manifests = ms,
               replay = \<lparr>g_records = ret, g_from = m, g_booster = resume, g_trees = trees, g_seed = SEED env\<rparr>\<rparr>)"

definition gbdt_reads ::
  "string list \<Rightarrow> nat \<Rightarrow> ('f, 't) disk
    \<Rightarrow> routing \<times> nat \<times> nat \<times> smt \<times> 'f row list \<times> nat \<times> 't list option \<Rightarrow> bool" where
  "gbdt_reads refs trees d = (\<lambda>(R, k, m, tb, ret, n, resume). refs \<noteq> [] \<and> (\<exists>rows b.
     routing_json d = Some R \<and> batch_target R refs = Inr (k, m) \<and> shard_npz d k = Some rows
     \<and> tree_for_shard (tree_caches d) k (map row_ref rows) = Inr tb \<and> gbdt_json d k = Some b
     \<and> ret = filter (\<lambda>r. row_ref r \<notin> set refs) rows \<and> n = length rows - length ret \<and> ret \<noteq> rows
     \<and> rollback b m trees = Inr resume))"

definition gbdt_writes :: "nat \<Rightarrow> 'f row list \<Rightarrow> 't list \<Rightarrow> smt \<Rightarrow> routing \<Rightarrow> ('f, 't) disk \<Rightarrow> ('f, 't) disk" where
  "gbdt_writes k ret b tree R' d =
     d\<lparr>shard_npz := (shard_npz d)(k \<mapsto> ret), gbdt_json := (gbdt_json d)(k \<mapsto> b),
       tree_caches := cache_tree (tree_caches d) k tree, routing_json := Some R'\<rparr>"

lemma save_booster_iff:
  "save_booster b k d = (Inr u, d') \<longleftrightarrow> (\<exists>ts. b = Some ts \<and> d' = d\<lparr>gbdt_json := (gbdt_json d)(k \<mapsto> ts)\<rparr>)"
  by (auto simp: save_booster_def io_simps split: option.splits)

lemma rebuild_booster_iff:
  "rebuild_booster env np x refs rows m b trees = Inr (c, ret) \<longleftrightarrow>
   ret = filter (\<lambda>r. row_ref r \<notin> set refs) rows \<and> ret \<noteq> rows
   \<and> (\<exists>resume. rollback b m trees = Inr resume \<and> gbdt_train_shard env np x ret m resume trees = Inr c)"
  by (auto simp: rebuild_booster_def Let_def res_simps)

lemma booster_digest_iff:
  "booster_digest x c = Inr w \<longleftrightarrow> (\<exists>ts. c = Some ts \<and> w = to_hex (sha256 (save_raw x ts)))"
  by (auto simp: booster_digest_def split: option.splits)

lemma gbdt_rebuild_iff:
  "gbdt_rebuild_batch_by_ref env np x sg pa ca refs trees sign d = (Inr r, d') \<longleftrightarrow>
   (\<exists>R k m tb ret n resume b tree R'. gbdt_reads refs trees d (R, k, m, tb, ret, n, resume)
     \<and> gbdt_plan env np x sg pa ca refs trees sign R k m tb ret n resume (r, b, tree, R')
     \<and> d' = gbdt_writes k ret b tree R' d)"
  (is "?l \<longleftrightarrow> ?r")
proof -
  note simps = io_simps certify_iff load_routing_def load_shard_def save_shard_def load_booster_def
    save_booster_iff rebuild_booster_iff booster_digest_iff
  note defs = gbdt_reads_def gbdt_plan_def gbdt_writes_def
  show ?thesis
  proof
    assume ?l
    then show ?r unfolding gbdt_rebuild_batch_by_ref_def
      apply (clarsimp simp only: simps split_paired_Ex prod.case)
      unfolding defs prod.case
      apply fastforce
      done
  next
    assume ?r
    then show ?l unfolding defs gbdt_rebuild_batch_by_ref_def by (auto simp: simps)
  qed
qed

section \<open>Deployments that differ in one subject's data\<close>

definition gbdt_agree :: "('f, 'z) env_scheme \<Rightarrow> nat \<Rightarrow> string \<Rightarrow> ('f, 't) disk \<Rightarrow> ('f, 't) disk \<Rightarrow> bool" where
  "gbdt_agree env trees e d d' \<longleftrightarrow> files_agree e d d'
     \<and> (\<forall>k. rel_option (\<lambda>b b'. length b = length b'
          \<and> (\<forall>i. i < NUM_SLICES env \<longrightarrow> clean_at e i d k \<longrightarrow> take (Suc i * trees) b = take (Suc i * trees) b'))
        (gbdt_json d k) (gbdt_json d' k))"

definition gbdt_same :: "('f, 't) disk \<Rightarrow> ('f, 't) disk \<Rightarrow> bool" where
  "gbdt_same d d' \<longleftrightarrow> routing_json d = routing_json d' \<and> tree_caches d = tree_caches d' \<and> shard_npz d = shard_npz d'
     \<and> gbdt_json d = gbdt_json d'"

text \<open>Every booster on disk went through all the slices.\<close>

definition full_boosters :: "('f, 'z) env_scheme \<Rightarrow> nat \<Rightarrow> ('f, 't) disk \<Rightarrow> bool" where
  "full_boosters env trees d \<longleftrightarrow> aligned d
     \<and> (\<forall>k. case gbdt_json d k of None \<Rightarrow> True | Some b \<Rightarrow> length b = NUM_SLICES env * trees)"

lemma gbdt_writes_files:
  "gbdt_json (gbdt_writes k ret b tree R' d) = (gbdt_json d)(k \<mapsto> b)"
  "shard_npz (gbdt_writes k ret b tree R' d) = (shard_npz d)(k \<mapsto> ret)"
  "routing_json (gbdt_writes k ret b tree R' d) = Some R'"
  "tree_caches (gbdt_writes k ret b tree R' d) = cache_tree (tree_caches d) k tree"
  by (simp_all add: gbdt_writes_def)

lemma gbdt_plan_routing:
  "gbdt_plan env np x sg pa ca refs trees sign R k m tb ret n resume (r, b, tree, R')
    \<Longrightarrow> R' = filter (\<lambda>q. fst q \<notin> set refs) R"
  using routing_pops_dest by (auto simp: gbdt_plan_def)

text \<open>The booster that training resumes from has the trees of the slices before \<open>m\<close>.\<close>

lemma rollback_dest:
  assumes "rollback b m trees = Inr resume"
  shows "trees_of resume = take (m * trees) b \<and> length (trees_of resume) = m * trees \<and> m * trees \<le> length b \<or> m = 0 \<and> resume = None"
  using assms by (auto simp: rollback_def split: if_splits)

lemma train_shard_fold:
  "gbdt_train_shard env np x ret m resume trees = Inr c
    \<Longrightarrow> fold_res (gbdt_train_slice np x trees ret) [m..<NUM_SLICES env] resume = Inr c"
  by (auto simp: gbdt_train_shard_def split: if_splits)

lemma rebuilt_length:
  assumes "length b = NUM_SLICES env * trees" "rollback b m trees = Inr resume"
    and "gbdt_train_shard env np x ret m resume trees = Inr (Some c)"
  shows "length c = NUM_SLICES env * trees" "length (trees_of resume) = m * trees"
    "take (m * trees) c = take (m * trees) b"
proof -
  obtain new where new: "c = trees_of resume @ new" "length new = (NUM_SLICES env - m) * trees"
    using gbdt_fold_grows [OF train_shard_fold [OF assms(3)]] by auto
  from rollback_dest [OF assms(2)] show len: "length (trees_of resume) = m * trees" by auto
  have le: "m * trees \<le> NUM_SLICES env * trees" using rollback_dest [OF assms(2)] assms(1) by auto
  have "length c = m * trees + (NUM_SLICES env - m) * trees" by (simp add: new len)
  also have "\<dots> = NUM_SLICES env * trees"
    using le by (cases "trees = 0") (simp_all add: diff_mult_distrib)
  finally show "length c = NUM_SLICES env * trees" .
  show "take (m * trees) c = take (m * trees) b" using rollback_dest [OF assms(2)] len by (auto simp: new)
qed

lemma gbdt_keeps_wf:
  assumes "full_boosters env trees d" "gbdt_rebuild_batch_by_ref env np x sg pa ca refs trees sign d = (Inr r, d')"
  shows "full_boosters env trees d'"
proof -
  from assms(2) obtain R k m tb ret n resume b tree R' where
      reads: "gbdt_reads refs trees d (R, k, m, tb, ret, n, resume)"
    and plan: "gbdt_plan env np x sg pa ca refs trees sign R k m tb ret n resume (r, b, tree, R')"
    and d': "d' = gbdt_writes k ret b tree R' d"
    unfolding gbdt_rebuild_iff by blast
  from reads obtain rows b0 where r: "routing_json d = Some R" "batch_target R refs = Inr (k, m)" "shard_npz d k = Some rows"
      "ret = filter (\<lambda>r. row_ref r \<notin> set refs) rows" "gbdt_json d k = Some b0" "rollback b0 m trees = Inr resume"
    by (auto simp: gbdt_reads_def)
  have "aligned d'"
    using assms(1) by (intro aligned_purged [of d R k rows d' refs m] r)
      (simp_all add: full_boosters_def d' gbdt_writes_files gbdt_plan_routing [OF plan] r(4))
  moreover have "length b = NUM_SLICES env * trees"
    using rebuilt_length(1) [of b0 env trees m resume np x ret b] assms(1) r(5,6) plan
    by (fastforce simp: full_boosters_def gbdt_plan_def split: option.splits)
  ultimately show ?thesis using assms(1) by (simp add: full_boosters_def d' gbdt_writes_files)
qed

lemma clean_at_gbdt_writes:
  "clean_at e i (gbdt_writes k ret b tree R' d) k' = (if k' = k then clean_upto e i ret else clean_at e i d k')"
  by (rule clean_at_upd) (simp add: gbdt_writes_files)

lemma filter_same_length: "length (filter P xs) = length xs \<Longrightarrow> filter P xs = xs"
proof (induction xs)
  case (Cons x xs)
  then show ?case using length_filter_le [of P xs] by (cases "P x") auto
qed simp

lemma gbdt_reads_sim:
  assumes agree: "gbdt_agree env trees e v w" and wf: "full_boosters env trees v"
    and reads: "gbdt_reads refs trees v (R, k, m, tb, ret, n, resume)"
  obtains rows ret' resume' where "shard_npz v k = Some rows" "ret = filter (\<lambda>r. row_ref r \<notin> set refs) rows"
    "list_all2 (row_sim e) ret ret'" "gbdt_reads refs trees w (R, k, m, tb, ret', n, resume')"
    "\<forall>y. gbdt_reads refs trees w y \<longrightarrow> y = (R, k, m, tb, ret', n, resume')"
    "0 < m \<longrightarrow> m \<le> NUM_SLICES env \<longrightarrow> clean_at e (m - 1) v k \<longrightarrow> resume' = resume"
    "m = 0 \<longrightarrow> resume' = resume"
    "e \<in> set refs \<longrightarrow> ret' = ret \<and> (0 < m \<longrightarrow> clean_upto e (m - 1) rows)"
proof -
  from reads obtain rows b where r: "refs \<noteq> []" "routing_json v = Some R" "batch_target R refs = Inr (k, m)"
      "shard_npz v k = Some rows" "tree_for_shard (tree_caches v) k (map row_ref rows) = Inr tb" "gbdt_json v k = Some b"
      "ret = filter (\<lambda>r. row_ref r \<notin> set refs) rows" "n = length rows - length ret" "ret \<noteq> rows"
      "rollback b m trees = Inr resume"
    by (auto simp: gbdt_reads_def)
  have "rel_option (list_all2 (row_sim e)) (shard_npz v k) (shard_npz w k)" using agree by (simp add: gbdt_agree_def files_agree_def)
  then obtain rows' where rows': "shard_npz w k = Some rows'" "list_all2 (row_sim e) rows rows'"
    unfolding r(4) by (cases "shard_npz w k") simp_all
  have "rel_option (\<lambda>b b'. length b = length b'
          \<and> (\<forall>i. i < NUM_SLICES env \<longrightarrow> clean_at e i v k \<longrightarrow> take (Suc i * trees) b = take (Suc i * trees) b'))
        (gbdt_json v k) (gbdt_json w k)" using agree unfolding gbdt_agree_def by blast
  then obtain b' where b': "gbdt_json w k = Some b'" "length b' = length b"
      "\<forall>i. i < NUM_SLICES env \<longrightarrow> clean_at e i v k \<longrightarrow> take (Suc i * trees) b = take (Suc i * trees) b'"
    unfolding r(6) by (cases "gbdt_json w k") simp_all
  define ret' where "ret' = filter (\<lambda>r. row_ref r \<notin> set refs) rows'"
  have sim: "list_all2 (row_sim e) ret ret'"
    unfolding r(7) ret'_def by (rule sim_filter_ref [OF rows'(2), where P = "\<lambda>q _. q \<notin> set refs"])
  note lens = list_all2_lengthD [OF rows'(2)] list_all2_lengthD [OF sim]
  have "length ret \<noteq> length rows"
    using r(9) filter_same_length [of "\<lambda>r. row_ref r \<notin> set refs" rows] by (auto simp: r(7))
  then have "length ret' \<noteq> length rows'" unfolding lens .
  then have "ret' \<noteq> rows'" by metis
  obtain resume' where resume': "rollback b' m trees = Inr resume'" "m = 0 \<longrightarrow> resume' = resume"
      "trees_of resume' = (if m = 0 then [] else take (m * trees) b')" "m = 0 \<or> resume' \<noteq> None"
    using r(10) b'(2) by (auto simp: rollback_def split: if_splits)
  have resume_eq: "resume' = resume" if pos: "0 < m" and le: "m \<le> NUM_SLICES env" and c: "clean_at e (m - 1) v k"
  proof -
    have "resume = Some (take (m * trees) b)" using r(10) pos by (auto simp: rollback_def split: if_splits)
    moreover have "resume' = Some (take (m * trees) b')" using resume'(1) pos by (auto simp: rollback_def split: if_splits)
    moreover have "take (m * trees) b = take (m * trees) b'" using b'(3) [rule_format, of "m - 1"] pos le c by simp
    ultimately show ?thesis by (simp only:)
  qed
  have same: "routing_json w = Some R" "tree_caches w = tree_caches v"
    using agree r(2) by (auto simp: gbdt_agree_def files_agree_def)
  have reads': "gbdt_reads refs trees w (R, k, m, tb, ret', n, resume')"
    unfolding gbdt_reads_def prod.case
  proof (intro conjI exI)
    show "tree_for_shard (tree_caches w) k (map row_ref rows') = Inr tb"
      unfolding same sim_refs [OF rows'(2), symmetric] by (rule r(5))
    show "n = length rows' - length ret'" unfolding r(8) by (simp only: lens)
  qed (rule r same rows' b' ret'_def resume'(1) \<open>ret' \<noteq> rows'\<close>)+
  have only: "\<forall>y. gbdt_reads refs trees w y \<longrightarrow> y = (R, k, m, tb, ret', n, resume')"
    using reads' by (auto simp: gbdt_reads_def)
  have e_in: "ret' = ret \<and> (0 < m \<longrightarrow> clean_upto e (m - 1) rows)" if e: "e \<in> set refs"
  proof -
    have "ret' = ret" using sim_without [OF sim] e by (auto simp: r(7))
    moreover have "clean_upto e (m - 1) rows" if "0 < m"
    proof -
      have "aligned v" using wf by (simp add: full_boosters_def)
      from batch_rows [OF this r(2,3) _ r(4)] e that show ?thesis
        by (fastforce simp: clean_upto_def list_all_iff)
    qed
    ultimately show ?thesis by blast
  qed
  show thesis
    by (rule that [OF r(4,7) sim reads' only]) (use resume_eq resume'(2) e_in in blast)+
qed

lemma gbdt_files_agree_writes:
  assumes "files_agree e v w" "list_all2 (row_sim e) ret ret'"
  shows "files_agree e (gbdt_writes k ret b tree R' v) (gbdt_writes k ret' b' tree R' w)"
  using assms by (simp add: files_agree_def gbdt_writes_def)

lemma gbdt_plan_parts:
  assumes "gbdt_plan env np x sg pa ca refs trees sign R k m tb ret n resume (r, b, tree, R')"
  shows "gbdt_train_shard env np x ret m resume trees = Inr (Some b)" "smt_remove tb refs = Inr tree"
    "fold_res routing_pop refs R = Inr R'"
  using assms by (auto simp: gbdt_plan_def)

lemma clean_at_purged:
  "shard_npz v k = Some rows \<Longrightarrow> e \<notin> set refs
    \<Longrightarrow> clean_at e i v k = clean_upto e i (filter (\<lambda>r. row_ref r \<notin> set refs) rows)"
  by (simp add: clean_at_def clean_upto_filter)

text \<open>The booster of the batch's shard, with the trees that the data of \<open>e\<close> does not reach.\<close>

lemma rebuilt_sim:
  assumes 1: "gbdt_train_shard env np x ret m resume trees = Inr (Some b)" "length (trees_of resume) = m * trees"
    and 2: "gbdt_train_shard env np x ret' m resume' trees = Inr (Some b')"
    and sim: "list_all2 (row_sim e) ret ret'" and clean: "clean_upto e i ret" and i: "m \<le> i" "i < NUM_SLICES env"
    and res: "resume' = resume"
  shows "take (Suc i * trees) b = take (Suc i * trees) b'"
  using gbdt_prefix [OF train_shard_fold [OF 1(1)] train_shard_fold [OF 2, unfolded res] sim_upto [OF sim clean] i 1(2)]
  by simp

lemma gbdt_keeps_other:
  assumes agree: "gbdt_agree env trees e v w" and wf: "full_boosters env trees v" "full_boosters env trees w" and e: "e \<notin> set refs"
    and v: "gbdt_rebuild_batch_by_ref env np x sg pa ca refs trees sign v = (Inr r, v')"
    and w: "gbdt_rebuild_batch_by_ref env np x sg pa ca refs trees sign w = (Inr s, w')"
  shows "gbdt_agree env trees e v' w'"
proof -
  from v obtain R k m tb ret n resume b tree R' where
      reads: "gbdt_reads refs trees v (R, k, m, tb, ret, n, resume)"
    and plan: "gbdt_plan env np x sg pa ca refs trees sign R k m tb ret n resume (r, b, tree, R')"
    and v': "v' = gbdt_writes k ret b tree R' v"
    unfolding gbdt_rebuild_iff by blast
  obtain rows ret' resume' where rows: "shard_npz v k = Some rows" "ret = filter (\<lambda>r. row_ref r \<notin> set refs) rows"
      and sim: "list_all2 (row_sim e) ret ret'" and reads': "gbdt_reads refs trees w (R, k, m, tb, ret', n, resume')"
      and only: "\<forall>y. gbdt_reads refs trees w y \<longrightarrow> y = (R, k, m, tb, ret', n, resume')"
      and res: "0 < m \<longrightarrow> m \<le> NUM_SLICES env \<longrightarrow> clean_at e (m - 1) v k \<longrightarrow> resume' = resume" "m = 0 \<longrightarrow> resume' = resume"
    by (rule gbdt_reads_sim [OF agree wf(1) reads])
  from w obtain b' tree' R'' where
      plan': "gbdt_plan env np x sg pa ca refs trees sign R k m tb ret' n resume' (s, b', tree', R'')"
    and w': "w' = gbdt_writes k ret' b' tree' R'' w"
    unfolding gbdt_rebuild_iff using only by (metis prod.inject)
  have same: "tree' = tree" "R'' = R'" using gbdt_plan_parts [OF plan] gbdt_plan_parts [OF plan'] by auto
  obtain b0 where b0: "gbdt_json v k = Some b0" "rollback b0 m trees = Inr resume" using reads by (auto simp: gbdt_reads_def)
  obtain b0' where b0': "gbdt_json w k = Some b0'" "rollback b0' m trees = Inr resume'" using reads' by (auto simp: gbdt_reads_def)
  have full: "length b0 = NUM_SLICES env * trees" "length b0' = NUM_SLICES env * trees"
    using wf b0(1) b0'(1) by (auto simp: full_boosters_def split: option.splits)
  note len = rebuilt_length [OF full(1) b0(2) gbdt_plan_parts(1) [OF plan]]
  note len' = rebuilt_length [OF full(2) b0'(2) gbdt_plan_parts(1) [OF plan']]
  have old: "i < NUM_SLICES env \<Longrightarrow> clean_at e i v k \<Longrightarrow> take (Suc i * trees) b0 = take (Suc i * trees) b0'" for i
    using agree b0(1) b0'(1) unfolding gbdt_agree_def by (elim conjE allE [of _ k]) simp
  have "take (Suc i * trees) b = take (Suc i * trees) b'" if i: "i < NUM_SLICES env" and clean: "clean_upto e i ret" for i
  proof (cases "m \<le> i")
    case True
    have "resume' = resume"
    proof (cases "m = 0")
      case False
      have "clean_upto e (m - 1) ret" by (rule clean_upto_mono [OF clean]) (use True in linarith)
      with res(1) False True i show ?thesis by (simp add: clean_at_purged [OF rows(1) e] flip: rows(2))
    qed (use res(2) in blast)
    then show ?thesis
      by (rule rebuilt_sim [OF gbdt_plan_parts(1) [OF plan] len(2) gbdt_plan_parts(1) [OF plan'] sim clean True i])
  next
    case False
    then have le: "min (Suc i * trees) (m * trees) = Suc i * trees" by (simp add: min_absorb1 mult_le_mono1 del: mult_Suc)
    have "take (Suc i * trees) c = take (Suc i * trees) d"
      if "take (m * trees) c = take (m * trees) d" for c d :: "'d list"
      using arg_cong [OF that, of "take (Suc i * trees)"] by (simp only: take_take le)
    from this [OF len(3)] this [OF len'(3)] old [OF i] clean show ?thesis
      by (simp only: clean_at_purged [OF rows(1) e] flip: rows(2))
  qed
  moreover have "length b = length b'" using len(1) len'(1) by simp
  moreover have "files_agree e v' w'"
    using agree sim unfolding v' w' same by (intro gbdt_files_agree_writes) (simp_all add: gbdt_agree_def)
  ultimately show ?thesis
    using agree unfolding gbdt_agree_def
    by (auto simp: v' w' gbdt_writes_files clean_at_gbdt_writes)
qed

lemma gbdt_agree_full:
  assumes "gbdt_agree env trees e v w" "full_boosters env trees v"
  shows "full_boosters env trees w"
proof -
  have "length b' = NUM_SLICES env * trees" if b': "gbdt_json w k = Some b'" for k b'
  proof -
    have "rel_option (\<lambda>b b'. length b = length b'
          \<and> (\<forall>i. i < NUM_SLICES env \<longrightarrow> clean_at e i v k \<longrightarrow> take (Suc i * trees) b = take (Suc i * trees) b'))
        (gbdt_json v k) (gbdt_json w k)" using assms(1) unfolding gbdt_agree_def by blast
    then obtain b where b: "gbdt_json v k = Some b" "length b = length b'"
      unfolding b' by (cases "gbdt_json v k") simp_all
    have "case gbdt_json v k of None \<Rightarrow> True | Some b \<Rightarrow> length b = NUM_SLICES env * trees"
      using assms(2) unfolding full_boosters_def by blast
    with b show ?thesis by simp
  qed
  moreover have "aligned w" using assms aligned_agree by (auto simp: gbdt_agree_def full_boosters_def)
  ultimately show ?thesis by (auto simp: full_boosters_def split: option.split)
qed

lemma agree_elsewhere:
  assumes "aligned v" "routing_json v = Some R" "batch_target R refs = Inr (k, m)" "e \<in> set refs" "k' \<noteq> k"
  shows "clean_at e i v k'" "files_agree e v w \<Longrightarrow> shard_npz v k' = shard_npz w k'"
proof -
  have no: "\<forall>x\<in>set rows. row_ref x \<noteq> e" if "shard_npz v k' = Some rows" for rows
    using batch_rows [OF assms(1-3) _ that] assms(4,5) by auto
  then show "clean_at e i v k'" by (auto simp: clean_at_def clean_upto_def list_all_iff split: option.split)
  show "shard_npz v k' = shard_npz w k'" if "files_agree e v w"
  proof -
    have "rel_option (list_all2 (row_sim e)) (shard_npz v k') (shard_npz w k')" using that by (simp add: files_agree_def)
    then show ?thesis using no by (cases "shard_npz v k'"; cases "shard_npz w k'") (auto dest: sim_without)
  qed
qed

text \<open>A booster without any tree that the data of \<open>e\<close> reaches is the same in both.\<close>

lemma agree_booster:
  assumes "gbdt_agree env trees e v w" "full_boosters env trees v" "\<And>i. clean_at e i v k"
  shows "gbdt_json v k = gbdt_json w k"
proof -
  have rel: "rel_option (\<lambda>b b'. length b = length b'
        \<and> (\<forall>i. i < NUM_SLICES env \<longrightarrow> clean_at e i v k \<longrightarrow> take (Suc i * trees) b = take (Suc i * trees) b'))
      (gbdt_json v k) (gbdt_json w k)" using assms(1) unfolding gbdt_agree_def by blast
  show ?thesis
  proof (cases "gbdt_json v k")
    case None
    with rel show ?thesis by simp
  next
    case (Some b)
    with rel obtain b' where b': "gbdt_json w k = Some b'" "length b = length b'"
        "\<forall>i. i < NUM_SLICES env \<longrightarrow> clean_at e i v k \<longrightarrow> take (Suc i * trees) b = take (Suc i * trees) b'"
      by (cases "gbdt_json w k") simp_all
    have "case gbdt_json v k of None \<Rightarrow> True | Some b \<Rightarrow> length b = NUM_SLICES env * trees"
      using assms(2) unfolding full_boosters_def by blast
    with Some have len: "length b = NUM_SLICES env * trees" by simp
    have "b = b'"
    proof (cases "NUM_SLICES env")
      case 0
      with len b'(2) show ?thesis by simp
    next
      case (Suc N)
      with b'(3) assms(3) have "take (Suc N * trees) b = take (Suc N * trees) b'" by simp
      then show ?thesis using len b'(2) Suc by simp
    qed
    with Some b'(1) show ?thesis by simp
  qed
qed

lemma gbdt_erases:
  assumes agree: "gbdt_agree env trees e v w" and wf: "full_boosters env trees v" and e: "e \<in> set refs"
    and v: "gbdt_rebuild_batch_by_ref env np x sg pa ca refs trees sign v = (Inr r, v')"
  shows "\<exists>w'. gbdt_rebuild_batch_by_ref env np x sg pa ca refs trees sign w = (Inr r, w')
     \<and> gbdt_same v' w' \<and> gbdt_agree env trees e v' w'"
proof -
  from v obtain R k m tb ret n resume b tree R' where
      reads: "gbdt_reads refs trees v (R, k, m, tb, ret, n, resume)"
    and plan: "gbdt_plan env np x sg pa ca refs trees sign R k m tb ret n resume (r, b, tree, R')"
    and v': "v' = gbdt_writes k ret b tree R' v"
    unfolding gbdt_rebuild_iff by blast
  obtain rows ret' resume' where rows: "shard_npz v k = Some rows" "ret = filter (\<lambda>r. row_ref r \<notin> set refs) rows"
      and reads': "gbdt_reads refs trees w (R, k, m, tb, ret', n, resume')"
      and res: "0 < m \<longrightarrow> m \<le> NUM_SLICES env \<longrightarrow> clean_at e (m - 1) v k \<longrightarrow> resume' = resume" "m = 0 \<longrightarrow> resume' = resume"
      and ee: "e \<in> set refs \<longrightarrow> ret' = ret \<and> (0 < m \<longrightarrow> clean_upto e (m - 1) rows)"
    by (rule gbdt_reads_sim [OF agree wf reads])
  obtain b0 b0' where b0: "gbdt_json v k = Some b0" "rollback b0 m trees = Inr resume"
      "gbdt_json w k = Some b0'" "rollback b0' m trees = Inr resume'"
    using reads reads' by (auto simp: gbdt_reads_def)
  have al: "aligned v" using wf by (simp add: full_boosters_def)
  have "resume' = resume"
  proof (cases "m \<le> NUM_SLICES env")
    case True
    with res ee e rows(1) show ?thesis by (cases "m = 0") (simp_all add: clean_at_def)
  next
    case False
    have "case gbdt_json v k of None \<Rightarrow> True | Some b \<Rightarrow> length b = NUM_SLICES env * trees"
      "case gbdt_json w k of None \<Rightarrow> True | Some b \<Rightarrow> length b = NUM_SLICES env * trees"
      using wf gbdt_agree_full [OF agree wf] unfolding full_boosters_def by blast+
    then have "length b0 = NUM_SLICES env * trees" "length b0' = NUM_SLICES env * trees" by (simp_all add: b0)
    with False b0 show ?thesis by (cases "trees = 0") (auto simp: rollback_def split: if_splits)
  qed
  with reads' ee e have "gbdt_reads refs trees w (R, k, m, tb, ret, n, resume)" by simp
  with plan have run: "gbdt_rebuild_batch_by_ref env np x sg pa ca refs trees sign w = (Inr r, gbdt_writes k ret b tree R' w)"
    unfolding gbdt_rebuild_iff by blast
  let ?w' = "gbdt_writes k ret b tree R' w"
  have R: "routing_json v = Some R" "batch_target R refs = Inr (k, m)" using reads by (auto simp: gbdt_reads_def)
  note elsewhere = agree_elsewhere [OF al R e]
  have fa: "files_agree e v w" using agree by (simp add: gbdt_agree_def)
  have files: "files_agree e v' ?w'"
    unfolding v' by (rule gbdt_files_agree_writes [OF fa]) (auto simp: list_all2_same row_sim_def)
  have "shard_npz v' k' = shard_npz ?w' k'" for k'
    using elsewhere(2) [of k', OF _ fa] by (cases "k' = k") (simp_all add: v' gbdt_writes_files)
  moreover have "gbdt_json v' k' = gbdt_json ?w' k'" for k'
    using agree_booster [OF agree wf elsewhere(1)] by (cases "k' = k") (simp_all add: v' gbdt_writes_files)
  ultimately have "gbdt_same v' ?w'" using files by (auto simp: gbdt_same_def files_agree_def)
  moreover from this have "gbdt_agree env trees e v' ?w'"
    using files by (auto simp: gbdt_agree_def gbdt_same_def intro: option.rel_refl)
  ultimately show ?thesis using run by blast
qed

lemma gbdt_same_step:
  assumes same: "gbdt_same v w" and v: "gbdt_rebuild_batch_by_ref env np x sg pa ca refs trees sign v = (Inr r, v')"
  shows "\<exists>w'. gbdt_rebuild_batch_by_ref env np x sg pa ca refs trees sign w = (Inr r, w') \<and> gbdt_same v' w'"
proof -
  from v obtain R k m tb ret n resume b tree R' where
      reads: "gbdt_reads refs trees v (R, k, m, tb, ret, n, resume)"
    and plan: "gbdt_plan env np x sg pa ca refs trees sign R k m tb ret n resume (r, b, tree, R')"
    and v': "v' = gbdt_writes k ret b tree R' v"
    unfolding gbdt_rebuild_iff by blast
  from reads same have "gbdt_reads refs trees w (R, k, m, tb, ret, n, resume)"
    unfolding gbdt_reads_def gbdt_same_def prod.case by (elim conjE) (simp only: simp_thms)
  with plan have "gbdt_rebuild_batch_by_ref env np x sg pa ca refs trees sign w = (Inr r, gbdt_writes k ret b tree R' w)"
    unfolding gbdt_rebuild_iff by blast
  moreover have "gbdt_same v' (gbdt_writes k ret b tree R' w)"
    using same by (simp add: gbdt_same_def v' gbdt_writes_files)
  ultimately show ?thesis by blast
qed

definition gbdt_batch ::
  "('f, 'z) env_scheme \<Rightarrow> 'f numpy \<Rightarrow> ('f, 't) xgboost \<Rightarrow> (bytes \<Rightarrow> bytes \<Rightarrow> bytes) \<Rightarrow> nat \<Rightarrow> bool \<Rightarrow> batch
    \<Rightarrow> (('f, 't) disk, ('f, 't) gbdt_replay rebuild_result) io" where
  "gbdt_batch env np x sg trees sign b =
     gbdt_rebuild_batch_by_ref env np x sg (fst b) (fst (snd b)) (snd (snd b)) trees sign"

interpretation gbdt: erasure_engine "gbdt_batch env np x sg trees sign" batch_refs "full_boosters env trees"
  "gbdt_agree env trees" gbdt_same
proof
  fix b r e v w v' w' s
  let ?run = "gbdt_batch env np x sg trees sign b"
  show "full_boosters env trees w \<Longrightarrow> ?run w = (Inr r, w') \<Longrightarrow> full_boosters env trees w'"
    unfolding gbdt_batch_def by (rule gbdt_keeps_wf)
  show full: "gbdt_agree env trees e v w \<Longrightarrow> full_boosters env trees v \<Longrightarrow> full_boosters env trees w" by (rule gbdt_agree_full)
  show "gbdt_agree env trees e v w \<Longrightarrow> full_boosters env trees v \<Longrightarrow> ?run v = (Inr r, v') \<Longrightarrow> ?run w = (Inr s, w')
      \<Longrightarrow> gbdt_agree env trees e v' w'"
    using gbdt_keeps_other [of env trees e v w] full gbdt_erases [of env trees e v w] unfolding gbdt_batch_def
    by (cases "e \<in> set (snd (snd b))") fastforce+
  show "gbdt_agree env trees e v w \<Longrightarrow> full_boosters env trees v \<Longrightarrow> e \<in> batch_refs b \<Longrightarrow> ?run v = (Inr r, v')
      \<Longrightarrow> \<exists>w'. ?run w = (Inr r, w') \<and> gbdt_same v' w'"
    using gbdt_erases unfolding gbdt_batch_def batch_refs_def by blast
  show "gbdt_same v w \<Longrightarrow> ?run v = (Inr r, v') \<Longrightarrow> \<exists>w'. ?run w = (Inr r, w') \<and> gbdt_same v' w'"
    unfolding gbdt_batch_def by (rule gbdt_same_step)
qed

section \<open>Rolling back is exact\<close>

lemma gbdt_fold_split:
  assumes "m \<le> N" "fold_res (gbdt_train_slice np x trees rs) [0..<N] None = Inr c"
  obtains a where "fold_res (gbdt_train_slice np x trees rs) [0..<m] None = Inr a"
    "fold_res (gbdt_train_slice np x trees rs) [m..<N] a = Inr c" "trees_of a = take (m * trees) (trees_of c)"
    "0 < m \<longrightarrow> a \<noteq> None"
proof -
  have "[0..<N] = [0..<m] @ [m..<N]" using assms(1) upt_add_eq_append [of 0 m "N - m"] by simp
  with assms(2) obtain a where a: "fold_res (gbdt_train_slice np x trees rs) [0..<m] None = Inr a"
      "fold_res (gbdt_train_slice np x trees rs) [m..<N] a = Inr c"
    by (auto simp: fold_res_append res_simps)
  from gbdt_fold_grows [OF a(1)] have "length (trees_of a) = m * trees" and "0 < m \<longrightarrow> a \<noteq> None" by auto
  moreover from gbdt_fold_grows [OF a(2)] obtain new where "trees_of c = trees_of a @ new" by blast
  ultimately show thesis using that a by simp
qed

lemma fold_upt_join:
  "m \<le> N \<Longrightarrow> fold_res f [0..<m] s = Inr a \<Longrightarrow> fold_res f [m..<N] a = r \<Longrightarrow> fold_res f [0..<N] s = r"
  using upt_add_eq_append [of 0 m "N - m"] by (simp add: fold_res_append)

text \<open>The rows of a batch are in slices from its rollback slice on.\<close>

lemma upto_before:
  assumes "aligned d" "routing_json d = Some R" "batch_target R refs = Inr (k, m)" "shard_npz d k = Some rows" "j < m"
  shows "upto_slice j rows = upto_slice j (filter (\<lambda>r. row_ref r \<notin> set refs) rows)"
proof -
  have "slice_idx r \<le> j \<longleftrightarrow> row_ref r \<notin> set refs \<and> slice_idx r \<le> j" if "r \<in> set rows" for r
    using batch_rows [OF assms(1-3) _ assms(4) that] assms(5) by auto
  then show ?thesis unfolding upto_slice_def filter_filter by (intro filter_cong) auto
qed

lemma gbdt_retrain:
  assumes al: "aligned d" "routing_json d = Some R" "batch_target R refs = Inr (k, m)" "shard_npz d k = Some rows"
    and fresh: "fold_res (gbdt_train_slice np x trees rows) [0..<N] None = Inr (Some b)" and m: "m \<le> N"
    and rolled: "rollback b m trees = Inr resume"
    and c: "fold_res (gbdt_train_slice np x trees (filter (\<lambda>r. row_ref r \<notin> set refs) rows)) [m..<N] resume = Inr c"
  shows "fold_res (gbdt_train_slice np x trees (filter (\<lambda>r. row_ref r \<notin> set refs) rows)) [0..<N] None = Inr c"
proof -
  let ?ret = "filter (\<lambda>r. row_ref r \<notin> set refs) rows"
  obtain a where a: "fold_res (gbdt_train_slice np x trees rows) [0..<m] None = Inr a"
      "trees_of a = take (m * trees) b" "0 < m \<longrightarrow> a \<noteq> None"
    using gbdt_fold_split [OF m fresh] by (metis trees_of_simps(2))
  have "resume = a"
  proof (cases "m = 0")
    case True
    with a(1) rolled show ?thesis by (simp add: rollback_def)
  next
    case False
    then obtain ts where ts: "a = Some ts" using a(3) by auto
    with a(2) False rolled show ?thesis by (auto simp: rollback_def split: if_splits)
  qed
  moreover have "fold_res (gbdt_train_slice np x trees ?ret) [0..<m] None = fold_res (gbdt_train_slice np x trees rows) [0..<m] None"
    by (rule gbdt_fold_cong) (use upto_before [OF al] in auto)
  ultimately show ?thesis using a(1) c by (intro fold_upt_join [OF m]) simp_all
qed

lemma gbdt_fold_total:
  assumes "\<And>r. r \<in> set rs \<Longrightarrow> type_idx r < length TYPES" "\<exists>r\<in>set rs. slice_idx r = 0"
    and accept: "\<And>data. data \<noteq> [] \<Longrightarrow> accepts x data"
  shows "\<exists>c. fold_res (gbdt_train_slice np x trees rs) is b = Inr c"
proof (induction "is" arbitrary: b)
  case (Cons i "is")
  have "\<exists>f. features np (upto_slice i rs) = Inr f"
    unfolding features_def by (rule map_res_total) (auto simp: upto_slice_def intro: feature_row_ok assms(1))
  then obtain f where f: "features np (upto_slice i rs) = Inr f" by blast
  then have "length f = length (upto_slice i rs)" unfolding features_def using map_res_dest by blast
  moreover have "\<exists>r\<in>set rs. slice_idx r \<le> i" using assms(2) by (metis le0)
  then have "upto_slice i rs \<noteq> []" by (auto simp: upto_slice_def filter_empty_conv)
  ultimately have "zip f (map isFraud (upto_slice i rs)) \<noteq> []" by (cases f; cases "upto_slice i rs") auto
  with f obtain b1 where "gbdt_train_slice np x trees rs i b = Inr (Some b1)"
    by (simp add: gbdt_train_slice_def matrix_def xgb_train_def accept)
  with Cons show ?case by auto
qed simp

lemma gbdt_ready_train:
  assumes ready: "batch_ready env sign refs d R k m rows" and b: "length b = NUM_SLICES env * trees"
    and accept: "\<And>data. data \<noteq> [] \<Longrightarrow> accepts x data"
  obtains resume ts where "rollback b m trees = Inr resume" "filter (\<lambda>r. row_ref r \<notin> set refs) rows \<noteq> rows"
    "gbdt_train_shard env np x (filter (\<lambda>r. row_ref r \<notin> set refs) rows) m resume trees = Inr (Some ts)"
proof -
  let ?ret = "filter (\<lambda>r. row_ref r \<notin> set refs) rows"
  have basic: "refs \<noteq> []" "PYTHONHASHSEED env = Some ''0''" "m < NUM_SLICES env" "set refs \<subseteq> row_ref ` set rows"
    using ready by (auto simp: batch_ready_def)
  have "m * trees \<le> length b" using b basic(3) by simp
  then obtain resume where resume: "rollback b m trees = Inr resume" "0 < m \<longrightarrow> resume \<noteq> None"
    by (cases "m = 0") (auto simp: rollback_def)
  obtain c where c: "fold_res (gbdt_train_slice np x trees ?ret) [m..<NUM_SLICES env] resume = Inr c"
    using gbdt_fold_total [of ?ret x np trees "[m..<NUM_SLICES env]" resume, OF _ _ accept] ready by (auto simp: batch_ready_def list_all_iff)
  then obtain ts where ts: "c = Some ts" using gbdt_fold_grows [OF c] basic(3) by auto
  have "gbdt_train_shard env np x ?ret m resume trees = Inr (Some ts)"
    using c ts resume(2) by (cases "m = 0") (auto simp: gbdt_train_shard_def basic(2))
  moreover obtain q where "q \<in> set refs" using basic(1) by (cases refs) auto
  then obtain r0 where "r0 \<in> set rows" "row_ref r0 \<in> set refs" using basic(4) by auto
  then have "?ret \<noteq> rows" by (metis (mono_tags, lifting) filter_id_conv)
  ultimately show thesis using that resume(1) by blast
qed

lemma gbdt_rebuild_ok:
  assumes ready: "batch_ready env sign refs d R k m rows" and b: "gbdt_json d k = Some b" "length b = NUM_SLICES env * trees"
    and accept: "\<And>data. data \<noteq> [] \<Longrightarrow> accepts x data" and free: "\<not> cache_collides d k"
  shows "\<exists>r d'. gbdt_rebuild_batch_by_ref env np x sg pa ca refs trees sign d = (Inr r, d')"
proof -
  obtain tb tree where tb: "tree_for_shard (tree_caches d) k (map row_ref rows) = Inr tb" "smt_remove tb refs = Inr tree"
    by (rule ready_tree [OF ready free])
  let ?ret = "filter (\<lambda>r. row_ref r \<notin> set refs) rows"
  obtain resume ts where train: "rollback b m trees = Inr resume" "?ret \<noteq> rows"
      "gbdt_train_shard env np x ?ret m resume trees = Inr (Some ts)"
    by (rule gbdt_ready_train [OF ready b(2) accept])
  then have reads: "gbdt_reads refs trees d (R, k, m, tb, ?ret, length rows - length ?ret, resume)"
    using ready tb(1) b(1) by (simp add: gbdt_reads_def batch_ready_def)
  obtain ms R' where fin: "issue_all env sg sign (certificate_fields env (gbdt_config_digest env) ''gbdt-shard'' k m
        (to_hex (sha256 (save_raw x ts))) pa ca tree) tree refs = Inr ms" "fold_res routing_pop refs R = Inr R'"
    using ready_finish [OF ready tb] by blast
  show ?thesis
    unfolding gbdt_rebuild_iff gbdt_plan_def using reads train(3) tb(2) fin by fastforce
qed

section \<open>Properties\<close>

definition small_xgb :: "(int, int) xgboost" where
  "small_xgb = \<lparr>accepts = (\<lambda>data. data \<noteq> []), boost = (\<lambda>data b. sum_list (map (sum_list \<circ> fst) data)),
     save_raw = (\<lambda>b. map word_of_int b), xgb_score = (\<lambda>b x. sum_list b)\<rparr>"

lemma small_gbdt:
  "\<exists>r d'. gbdt_rebuild_batch_by_ref small_env small_np small_xgb sg pa ca [erin] 1 True (small_disk v) = (Inr r, d')"
proof (rule gbdt_rebuild_ok [OF small_ready])
  show "gbdt_json (small_disk v) 0 = Some [1, v]" by simp
  show "length [1, v] = NUM_SLICES small_env * 1" by (simp add: small_env_def)
  show "accepts small_xgb data" if "data \<noteq> []" for data using that by (simp add: small_xgb_def)
qed (simp add: cache_collides_def)

lemma small_full: "full_boosters small_env 1 (small_disk v)"
  unfolding full_boosters_def using small_aligned by (simp add: small_env_def)

lemma small_gbdt_agree: "gbdt_agree small_env 1 erin (small_disk v) (small_disk w)"
  by (simp add: gbdt_agree_def small_files_agree small_clean)

text \<open>
  C3 Erasure by the GBDT engine: the statement of the MLP engine, for boosters. From the
  batch that erases \<open>e\<close> on, two deployments that differ only in the rows of \<open>e\<close> and in the
  trees those rows reach give the same results and have the same files.
\<close>

theorem gbdt_erasure_noninterference:
  assumes "gbdt_agree env trees e v w" "full_boosters env trees v"
    and "run_batches (gbdt_batch env np x sg trees sign) earlier v = (Inr rs, v1)"
    and "run_batches (gbdt_batch env np x sg trees sign) earlier w = (Inr ss, w1)"
    and "e \<in> batch_refs b" "run_batches (gbdt_batch env np x sg trees sign) (b # later) v1 = (Inr out, v2)"
  shows "\<exists>w2. run_batches (gbdt_batch env np x sg trees sign) (b # later) w1 = (Inr out, w2) \<and> gbdt_same v2 w2"
  by (rule gbdt.erased_for_good [OF assms])

theorem gbdt_erasure_noninterference_witness:
  "\<exists>out v2 w2. run_batches (gbdt_batch small_env small_np small_xgb (\<lambda>k b. k) 1 True) [([], [], [erin])] (small_disk 3) = (Inr out, v2)
     \<and> run_batches (gbdt_batch small_env small_np small_xgb (\<lambda>k b. k) 1 True) [([], [], [erin])] (small_disk 4) = (Inr out, w2)
     \<and> gbdt_same v2 w2"
proof -
  let ?run = "run_batches (gbdt_batch small_env small_np small_xgb (\<lambda>k b. k) 1 True)"
  obtain r v2 where "gbdt_batch small_env small_np small_xgb (\<lambda>k b. k) 1 True ([], [], [erin]) (small_disk 3) = (Inr r, v2)"
    using small_gbdt [of "\<lambda>k b. k" "[]" "[]" 3] by (auto simp: gbdt_batch_def)
  then have run: "?run [([], [], [erin])] (small_disk 3) = (Inr [r], v2)"
    by (simp add: io_bind_def io_return_def)
  have none: "?run [] d = (Inr [], d)" for d :: "(int, int) disk" by (simp add: io_return_def)
  from gbdt_erasure_noninterference [OF small_gbdt_agree [of 3 4] small_full none none _ run] run show ?thesis
    by (fastforce simp: batch_refs_def)
qed

text \<open>
  C9 Rolling back is exact. Truncating the booster of a full training run to slice \<open>m\<close>
  gives the booster that training only the slices before \<open>m\<close> gives (none for slice 0).
\<close>

theorem gbdt_rollback_exact:
  assumes "gbdt_train_shard env np x records 0 None trees = Inr (Some b)" "m \<le> NUM_SLICES env"
  shows "\<exists>a. rollback b m trees = Inr a
     \<and> gbdt_train_shard (env\<lparr>NUM_SLICES := m\<rparr>) np x records 0 None trees = Inr a"
proof -
  from assms(1) have hs: "PYTHONHASHSEED env = Some ''0''" and run: "fold_res (gbdt_train_slice np x trees records) [0..<NUM_SLICES env] None = Inr (Some b)"
    using train_shard_fold [OF assms(1)] by (auto simp: gbdt_train_shard_def split: if_splits)
  from gbdt_fold_split [OF assms(2) run] obtain a where a: "fold_res (gbdt_train_slice np x trees records) [0..<m] None = Inr a"
      "trees_of a = take (m * trees) b" "0 < m \<longrightarrow> a \<noteq> None"
    by (metis trees_of_simps(2))
  have "rollback b m trees = Inr a"
  proof (cases "m = 0")
    case False
    then obtain ts where "a = Some ts" using a(3) by auto
    moreover have "m * trees \<le> length b" using gbdt_fold_grows [OF run] assms(2) by auto
    ultimately show ?thesis using False a(2) by (simp add: rollback_def)
  qed (use a(1) in \<open>simp add: rollback_def\<close>)
  with a(1) hs show ?thesis by (simp add: gbdt_train_shard_def)
qed

theorem gbdt_rollback_exact_witness:
  "\<exists>b a. gbdt_train_shard small_env small_np small_xgb (small_rows 3) 0 None 1 = Inr (Some b) \<and> rollback b 1 1 = Inr (Some a)
     \<and> gbdt_train_shard (small_env\<lparr>NUM_SLICES := 1\<rparr>) small_np small_xgb (small_rows 3) 0 None 1 = Inr (Some a)"
proof -
  have acc: "accepts small_xgb data" if "data \<noteq> []" for data using that by (simp add: small_xgb_def)
  have "type_idx q < length TYPES" if "q \<in> set (small_rows 3)" for q using that by (auto simp: small_rows_def TYPES_def)
  moreover have "\<exists>q\<in>set (small_rows 3). slice_idx q = 0" by (simp add: small_rows_def)
  ultimately obtain c where c: "fold_res (gbdt_train_slice small_np small_xgb 1 (small_rows 3)) [0..<2] None = Inr c"
    using gbdt_fold_total [OF _ _ acc] by blast
  then obtain b where b: "c = Some b" using gbdt_fold_grows [OF c] by auto
  with c have run: "gbdt_train_shard small_env small_np small_xgb (small_rows 3) 0 None 1 = Inr (Some b)"
    by (simp add: gbdt_train_shard_def small_env_def)
  from gbdt_rollback_exact [OF this, of 1] obtain a where a: "rollback b 1 1 = Inr a"
      "gbdt_train_shard (small_env\<lparr>NUM_SLICES := 1\<rparr>) small_np small_xgb (small_rows 3) 0 None 1 = Inr a"
    by (auto simp: small_env_def)
  moreover from a(1) obtain ts where "a = Some ts" by (auto simp: rollback_def split: if_splits)
  ultimately show ?thesis using run by blast
qed

text \<open>Every booster on disk is what training from scratch on the shard's rows gives.\<close>

definition fresh_boosters ::
  "('f, 'z) env_scheme \<Rightarrow> 'f numpy \<Rightarrow> ('f, 't) xgboost \<Rightarrow> nat \<Rightarrow> ('f, 't) disk \<Rightarrow> bool" where
  "fresh_boosters env np x trees d \<longleftrightarrow> aligned d \<and> (\<forall>k b. gbdt_json d k = Some b \<longrightarrow>
     (\<exists>rows. shard_npz d k = Some rows \<and> gbdt_train_shard env np x rows 0 None trees = Inr (Some b)))"

lemma gbdt_fresh_step:
  assumes fresh: "fresh_boosters env np x trees d" and trees: "0 < trees"
    and run: "gbdt_rebuild_batch_by_ref env np x sg pa ca refs trees sign d = (Inr r, d')"
  shows "fresh_boosters env np x trees d'"
proof -
  from run obtain R k m tb ret n resume b tree R' where
      reads: "gbdt_reads refs trees d (R, k, m, tb, ret, n, resume)"
    and plan: "gbdt_plan env np x sg pa ca refs trees sign R k m tb ret n resume (r, b, tree, R')"
    and d': "d' = gbdt_writes k ret b tree R' d"
    unfolding gbdt_rebuild_iff by blast
  from reads obtain rows b0 where r: "routing_json d = Some R" "batch_target R refs = Inr (k, m)" "shard_npz d k = Some rows"
      "gbdt_json d k = Some b0" "ret = filter (\<lambda>r. row_ref r \<notin> set refs) rows" "rollback b0 m trees = Inr resume"
    by (auto simp: gbdt_reads_def)
  have al: "aligned d" using fresh by (simp add: fresh_boosters_def)
  have old: "gbdt_train_shard env np x rows 0 None trees = Inr (Some b0)" using fresh r(3,4) by (fastforce simp: fresh_boosters_def)
  note fold = train_shard_fold [OF old]
  have hs: "PYTHONHASHSEED env = Some ''0''" using old by (auto simp: gbdt_train_shard_def split: if_splits)
  have "m \<le> NUM_SLICES env" using rollback_dest [OF r(6)] gbdt_fold_grows [OF fold] trees by auto
  from gbdt_retrain [OF al r(1-3) fold this r(6)] train_shard_fold [OF gbdt_plan_parts(1) [OF plan]]
  have "gbdt_train_shard env np x ret 0 None trees = Inr (Some b)" by (simp add: gbdt_train_shard_def hs r(5))
  moreover have "aligned d'"
    by (intro aligned_purged [of d R k rows d' refs m] r al) (simp_all add: d' gbdt_writes_files gbdt_plan_routing [OF plan] r(5))
  ultimately show ?thesis using fresh by (simp add: fresh_boosters_def d' gbdt_writes_files)
qed

text \<open>
  C4 Boosters are independent of the erasure history. If every booster is what training
  from scratch on its shard gives, then after any sequence of successful erasures every
  booster is what training from scratch on the rows that are left gives.
\<close>

theorem gbdt_always_retrained:
  assumes "fresh_boosters env np x trees d" "0 < trees"
    and "run_batches (gbdt_batch env np x sg trees sign) bs d = (Inr rs, d')"
  shows "fresh_boosters env np x trees d'"
  using assms
proof (induction bs arbitrary: d rs)
  case (Cons b bs)
  from Cons.prems(3) obtain r d1 rs1 where r: "gbdt_batch env np x sg trees sign b d = (Inr r, d1)"
      "run_batches (gbdt_batch env np x sg trees sign) bs d1 = (Inr rs1, d')"
    by (auto simp: io_simps)
  from gbdt_fresh_step [OF Cons.prems(1,2) r(1) [unfolded gbdt_batch_def]] show ?case
    by (rule Cons.IH [OF _ Cons.prems(2) r(2)])
qed (simp add: io_simps)

definition small_fresh :: "(int, int) disk" where
  "small_fresh = small_disk 3\<lparr>gbdt_json := (\<lambda>k. if k = 0 then Some [13, 22] else None)\<rparr>"

lemma small_fresh_ok: "fresh_boosters small_env small_np small_xgb 1 small_fresh"
proof -
  have "aligned small_fresh" using small_aligned [of 3] by (simp add: aligned_def small_fresh_def)
  moreover have "gbdt_train_shard small_env small_np small_xgb (small_rows 3) 0 None 1 = Inr (Some [13, 22])" by code_simp
  ultimately show ?thesis by (simp add: fresh_boosters_def small_fresh_def)
qed

lemma small_fresh_ready: "batch_ready small_env True [erin] small_fresh small_routing 0 1 (small_rows 3)"
  using small_ready [of 3] by (simp add: batch_ready_def caches_ok_def small_fresh_def)

lemma small_accepts: "data \<noteq> [] \<Longrightarrow> accepts small_xgb data"
  by (simp add: small_xgb_def)

theorem gbdt_always_retrained_witness:
  "\<exists>r d'. run_batches (gbdt_batch small_env small_np small_xgb (\<lambda>k b. k) 1 True) [([], [], [erin])] small_fresh = (Inr [r], d')
     \<and> fresh_boosters small_env small_np small_xgb 1 d'"
proof -
  have len: "gbdt_json small_fresh 0 = Some [13, 22]" "length [13::int, 22] = NUM_SLICES small_env * 1" "\<not> cache_collides small_fresh 0"
    by (simp_all add: small_fresh_def small_env_def cache_collides_def)
  obtain r d' where "gbdt_batch small_env small_np small_xgb (\<lambda>k b. k) 1 True ([], [], [erin]) small_fresh = (Inr r, d')"
    using gbdt_rebuild_ok [OF small_fresh_ready len(1,2) small_accepts len(3), of small_np "\<lambda>k b. k" "[]" "[]"]
    by (auto simp: gbdt_batch_def)
  then have run: "run_batches (gbdt_batch small_env small_np small_xgb (\<lambda>k b. k) 1 True) [([], [], [erin])] small_fresh = (Inr [r], d')"
    by (simp add: io_bind_def io_return_def)
  from gbdt_always_retrained [OF small_fresh_ok _ run] run show ?thesis by auto
qed

lemma gbdt_certificates:
  assumes "gbdt_rebuild_batch_by_ref env np x sg pa ca refs trees True d = (Inr r, d')"
    and "caches_ok d" "shard_npz d (res_shard r) = Some rows" "list_all (\<lambda>q. valid_ref (row_ref q)) rows" "list_all valid_ref refs"
    and "signing_key (SIGNING_KEY env) = Inr key" "\<And>b. ed_verify (ed_public key) b (sg key b)" "\<And>b. sg key b \<noteq> []"
    and "ref \<in> set refs"
  shows "\<exists>m fs root b. map_of (manifests r) ref = Some m \<and> verify_certificate ed_verify (PDict m) (ed_public key) = Inr (True, fs)
     \<and> getitem (PDict m) ''subject_ref'' = Inr (PStr ref) \<and> getitem (PDict m) ''dataset_root'' = Inr (PStr root)
     \<and> getitem (PDict m) ''result_weights'' = Inr (PStr (to_hex (sha256 (save_raw x b)))) \<and> gbdt_json d' (res_shard r) = Some b
     \<and> (build_root (filter (\<lambda>q. key_of q \<notin> key_of ` set refs) (map row_ref rows)) = Inr root \<or> cache_collides d (res_shard r))"
proof -
  from assms(1) obtain R k m tb ret n resume b tree R' where
      reads: "gbdt_reads refs trees d (R, k, m, tb, ret, n, resume)"
    and plan: "gbdt_plan env np x sg pa ca refs trees True R k m tb ret n resume (r, b, tree, R')"
    and d': "d' = gbdt_writes k ret b tree R' d"
    unfolding gbdt_rebuild_iff by blast
  from plan have k: "res_shard r = k" and tree: "smt_remove tb refs = Inr tree" and w: "result_weights r = to_hex (sha256 (save_raw x b))"
    and ms: "issue_all env sg True (certificate_fields env (gbdt_config_digest env) ''gbdt-shard'' k m (result_weights r) pa ca tree) tree refs = Inr (manifests r)"
    and dist: "distinct refs"
    using routing_pops_dest by (auto simp: gbdt_plan_def)
  from reads assms(3) have tb: "tree_for_shard (tree_caches d) k (map row_ref rows) = Inr tb" by (auto simp: gbdt_reads_def k)
  have "gbdt_json d' (res_shard r) = Some b" by (simp add: d' k gbdt_writes_files)
  with batch_certificates [where ed_verify = ed_verify and ed_public = ed_public, OF assms(2-5) tb [folded k] tree ms dist assms(9,6,7,8)]
  show ?thesis unfolding w by blast
qed

text \<open>
  The certificates of a booster's rebuild verify, for each subject of the batch, as
  those of the MLP engine do, and name the digest of the rebuilt booster on disk.
\<close>

theorem gbdt_certificates_verify:
  assumes "gbdt_rebuild_batch_by_ref env np x sg pa ca refs trees True d = (Inr r, d')"
    and "caches_ok d" "shard_npz d (res_shard r) = Some rows" "list_all (\<lambda>q. valid_ref (row_ref q)) rows" "list_all valid_ref refs"
    and "signing_key (SIGNING_KEY env) = Inr key" "\<And>b. ed_verify (ed_public key) b (sg key b)" "\<And>b. sg key b \<noteq> []"
    and "ref \<in> set refs"
  shows "\<exists>m fs root b. map_of (manifests r) ref = Some m \<and> verify_certificate ed_verify (PDict m) (ed_public key) = Inr (True, fs)
     \<and> getitem (PDict m) ''subject_ref'' = Inr (PStr ref) \<and> getitem (PDict m) ''dataset_root'' = Inr (PStr root)
     \<and> getitem (PDict m) ''result_weights'' = Inr (PStr (to_hex (sha256 (save_raw x b)))) \<and> gbdt_json d' (res_shard r) = Some b
     \<and> (build_root (filter (\<lambda>q. key_of q \<notin> key_of ` set refs) (map row_ref rows)) = Inr root \<or> cache_collides d (res_shard r))"
  using gbdt_certificates [where ed_verify = ed_verify and ed_public = ed_public, OF assms] by blast

theorem gbdt_certificates_verify_witness:
  "\<exists>r d' m fs. gbdt_rebuild_batch_by_ref small_env small_np small_xgb (\<lambda>k b. k @ b) [] [] [erin] 1 True (small_disk 3) = (Inr r, d')
     \<and> map_of (manifests r) erin = Some m \<and> verify_certificate (\<lambda>pk b s. s = pk @ b) (PDict m) (replicate 32 9) = Inr (True, fs)"
proof -
  obtain r d' where run: "gbdt_rebuild_batch_by_ref small_env small_np small_xgb (\<lambda>k b. k @ b) [] [] [erin] 1 True (small_disk 3) = (Inr r, d')"
    using small_gbdt by blast
  then have shard: "res_shard r = 0" unfolding gbdt_rebuild_iff gbdt_reads_def gbdt_plan_def by (auto simp: small_target)
  have key: "signing_key (SIGNING_KEY small_env) = Inr (replicate 32 9)"
    unfolding small_env_def by (simp add: signing_key_hex)
  have "\<exists>m fs. map_of (manifests r) erin = Some m \<and> verify_certificate (\<lambda>pk b s. s = pk @ b) (PDict m) (replicate 32 9) = Inr (True, fs)"
    using gbdt_certificates_verify [where rows = "small_rows 3" and ed_public = "\<lambda>k. k"
        and ed_verify = "\<lambda>pk b s. s = pk @ b" and ref = erin, OF run _ _ _ _ key]
    by (auto simp: shard caches_ok_def small_rows_def)
  with run show ?thesis by blast
qed

text \<open>
  A booster's rebuild succeeds on a deployment in good order, with a booster of full
  length on disk and XGBoost accepting any training data that has rows, up to a
  fingerprint collision in the tree cache.
\<close>

theorem gbdt_rebuild_succeeds:
  assumes "batch_ready env sign refs d R k m rows" "gbdt_json d k = Some b" "length b = NUM_SLICES env * trees"
    and "\<And>data. data \<noteq> [] \<Longrightarrow> accepts x data"
  shows "cache_collides d k \<or> (\<exists>r d'. gbdt_rebuild_batch_by_ref env np x sg pa ca refs trees sign d = (Inr r, d'))"
  using gbdt_rebuild_ok [OF assms] by blast

theorem gbdt_rebuild_succeeds_witness:
  "\<exists>r d'. gbdt_rebuild_batch_by_ref small_env small_np small_xgb (\<lambda>k b. k) [] [] [erin] 1 True (small_disk 3) = (Inr r, d')"
  using gbdt_rebuild_succeeds [OF small_ready [of 3], where b = "[1, 3]" and trees = 1 and x = small_xgb, OF _ _ small_accepts]
  by (auto simp: cache_collides_def small_env_def)

lemma routing_pops_dup:
  "\<not> distinct refs \<Longrightarrow> fold_res routing_pop refs R = Inl KeyError"
proof (cases "fold_res routing_pop refs R")
  case (Inl e)
  have "e = KeyError" using Inl by (induction refs arbitrary: R) (auto simp: res_simps routing_pop_def split: if_splits)
  with Inl show "fold_res routing_pop refs R = Inl KeyError" by simp
qed (use routing_pops_dest in auto)

text \<open>
  A batch that names a subject twice corrupts a GBDT deployment: the second
  \<open>routing.pop\<close> raises KeyError when the rows are gone, the booster is replaced and the
  tree is cached, so the caller sees a failure and the routing table still lists the
  subjects.
\<close>

theorem gbdt_duplicate_refs:
  assumes "batch_ready env sign qs d R k m rows" "set refs = set qs" "\<not> distinct refs" "batch_target R refs = Inr (k, m)"
    and "gbdt_json d k = Some b" "length b = NUM_SLICES env * trees" "\<And>data. data \<noteq> [] \<Longrightarrow> accepts x data"
  shows "cache_collides d k \<or> (\<exists>d'. gbdt_rebuild_batch_by_ref env np x sg pa ca refs trees sign d = (Inl KeyError, d')
     \<and> shard_npz d' = (shard_npz d)(k \<mapsto> filter (\<lambda>q. row_ref q \<notin> set refs) rows) \<and> routing_json d' = Some R)"
proof (cases "cache_collides d k")
  case free: False
  obtain tb tree0 where tb: "tree_for_shard (tree_caches d) k (map row_ref rows) = Inr tb" "smt_remove tb qs = Inr tree0"
    by (rule ready_tree [OF assms(1) free])
  have ready: "list_all valid_ref (map row_ref rows)" "list_all valid_ref refs" "caches_ok d" "refs \<noteq> []" "routing_json d = Some R"
      "shard_npz d k = Some rows" and sign: "sign \<longrightarrow> (\<exists>key. signing_key (SIGNING_KEY env) = Inr key)" and qs: "list_all valid_ref qs"
    using assms(1,2) by (auto simp: batch_ready_def list_all_iff)
  obtain tb' where "tree_for_shard (tree_caches d) k (map row_ref rows) = Inr tb'" "tree_ok tb'"
    by (rule tree_for_shard_ok [OF ready(1), of "tree_caches d" k]) (use caches_okD [OF ready(3)] in auto)
  then have tok: "tree_ok tb" using tb(1) by simp
  have "key_of ` set qs \<subseteq> set (tree_keys tb)"
    using smt_remove_missing [OF tok qs] tb(2) by (cases "key_of ` set qs \<subseteq> set (tree_keys tb)") auto
  then obtain tree where tree: "smt_remove tb refs = Inr tree" using smt_remove_ok [OF tok ready(2)] assms(2) by metis
  note bt = batch_tree [OF ready(3,1,2) tb(1) tree]
  obtain resume ts where train: "rollback b m trees = Inr resume" "filter (\<lambda>r. row_ref r \<notin> set qs) rows \<noteq> rows"
      "gbdt_train_shard env np x (filter (\<lambda>r. row_ref r \<notin> set qs) rows) m resume trees = Inr (Some ts)"
    by (rule gbdt_ready_train [OF assms(1,6,7)])
  obtain ms where ms: "issue_all env sg sign (certificate_fields env (gbdt_config_digest env) ''gbdt-shard'' k m
        (to_hex (sha256 (save_raw x ts))) pa ca tree) tree refs = Inr ms"
    using issue_all_total [OF bt(1) ready(2) bt(2) sign] by blast
  show ?thesis
    using train(2)
    by (simp add: gbdt_rebuild_batch_by_ref_def io_bind_def io_when_def io_return_def load_routing_def io_read_def io_lift_def
        load_shard_def io_get_def save_shard_def io_modify_def load_booster_def save_booster_def booster_digest_def
        rebuild_booster_def Let_def certify_def set_tree_cache_def ready(4-6) assms(2,4,5) tb(1) train(1,3) tree ms routing_pops_dup [OF assms(3)])
qed simp

theorem gbdt_duplicate_refs_witness:
  "\<exists>d'. gbdt_rebuild_batch_by_ref small_env small_np small_xgb (\<lambda>k b. k) [] [] [erin, erin] 1 True (small_disk 3) = (Inl KeyError, d')
     \<and> shard_npz d' 0 = Some [small_row adam_ref 0 7]"
proof -
  have target: "batch_target small_routing [erin, erin] = Inr (0, 1)"
    by (simp add: batch_target_def small_routing_def small_entry_def)
  have slices: "NUM_SLICES small_env = 2" by (simp add: small_env_def)
  obtain d' where "gbdt_rebuild_batch_by_ref small_env small_np small_xgb (\<lambda>k b. k) [] [] [erin, erin] 1 True (small_disk 3) = (Inl KeyError, d')"
      "shard_npz d' = (shard_npz (small_disk 3))(0 \<mapsto> filter (\<lambda>q. row_ref q \<notin> set [erin, erin]) (small_rows 3))"
    using gbdt_duplicate_refs [OF small_ready [of 3] _ _ target, where b = "[1, 3]" and trees = 1 and x = small_xgb and np = small_np
        and sg = "\<lambda>k b. k" and pa = "[]" and ca = "[]", OF _ _ _ _ small_accepts]
    by (auto simp: cache_collides_def slices)
  then show ?thesis by (simp add: small_rows_def)
qed

end
