(* ===== verification/Active.thy ===== *)
theory Active
  imports Gbdt
begin

text \<open>
  \<open>engine/active.py\<close>: the operations that depend on which engine a deployment runs, over
  the models of both. \<open>runtime\<close> collects what is fixed for the life of a process.
\<close>

datatype engine_kind = ENGINE_MLP | ENGINE_GBDT

record ('f, 'o, 'g, 't) runtime =
  rt_engine :: engine_kind
  rt_env :: "'f env"
  rt_np :: "'f numpy"
  rt_torch :: "('f, 'o, 'g) torch"
  rt_xgb :: "('f, 't) xgboost"
  rt_sign :: "bytes \<Rightarrow> bytes \<Rightarrow> bytes"

text \<open>\<open>MODEL_ENGINE\<close> is checked when the settings are imported.\<close>

definition model_engine :: "string \<Rightarrow> engine_kind res" where
  "model_engine s =
     (if s = ''mlp'' then Inr ENGINE_MLP else if s = ''gbdt'' then Inr ENGINE_GBDT else Inl ValueError)"

datatype ('f, 't) payload = Mlp_Payload "'f mlp_replay" | Gbdt_Payload "('f, 't) gbdt_replay"

definition with_replay :: "('r \<Rightarrow> 's) \<Rightarrow> 'r rebuild_result \<Rightarrow> 's rebuild_result" where
  "with_replay f r =
     \<lparr>res_shard = res_shard r, resumed_from = resumed_from r, rows_purged = rows_purged r,
      slices_retrained = slices_retrained r, result_weights = result_weights r, manifests = manifests r,
      replay = f (replay r)\<rparr>"

definition active_rebuild ::
  "('f, 'o, 'g, 't) runtime \<Rightarrow> string \<Rightarrow> string \<Rightarrow> string list \<Rightarrow> (('f, 't) disk, ('f, 't) payload rebuild_result) io" where
  "active_rebuild rt purged_at completed_at refs =
     (case rt_engine rt of
        ENGINE_GBDT \<Rightarrow>
          io_bind (gbdt_rebuild_batch_by_ref (rt_env rt) (rt_np rt) (rt_xgb rt) (rt_sign rt) purged_at completed_at refs
                     (TREES_PER_SLICE (rt_env rt)) True)
            (\<lambda>r. io_return (with_replay Gbdt_Payload r))
      | ENGINE_MLP \<Rightarrow>
          io_bind (rebuild_batch_by_ref (rt_env rt) (rt_np rt) (rt_torch rt) (rt_sign rt) purged_at completed_at refs
                     (SEED (rt_env rt)) True)
            (\<lambda>r. io_return (with_replay Mlp_Payload r)))"

section \<open>The live model and its content-addressed copy\<close>

definition live_suffix :: "engine_kind \<Rightarrow> string" where
  "live_suffix k = (case k of ENGINE_GBDT \<Rightarrow> ''.json'' | ENGINE_MLP \<Rightarrow> ''.pt'')"

text \<open>The file at the live path; slice -1 does not exist.\<close>

definition live_model :: "('f, 'o, 'g, 't) runtime \<Rightarrow> nat \<Rightarrow> ('f, 't) disk \<Rightarrow> 't artifact option" where
  "live_model rt shard d =
     (case rt_engine rt of
        ENGINE_GBDT \<Rightarrow> map_option Booster_File (gbdt_json d shard)
      | ENGINE_MLP \<Rightarrow>
          if NUM_SLICES (rt_env rt) = 0 then None
          else map_option Weights_File (checkpoint_pt d (CHECKPOINT_DIR (rt_env rt), shard, NUM_SLICES (rt_env rt) - 1)))"

definition join_path :: "string \<Rightarrow> string \<Rightarrow> string" where
  "join_path a b = (if a = [] \<or> last a = CHR ''/'' then a @ b else a @ CHR ''/'' # b)"

definition cas_path :: "('f, 'z) env_scheme \<Rightarrow> string \<Rightarrow> string \<Rightarrow> string" where
  "cas_path env w suffix = join_path (join_path (CHECKPOINT_DIR env) ''cas'') (w @ suffix)"

definition promote_artifact :: "('f, 'o, 'g, 't) runtime \<Rightarrow> nat \<Rightarrow> string \<Rightarrow> (('f, 't) disk, string) io" where
  "promote_artifact rt shard w =
     (let path = cas_path (rt_env rt) w (live_suffix (rt_engine rt)) in
      io_bind (io_get (\<lambda>d. cas_file d path)) (\<lambda>present.
        if present \<noteq> None then io_return path
        else
          io_bind (io_read (live_model rt shard)) (\<lambda>art.
          io_bind (io_modify (\<lambda>d. d\<lparr>cas_file := (cas_file d)(path \<mapsto> art)\<rparr>)) (\<lambda>_.
          io_return path))))"

section \<open>Replaying a rebuild\<close>

text \<open>\<open>digests[max(digests)]\<close>\<close>

definition last_digest :: "(nat \<times> string) list \<Rightarrow> string res" where
  "last_digest digests =
     (if digests = [] then Inl ValueError
      else case map_of digests (Max (fst ` set digests)) of None \<Rightarrow> Inl KeyError | Some w \<Rightarrow> Inr w)"

text \<open>The temporary directory disappears with everything in it, also after an exception.\<close>

definition remove_dir :: "string \<Rightarrow> ('f, 't) disk \<Rightarrow> ('f, 't) disk" where
  "remove_dir dir d =
     d\<lparr>checkpoint_pt := (\<lambda>(x, k, i). if x = dir then None else checkpoint_pt d (x, k, i)),
       preproc_json := (\<lambda>(x, k). if x = dir then None else preproc_json d (x, k))\<rparr>"

definition in_scratch :: "string \<Rightarrow> (('f, 't) disk, 'a) io \<Rightarrow> (('f, 't) disk, 'a) io" where
  "in_scratch dir m d = (let (r, d') = m d in (r, remove_dir dir d'))"

definition active_replay_digest ::
  "('f, 'o, 'g, 't) runtime \<Rightarrow> string \<Rightarrow> nat \<Rightarrow> ('f, 't) payload \<Rightarrow> (('f, 't) disk, string) io" where
  "active_replay_digest rt scratch shard payload =
     (case (rt_engine rt, payload) of
        (ENGINE_GBDT, Gbdt_Payload rp) \<Rightarrow> io_lift (gbdt_replay_digest (rt_env rt) (rt_np rt) (rt_xgb rt) rp)
      | (ENGINE_MLP, Mlp_Payload rp) \<Rightarrow>
          io_bind (in_scratch scratch (train_shard (rt_env rt) (rt_np rt) (rt_torch rt) shard (Some (replay_records rp))
                     (replay_from rp) (replay_state rp) (replay_seed rp) (Some scratch)))
            (\<lambda>digests. io_lift (last_digest digests))
      | _ \<Rightarrow> io_raise KeyError)"

section \<open>Promotion\<close>

definition artifact_digest :: "('f, 'o, 'g, 't) runtime \<Rightarrow> 't artifact \<Rightarrow> string" where
  "artifact_digest rt art =
     (case art of Weights_File st \<Rightarrow> state_dict_digest st | Booster_File b \<Rightarrow> to_hex (sha256 (save_raw (rt_xgb rt) b)))"

text \<open>Every file of the content-addressed directory holds a model with the digest in its name.\<close>

definition cas_ok :: "('f, 'o, 'g, 't) runtime \<Rightarrow> ('f, 't) disk \<Rightarrow> bool" where
  "cas_ok rt d \<longleftrightarrow> (\<forall>w suffix art. length w = 64 \<longrightarrow> cas_file d (cas_path (rt_env rt) w suffix) = Some art
     \<longrightarrow> artifact_digest rt art = w)"

lemma cas_path_inject:
  "length w = length w' \<Longrightarrow> cas_path env w s = cas_path env w' s' \<longleftrightarrow> w = w' \<and> s = s'"
  by (auto simp: cas_path_def join_path_def)

lemma promote_artifact_ok:
  assumes "cas_ok rt d" "length w = 64" "live_model rt k d = Some art" "artifact_digest rt art = w"
  obtains d' stored where "promote_artifact rt k w d = (Inr (cas_path (rt_env rt) w (live_suffix (rt_engine rt))), d')"
    "cas_file d' (cas_path (rt_env rt) w (live_suffix (rt_engine rt))) = Some stored" "artifact_digest rt stored = w"
    "cas_ok rt d'" "\<forall>p. cas_file d p \<noteq> None \<longrightarrow> cas_file d' p = cas_file d p"
proof -
  let ?p = "cas_path (rt_env rt) w (live_suffix (rt_engine rt))"
  show thesis
  proof (cases "cas_file d ?p")
    case None
    define d' where "d' = d\<lparr>cas_file := (cas_file d)(?p \<mapsto> art)\<rparr>"
    have "promote_artifact rt k w d = (Inr ?p, d')"
      by (simp add: promote_artifact_def Let_def io_bind_def io_get_def None io_read_def assms(3) io_modify_def io_return_def d'_def)
    moreover have "cas_ok rt d'"
      using assms(1,2,4) unfolding cas_ok_def d'_def by (auto simp: cas_path_inject)
    ultimately show thesis using that assms(4) None by (simp add: d'_def)
  next
    case (Some stored)
    have "promote_artifact rt k w d = (Inr ?p, d)"
      by (simp add: promote_artifact_def Let_def io_bind_def io_get_def Some io_return_def)
    moreover have "artifact_digest rt stored = w" using assms(1,2) Some by (auto simp: cas_ok_def)
    ultimately show thesis using that Some assms(1) by blast
  qed
qed

lemma active_gbdt:
  assumes "rt_engine rt = ENGINE_GBDT"
  shows "active_rebuild rt pa ca refs d = (Inr r, d') \<longleftrightarrow>
    (\<exists>g. gbdt_rebuild_batch_by_ref (rt_env rt) (rt_np rt) (rt_xgb rt) (rt_sign rt) pa ca refs (TREES_PER_SLICE (rt_env rt)) True d
       = (Inr g, d') \<and> r = with_replay Gbdt_Payload g)"
  by (auto simp: active_rebuild_def assms io_simps)

lemma active_mlp:
  assumes "rt_engine rt = ENGINE_MLP"
  shows "active_rebuild rt pa ca refs d = (Inr r, d') \<longleftrightarrow>
    (\<exists>m. rebuild_batch_by_ref (rt_env rt) (rt_np rt) (rt_torch rt) (rt_sign rt) pa ca refs (SEED (rt_env rt)) True d
       = (Inr m, d') \<and> r = with_replay Mlp_Payload m)"
  by (auto simp: active_rebuild_def assms io_simps)

lemma with_replay_simps [simp]:
  "res_shard (with_replay f r) = res_shard r" "result_weights (with_replay f r) = result_weights r"
  "manifests (with_replay f r) = manifests r" "replay (with_replay f r) = f (replay r)"
  by (simp_all add: with_replay_def)

text \<open>After a rebuild the live model is the one of the result.\<close>

lemma rebuilt_live:
  assumes "active_rebuild rt pa ca refs d = (Inr r, d')"
  shows "\<exists>art. live_model rt (res_shard r) d' = Some art \<and> artifact_digest rt art = result_weights r
     \<and> length (result_weights r) = 64 \<and> cas_file d' = cas_file d"
proof (cases "rt_engine rt")
  case ENGINE_MLP
  with assms obtain m0 where m0: "rebuild_batch_by_ref (rt_env rt) (rt_np rt) (rt_torch rt) (rt_sign rt) pa ca refs (SEED (rt_env rt)) True d
       = (Inr m0, d')" "r = with_replay Mlp_Payload m0"
    by (auto simp: active_mlp)
  from m0(1) obtain R k m tb ret n resume p ss tree R' where
      plan: "mlp_plan (rt_env rt) (rt_np rt) (rt_torch rt) (rt_sign rt) pa ca refs (SEED (rt_env rt)) True R k m tb ret n resume (m0, p, ss, tree, R')"
    and d': "d' = mlp_writes (rt_env rt) k ret p ss tree R' d"
    unfolding rebuild_iff by blast
  note last = plan_last [OF plan]
  obtain st where st: "map_of ss (NUM_SLICES (rt_env rt) - 1) = Some st" "result_weights m0 = state_dict_digest st" "res_shard m0 = k"
    using plan by (auto simp: mlp_plan_def map_of_digests)
  have "checkpoint_pt d' (CHECKPOINT_DIR (rt_env rt), k, NUM_SLICES (rt_env rt) - 1) = Some st"
    using last(1) st(1) by (auto simp: d' writes_checkpoint writes_lookup [OF last(2)])
  with last(1) st ENGINE_MLP show ?thesis
    by (auto simp: m0(2) live_model_def artifact_digest_def state_dict_digest_def d' mlp_writes_def)
next
  case ENGINE_GBDT
  with assms obtain g where g: "gbdt_rebuild_batch_by_ref (rt_env rt) (rt_np rt) (rt_xgb rt) (rt_sign rt) pa ca refs
       (TREES_PER_SLICE (rt_env rt)) True d = (Inr g, d')" "r = with_replay Gbdt_Payload g"
    by (auto simp: active_gbdt)
  from g(1) obtain k b ret tree R' where "gbdt_json d' = (gbdt_json d)(k \<mapsto> b)" "res_shard g = k"
      "result_weights g = to_hex (sha256 (save_raw (rt_xgb rt) b))" "d' = gbdt_writes k ret b tree R' d"
    unfolding gbdt_rebuild_iff gbdt_plan_def by (fastforce simp: gbdt_writes_files)
  with ENGINE_GBDT show ?thesis
    by (auto simp: g(2) live_model_def artifact_digest_def gbdt_writes_def)
qed

section \<open>Replay\<close>

lemma map_of_last: "map fst ss = [m..<N] \<Longrightarrow> m < N \<Longrightarrow> last_digest (digests_of ss) = Inr (the (map_of (digests_of ss) (N - 1)))"
proof -
  assume ss: "map fst ss = [m..<N]" "m < N"
  have fst: "map fst (digests_of ss) = [m..<N]" using ss(1) by (simp add: digests_of_def case_prod_beta comp_def)
  then have keys: "fst ` set (digests_of ss) = {m..<N}" by (metis atLeastLessThan_upt set_map)
  then have ne: "digests_of ss \<noteq> []" using ss(2) by auto
  have "Max {m..<N} = N - 1" using ss(2) by (intro Max_eqI) auto
  moreover have "map_of (digests_of ss) (N - 1) \<noteq> None" using keys ss(2) by (auto simp: map_of_eq_None_iff)
  ultimately show ?thesis using ne keys by (auto simp: last_digest_def)
qed

definition scratch_free :: "string \<Rightarrow> ('f, 't) disk \<Rightarrow> bool" where
  "scratch_free dir d \<longleftrightarrow> (\<forall>k i. checkpoint_pt d (dir, k, i) = None \<and> preproc_json d (dir, k) = None)"

lemma remove_dir_writes:
  assumes "scratch_free dir d"
  shows "remove_dir dir (d\<lparr>preproc_json := (preproc_json d)((dir, k) \<mapsto> p), checkpoint_pt := write_states dir k ss (checkpoint_pt d)\<rparr>) = d"
proof -
  have "(\<lambda>(x, k', i). if x = dir then None else write_states dir k ss (checkpoint_pt d) (x, k', i)) = checkpoint_pt d"
  proof (rule ext, clarify)
    show "(if x = dir then None else write_states dir k ss (checkpoint_pt d) (x, k', i)) = checkpoint_pt d (x, k', i)" for x k' i
      using assms by (auto simp: scratch_free_def write_states_other image_iff)
  qed
  moreover have "(\<lambda>(x, k'). if x = dir then None else ((preproc_json d)((dir, k) \<mapsto> p)) (x, k')) = preproc_json d"
    using assms by (auto simp: scratch_free_def fun_eq_iff)
  ultimately show ?thesis by (simp add: remove_dir_def case_prod_unfold cong: if_cong)
qed

section \<open>Properties\<close>

text \<open>
  C14 The spot check reproduces a rebuild. Replaying the payload of a successful rebuild,
  at any later time, gives the digest of the rebuild's result and leaves every file as it
  was, whichever engine is active and whatever has happened to the shard since.
\<close>

theorem spot_check_reproduces:
  assumes "active_rebuild rt pa ca refs d = (Inr r, d')" "scratch \<noteq> []" "scratch_free scratch d2"
  shows "active_replay_digest rt scratch (res_shard r) (replay r) d2 = (Inr (result_weights r), d2)"
proof (cases "rt_engine rt")
  case ENGINE_MLP
  with assms obtain m0 where m0: "rebuild_batch_by_ref (rt_env rt) (rt_np rt) (rt_torch rt) (rt_sign rt) pa ca refs (SEED (rt_env rt)) True d
       = (Inr m0, d')" "r = with_replay Mlp_Payload m0"
    by (auto simp: active_mlp)
  from m0(1) obtain R k m tb ret n resume p ss tree R' where
      plan: "mlp_plan (rt_env rt) (rt_np rt) (rt_torch rt) (rt_sign rt) pa ca refs (SEED (rt_env rt)) True R k m tb ret n resume (m0, p, ss, tree, R')"
    unfolding rebuild_iff by blast
  note last = plan_last [OF plan]
  from plan have models: "shard_models (rt_env rt) (rt_np rt) (rt_torch rt) ret m resume (SEED (rt_env rt)) = Inr (p, ss)"
    and r: "res_shard m0 = k" "replay m0 = \<lparr>replay_records = ret, replay_from = m, replay_state = resume, replay_seed = SEED (rt_env rt)\<rparr>"
      "map_of (digests_of ss) (NUM_SLICES (rt_env rt) - 1) = Some (result_weights m0)"
    by (auto simp: mlp_plan_def)
  have out: "scratch = (if Some scratch = None \<or> Some scratch = Some [] then CHECKPOINT_DIR (rt_env rt) else the (Some scratch))"
    using assms(2) by simp
  show ?thesis
    using r map_of_last [OF last(2,1)]
    by (simp add: ENGINE_MLP m0(2) active_replay_digest_def in_scratch_def io_bind_def io_lift_def
        train_shard_out [OF models out] remove_dir_writes [OF assms(3)])
next
  case ENGINE_GBDT
  with assms obtain g where g: "gbdt_rebuild_batch_by_ref (rt_env rt) (rt_np rt) (rt_xgb rt) (rt_sign rt) pa ca refs
       (TREES_PER_SLICE (rt_env rt)) True d = (Inr g, d')" "r = with_replay Gbdt_Payload g"
    by (auto simp: active_gbdt)
  from g(1) obtain R k m tb ret n resume b tree R' where
      "gbdt_plan (rt_env rt) (rt_np rt) (rt_xgb rt) (rt_sign rt) pa ca refs (TREES_PER_SLICE (rt_env rt)) True R k m tb ret n resume (g, b, tree, R')"
    unfolding gbdt_rebuild_iff by blast
  then show ?thesis
    by (auto simp: ENGINE_GBDT g(2) active_replay_digest_def gbdt_plan_def gbdt_replay_digest_def booster_digest_def io_lift_def)
qed

definition small_runtime :: "engine_kind \<Rightarrow> (int, unit, nat, int) runtime" where
  "small_runtime k = \<lparr>rt_engine = k, rt_env = small_env, rt_np = small_np, rt_torch = small_torch, rt_xgb = small_xgb,
     rt_sign = (\<lambda>k b. k)\<rparr>"

lemma small_active:
  "\<exists>r d'. active_rebuild (small_runtime k) [] [] [erin] (small_disk 3) = (Inr r, d')"
proof (cases k)
  case ENGINE_MLP
  obtain r d' where "rebuild_batch_by_ref small_env small_np small_torch (\<lambda>k b. k) [] [] [erin] 1337 True (small_disk 3) = (Inr r, d')"
    using small_rebuild by blast
  moreover have "SEED small_env = 1337" by (simp add: small_env_def)
  ultimately show ?thesis using ENGINE_MLP active_mlp [of "small_runtime k"] by (auto simp: small_runtime_def)
next
  case ENGINE_GBDT
  obtain r d' where "gbdt_rebuild_batch_by_ref small_env small_np small_xgb (\<lambda>k b. k) [] [] [erin] 1 True (small_disk 3) = (Inr r, d')"
    using small_gbdt by blast
  moreover have "TREES_PER_SLICE small_env = 1" by (simp add: small_env_def)
  ultimately show ?thesis using ENGINE_GBDT active_gbdt [of "small_runtime k"] by (auto simp: small_runtime_def)
qed

theorem spot_check_reproduces_witness:
  "\<exists>r d'. active_rebuild (small_runtime ENGINE_MLP) [] [] [erin] (small_disk 3) = (Inr r, d')
     \<and> active_replay_digest (small_runtime ENGINE_MLP) ''tmp'' (res_shard r) (replay r) (small_disk 9\<lparr>checkpoint_pt := Map.empty\<rparr>)
        = (Inr (result_weights r), small_disk 9\<lparr>checkpoint_pt := Map.empty\<rparr>)"
proof -
  obtain r d' where run: "active_rebuild (small_runtime ENGINE_MLP) [] [] [erin] (small_disk 3) = (Inr r, d')"
    using small_active by blast
  have "scratch_free ''tmp'' (small_disk 9\<lparr>checkpoint_pt := Map.empty\<rparr>)" by (simp add: scratch_free_def small_disk_def)
  from spot_check_reproduces [OF run _ this] run show ?thesis by auto
qed



end
