(* ===== verification/Erasure.thy ===== *)
theory Erasure
  imports Active
begin

text \<open>
  What a rebuild does to the files as far as the rest of the system can tell, for either
  engine, and whether it returns or raises half way: erased references never come back.
\<close>

section \<open>The invariant of the files\<close>

definition disk_ok :: "('f, 't) disk \<Rightarrow> bool" where
  "disk_ok d \<longleftrightarrow> caches_ok d \<and> aligned d
     \<and> (\<forall>k rows. shard_npz d k = Some rows \<longrightarrow> list_all (\<lambda>q. valid_ref (row_ref q)) rows)
     \<and> (\<forall>R. routing_json d = Some R \<longrightarrow> (\<forall>ref\<in>fst ` set R. valid_ref ref))"

text \<open>No row of any shard and no entry of the routing table belongs to one of the references.\<close>

definition gone :: "string set \<Rightarrow> ('f, 't) disk \<Rightarrow> bool" where
  "gone X d \<longleftrightarrow> (\<forall>k rows. shard_npz d k = Some rows \<longrightarrow> row_ref ` set rows \<inter> X = {})
     \<and> (\<forall>R. routing_json d = Some R \<longrightarrow> fst ` set R \<inter> X = {})"

definition files_ok :: "string set \<Rightarrow> ('f, 't) disk \<Rightarrow> bool" where
  "files_ok X d \<longleftrightarrow> disk_ok d \<and> gone X d"

text \<open>Only the routing table, the rows and the tree caches matter.\<close>

lemma files_ok_other:
  assumes "files_ok X d" "routing_json d' = routing_json d" "shard_npz d' = shard_npz d" "tree_caches d' = tree_caches d"
  shows "files_ok X d'"
  using assms by (simp add: files_ok_def disk_ok_def gone_def caches_ok_def aligned_def)

lemma files_ok_rows:
  assumes "files_ok X d" "shard_npz d k = Some records" "set retained \<subseteq> set records"
  shows "files_ok X (d\<lparr>shard_npz := (shard_npz d)(k \<mapsto> retained)\<rparr>)"
proof -
  let ?d = "d\<lparr>shard_npz := (shard_npz d)(k \<mapsto> retained)\<rparr>"
  have sub: "\<exists>rows0. shard_npz d k' = Some rows0 \<and> set rows \<subseteq> set rows0" if "shard_npz ?d k' = Some rows" for k' rows
    using that assms(2,3) by (cases "k' = k") auto
  have "aligned ?d"
  proof (rule alignedI)
    fix R k' rows r assume r: "routing_json ?d = Some R" "shard_npz ?d k' = Some rows" "r \<in> set rows"
    from sub [OF r(2)] r(3) obtain rows0 where "shard_npz d k' = Some rows0" "r \<in> set rows0" by blast
    moreover have "aligned d" "routing_json d = Some R" using assms(1) r(1) by (simp_all add: files_ok_def disk_ok_def)
    ultimately show "\<exists>en. map_of R (row_ref r) = Some en \<and> e_shard en = k' \<and> min_slice_idx en \<le> slice_idx r"
      using alignedD by blast
  qed
  moreover have "list_all (\<lambda>q. valid_ref (row_ref q)) rows" if "shard_npz ?d k' = Some rows" for k' rows
    using sub [OF that] assms(1) unfolding files_ok_def disk_ok_def list_all_iff by blast
  moreover have "row_ref ` set rows \<inter> X = {}" if "shard_npz ?d k' = Some rows" for k' rows
    using sub [OF that] assms(1) unfolding files_ok_def gone_def by blast
  ultimately show ?thesis
    using assms(1) by (simp add: files_ok_def disk_ok_def gone_def caches_ok_def)
qed

lemma files_ok_cache:
  "files_ok X d \<Longrightarrow> tree_ok t \<Longrightarrow> files_ok X (d\<lparr>tree_caches := cache_tree (tree_caches d) k t\<rparr>)"
  by (simp add: files_ok_def disk_ok_def gone_def caches_ok_def aligned_def cache_tree_def)

lemma keeps_save_preproc: "keeps (files_ok X) (save_preproc dir k p)"
  unfolding save_preproc_def by (rule keeps_modify, erule files_ok_other) simp_all

lemma keeps_save_checkpoint: "keeps (files_ok X) (save_checkpoint dir k i st)"
  unfolding save_checkpoint_def by (rule keeps_modify, erule files_ok_other) simp_all

lemma keeps_train_slice: "keeps (files_ok X) (train_slice env np t seed dir k p rs i s)"
  unfolding train_slice_def Let_def by (intro keeps_intros keeps_save_checkpoint)

lemma keeps_train_shard: "keeps (files_ok X) (train_shard env np t k (Some rs) m st seed dir)"
  unfolding train_shard_def Let_def option.case by (intro keeps_intros keeps_save_preproc keeps_train_slice)

lemma routed_valid:
  assumes "files_ok X d" "routing_json d = Some R" "batch_target R refs = Inr (k, m)"
  shows "list_all valid_ref refs"
  unfolding list_all_iff
proof
  fix ref assume "ref \<in> set refs"
  from batch_target_dest [OF assms(3) this] have "ref \<in> fst ` set R" by (auto dest: map_of_SomeD intro: rev_image_eqI)
  with assms(1,2) show "valid_ref ref" by (auto simp: files_ok_def disk_ok_def)
qed

lemma tree_before_ok:
  assumes "files_ok X d" "shard_npz d k = Some rows" "tree_for_shard (tree_caches d) k (map row_ref rows) = Inr t"
  shows "tree_ok t"
proof -
  have "list_all valid_ref (map row_ref rows)" using assms(1,2) by (simp add: files_ok_def disk_ok_def list_all_iff)
  from tree_for_shard_ok [OF this, of "tree_caches d" k] assms(1,3) show ?thesis
    by (metis Inr_inject caches_okD files_ok_def disk_ok_def)
qed

section \<open>A rebuild that raises\<close>

lemma certify_fails:
  assumes "tree_ok t" "list_all valid_ref refs"
  shows "hoare (files_ok X) (certify env sg sign cfg vp k m w pa ca t refs R) (\<lambda>_ _. True) (files_ok X)"
  unfolding certify_def set_tree_cache_def save_routing_def Let_def
proof (rule hoare_bind_lift)
  fix tree assume tree: "smt_remove t refs = Inr tree"
  have "key_of ` set refs \<subseteq> set (tree_keys t)" using smt_remove_missing [OF assms] tree by (cases "key_of ` set refs \<subseteq> set (tree_keys t)") auto
  from smt_remove_ok [OF assms this] tree have ok: "tree_ok tree" by auto
  show "hoare (files_ok X)
      (io_bind (io_modify (\<lambda>d. d\<lparr>tree_caches := cache_tree (tree_caches d) k tree\<rparr>)) (\<lambda>_.
       io_bind (io_lift (issue_all env sg sign (certificate_fields env cfg vp k m w pa ca tree) tree refs)) (\<lambda>ms.
       io_bind (io_lift (fold_res routing_pop refs R)) (\<lambda>R'.
       io_bind (io_modify (\<lambda>d. d\<lparr>routing_json := Some R'\<rparr>)) (\<lambda>_. io_return ms)))))
      (\<lambda>_ _. True) (files_ok X)"
    by (rule hoare_bind_modify [where P' = "files_ok X"], erule files_ok_cache [OF _ ok], rule hoare_bind_lift, assumption,
        rule hoare_bind_lift, assumption, rule hoare_bind_modify [where P' = "\<lambda>_. True"], rule TrueI, rule hoare_return, rule TrueI)
qed

text \<open>What has been read when the rows are saved.\<close>

definition batch_read :: "string set \<Rightarrow> string list \<Rightarrow> nat \<Rightarrow> 'f row list \<Rightarrow> smt \<Rightarrow> ('f, 't) disk \<Rightarrow> bool" where
  "batch_read X refs k rows tb d \<longleftrightarrow> files_ok X d \<and> shard_npz d k = Some rows \<and> tree_ok tb \<and> list_all valid_ref refs"

lemma batch_readI:
  assumes "files_ok X d" "routing_json d = Some R" "batch_target R refs = Inr (k, m)" "shard_npz d k = Some rows"
    "tree_for_shard (tree_caches d) k (map row_ref rows) = Inr tb"
  shows "batch_read X refs k rows tb d"
  using assms tree_before_ok [OF assms(1,4,5)] routed_valid [OF assms(1-3)] by (simp add: batch_read_def)

lemma reading_batch:
  fixes f :: "routing \<Rightarrow> nat \<Rightarrow> nat \<Rightarrow> 'f row list \<Rightarrow> smt \<Rightarrow> (('f, 't) disk, 'a) io"
  assumes "\<And>R k m rows tb. hoare (batch_read X refs k rows tb) (f R k m rows tb) Q (files_ok X)"
  shows "hoare (files_ok X)
    (io_bind (io_when (refs = []) ValueError) (\<lambda>_.
     io_bind load_routing (\<lambda>R.
     io_bind (io_lift (batch_target R refs)) (\<lambda>(k, m).
     io_bind (load_shard k) (\<lambda>rows.
     io_bind (io_get tree_caches) (\<lambda>cache.
     io_bind (io_lift (tree_for_shard cache k (map row_ref rows))) (\<lambda>tb. f R k m rows tb))))))) Q (files_ok X)"
  unfolding load_routing_def load_shard_def case_prod_unfold
proof (rule hoare_bind_keeps, simp add: io_when_def keeps_intros, assumption, rule hoare_bind_read, assumption, rule hoare_bind_lift,
    simp, rule hoare_bind_read, simp, rule hoare_bind_get, rule hoare_bind_lift, simp)
  fix R p and rows :: "'f row list" and cache tb assume "batch_target R refs = Inr p" "tree_for_shard cache (fst p) (map row_ref rows) = Inr tb"
  then show "hoare (\<lambda>d. ((files_ok X d \<and> routing_json d = Some R) \<and> shard_npz d (fst p) = Some rows) \<and> tree_caches d = cache)
      (f R (fst p) (snd p) rows tb) Q (files_ok X)"
    by (intro hoare_weaken [OF assms]) (auto intro: batch_readI [where m = "snd p"])
qed

lemma saving_rows:
  assumes "tree_ok tb \<Longrightarrow> list_all valid_ref refs \<Longrightarrow> hoare (files_ok X) g Q (files_ok X)"
    and "set retained \<subseteq> set rows"
  shows "hoare (batch_read X refs k rows tb) (io_bind (save_shard k retained) (\<lambda>_. g)) Q (files_ok X)"
  unfolding save_shard_def
proof (rule hoare_pure)
  show "batch_read X refs k rows tb d \<Longrightarrow> tree_ok tb \<and> list_all valid_ref refs" for d by (simp add: batch_read_def)
  assume "tree_ok tb \<and> list_all valid_ref refs"
  then show "hoare (batch_read X refs k rows tb) (io_bind (io_modify (\<lambda>d. d\<lparr>shard_npz := (shard_npz d)(k \<mapsto> retained)\<rparr>)) (\<lambda>_. g)) Q (files_ok X)"
    using assms by (intro hoare_bind_modify [where P' = "files_ok X"]) (auto simp: batch_read_def intro: files_ok_rows)
qed

lemma certify_then:
  assumes "tree_ok t" "list_all valid_ref refs"
  shows "hoare (files_ok X) (io_bind (certify env sg sign cfg vp k m w pa ca t refs R) (\<lambda>ms. io_return (h ms))) (\<lambda>_ _. True) (files_ok X)"
  by (rule hoare_bind [OF certify_fails [OF assms]], rule hoare_return) simp

lemma keeps_load_resume: "keeps (files_ok X) (load_resume env k m)"
  unfolding load_resume_def by (intro keeps_intros)

lemma mlp_fails:
  fixes env :: "('f, 'z) env_scheme"
  shows "hoare (files_ok X) (rebuild_batch_by_ref env np t sg pa ca refs seed sign) (\<lambda>_ _. True) (files_ok X)"
  unfolding rebuild_batch_by_ref_def
proof (rule reading_batch, rule hoare_bind_lift)
  fix R k m tb and rows :: "'f row list" and s assume "purge_all rows refs = Inr s"
  then have sub: "set (fst s) \<subseteq> set rows" using purge_all_ok(2) [of rows refs "fst s" "snd s"] by auto
  show "hoare (batch_read X refs k rows tb)
    (case s of (retained, dropped) \<Rightarrow>
     io_bind (save_shard k retained) (\<lambda>_.
     io_bind (load_resume env k m) (\<lambda>resume_state.
     io_bind (train_shard env np t k (Some retained) m resume_state seed None) (\<lambda>digests.
     io_bind (io_lift (final_weights env digests)) (\<lambda>weights.
     io_bind (certify env sg sign (config_digest env np) ''shard'' k m weights pa ca tb refs R) (\<lambda>ms.
     io_return
       \<lparr>res_shard = k, resumed_from = resumed_text m, rows_purged = dropped,
        slices_retrained = [m..<NUM_SLICES env], result_weights = weights, manifests = ms,
        replay = \<lparr>replay_records = retained, replay_from = m, replay_state = resume_state,
                  replay_seed = seed\<rparr>\<rparr>)))))) (\<lambda>_ _. True) (files_ok X)"
    unfolding case_prod_unfold
    by (rule saving_rows [OF _ sub], rule hoare_bind_keeps [OF keeps_load_resume], assumption,
        rule hoare_bind_keeps [OF keeps_train_shard], assumption, rule hoare_bind_lift, assumption, rule certify_then)
qed (simp add: batch_read_def)

lemma gbdt_fails:
  fixes env :: "('f, 'z) env_scheme"
  shows "hoare (files_ok X) (gbdt_rebuild_batch_by_ref env np x sg pa ca refs trees sign) (\<lambda>_ _. True) (files_ok X)"
  unfolding gbdt_rebuild_batch_by_ref_def load_booster_def
proof (rule reading_batch, rule hoare_bind_read, simp add: batch_read_def, rule hoare_bind_lift)
  fix R k m tb and rows :: "'f row list" and booster s assume "rebuild_booster env np x refs rows m booster trees = Inr s"
  then have sub: "set (snd s) \<subseteq> set rows" by (cases s) (auto simp: rebuild_booster_iff)
  have save: "keeps (files_ok X) (save_booster b k)" for b
    unfolding save_booster_def by (cases b) (auto intro!: keeps_intros keeps_modify elim!: files_ok_other)
  show "hoare (\<lambda>d. batch_read X refs k rows tb d \<and> gbdt_json d k = Some booster)
    (case s of (rebuilt, retained) \<Rightarrow>
     io_bind (save_shard k retained) (\<lambda>_.
     io_bind (save_booster rebuilt k) (\<lambda>_.
     io_bind (io_lift (rollback booster m trees)) (\<lambda>resume_booster.
     io_bind (io_lift (booster_digest x rebuilt)) (\<lambda>weights.
     io_bind (certify env sg sign (gbdt_config_digest env) ''gbdt-shard'' k m weights pa ca tb refs R) (\<lambda>ms.
     io_return
       \<lparr>res_shard = k, resumed_from = resumed_text m,
        rows_purged = length rows - length retained,
        slices_retrained = [m..<NUM_SLICES env], result_weights = weights, manifests = ms,
        replay = \<lparr>g_records = retained, g_from = m, g_booster = resume_booster,
                  g_trees = trees, g_seed = SEED env\<rparr>\<rparr>)))))) (\<lambda>_ _. True) (files_ok X)"
    unfolding case_prod_unfold
    by (rule hoare_weaken [where P = "batch_read X refs k rows tb"], rule saving_rows [OF _ sub], rule hoare_bind_keeps [OF save], assumption,
        rule hoare_bind_lift, assumption, rule hoare_bind_lift, assumption, rule certify_then) simp_all
qed (simp add: batch_read_def)

section \<open>A rebuild that returns\<close>

lemma files_ok_purged:
  assumes "files_ok X d" "routing_json d = Some R" "batch_target R refs = Inr (k, m)" "shard_npz d k = Some rows"
    and "routing_json d' = Some (filter (\<lambda>p. fst p \<notin> set refs) R)"
    and "shard_npz d' = (shard_npz d)(k \<mapsto> filter (\<lambda>r. row_ref r \<notin> set refs) rows)"
    and "tree_caches d' = cache_tree (tree_caches d) k tree" "tree_ok tree"
  shows "files_ok (X \<union> set refs) d'"
proof -
  have al: "aligned d" using assms(1) by (simp add: files_ok_def disk_ok_def)
  have rows: "row_ref r \<notin> set refs \<and> (\<exists>rows0. shard_npz d k' = Some rows0 \<and> r \<in> set rows0)"
    if r: "shard_npz d' k' = Some rows'" "r \<in> set rows'" for k' rows' r
  proof (cases "k' = k")
    case True
    with r assms(4,6) show ?thesis by auto
  next
    case False
    with r assms(6) have r0: "shard_npz d k' = Some rows'" by simp
    from alignedD [OF al assms(2) this r(2)] obtain en where "map_of R (row_ref r) = Some en" "e_shard en = k'" by blast
    with False batch_target_dest [OF assms(3), of "row_ref r"] have "row_ref r \<notin> set refs" by auto
    with r0 r(2) show ?thesis by blast
  qed
  have "aligned d'" by (rule aligned_purged [OF al assms(2,4,5,3,6)])
  moreover have "caches_ok d'" using assms(1,7,8) by (simp add: files_ok_def disk_ok_def caches_ok_def cache_tree_def)
  moreover have "list_all (\<lambda>q. valid_ref (row_ref q)) rows'" if "shard_npz d' k' = Some rows'" for k' rows'
    using rows [OF that] assms(1) unfolding files_ok_def disk_ok_def list_all_iff by blast
  moreover have "row_ref ` set rows' \<inter> (X \<union> set refs) = {}" if "shard_npz d' k' = Some rows'" for k' rows'
    using rows [OF that] assms(1) unfolding files_ok_def gone_def by blast
  moreover have "\<forall>ref\<in>fst ` set R. valid_ref ref" using assms(1,2) by (simp add: files_ok_def disk_ok_def)
  moreover have "fst ` set R \<inter> X = {}" using assms(1,2) by (simp add: files_ok_def gone_def)
  then have "fst ` set (filter (\<lambda>p. fst p \<notin> set refs) R) \<inter> (X \<union> set refs) = {}" by auto
  ultimately show ?thesis using assms(5) by (simp add: files_ok_def disk_ok_def gone_def)
qed

lemma mlp_returns:
  assumes "files_ok X d" "rebuild_batch_by_ref env np t sg pa ca refs seed sign d = (Inr r, d')"
  shows "files_ok (X \<union> set refs) d'"
proof -
  from assms(2) obtain R k m tb ret n resume p ss tree R' where
      reads: "mlp_reads env refs d (R, k, m, tb, ret, n, resume)"
    and plan: "mlp_plan env np t sg pa ca refs seed sign R k m tb ret n resume (r, p, ss, tree, R')"
    and d': "d' = mlp_writes env k ret p ss tree R' d"
    unfolding rebuild_iff by blast
  from reads obtain rows where r: "routing_json d = Some R" "batch_target R refs = Inr (k, m)" "shard_npz d k = Some rows"
      "purge_all rows refs = Inr (ret, n)" "tree_for_shard (tree_caches d) k (map row_ref rows) = Inr tb"
    by (auto simp: mlp_reads_def)
  have "caches_ok d" "list_all valid_ref (map row_ref rows)"
    using assms(1) r(3) by (simp_all add: files_ok_def disk_ok_def list_all_iff)
  moreover have "smt_remove tb refs = Inr tree" using plan by (auto simp: mlp_plan_def)
  ultimately have "tree_ok tree" using batch_tree(1) routed_valid [OF assms(1) r(1,2)] r(5) by blast
  then show ?thesis
    by (intro files_ok_purged [OF assms(1) r(1-3)])
      (simp_all add: d' mlp_writes_def plan_routing [OF plan] purge_all_ok(2) [OF r(4)])
qed

lemma gbdt_returns:
  assumes "files_ok X d" "gbdt_rebuild_batch_by_ref env np x sg pa ca refs trees sign d = (Inr r, d')"
  shows "files_ok (X \<union> set refs) d'"
proof -
  from assms(2) obtain R k m tb ret n resume b tree R' where
      reads: "gbdt_reads refs trees d (R, k, m, tb, ret, n, resume)"
    and plan: "gbdt_plan env np x sg pa ca refs trees sign R k m tb ret n resume (r, b, tree, R')"
    and d': "d' = gbdt_writes k ret b tree R' d"
    unfolding gbdt_rebuild_iff by blast
  from reads obtain rows where r: "routing_json d = Some R" "batch_target R refs = Inr (k, m)" "shard_npz d k = Some rows"
      "ret = filter (\<lambda>r. row_ref r \<notin> set refs) rows" "tree_for_shard (tree_caches d) k (map row_ref rows) = Inr tb"
    by (auto simp: gbdt_reads_def)
  have "caches_ok d" "list_all valid_ref (map row_ref rows)"
    using assms(1) r(3) by (simp_all add: files_ok_def disk_ok_def list_all_iff)
  moreover have "smt_remove tb refs = Inr tree" using plan by (auto simp: gbdt_plan_def)
  ultimately have "tree_ok tree" using batch_tree(1) routed_valid [OF assms(1) r(1,2)] r(5) by blast
  then show ?thesis
    by (intro files_ok_purged [OF assms(1) r(1-3)])
      (simp_all add: d' gbdt_writes_def gbdt_plan_routing [OF plan] r(4))
qed

section \<open>Either engine\<close>

text \<open>A manifest that the verifier accepts and that names the reference.\<close>

definition certifies ::
  "(bytes \<Rightarrow> bytes \<Rightarrow> bytes \<Rightarrow> bool) \<Rightarrow> bytes \<Rightarrow> string \<Rightarrow> manifest \<Rightarrow> bool" where
  "certifies ed_verify pk ref m \<longleftrightarrow> getitem (PDict m) ''subject_ref'' = Inr (PStr ref)
     \<and> (\<exists>fs. verify_certificate ed_verify (PDict m) pk = Inr (True, fs))"

definition signs ::
  "('f, 'o, 'g, 't) runtime \<Rightarrow> (bytes \<Rightarrow> bytes \<Rightarrow> bytes \<Rightarrow> bool) \<Rightarrow> bytes \<Rightarrow> bool" where
  "signs rt ed_verify pk \<longleftrightarrow> (\<exists>key. signing_key (SIGNING_KEY (rt_env rt)) = Inr key
     \<and> (\<forall>b. ed_verify pk b (rt_sign rt key b) \<and> rt_sign rt key b \<noteq> []))"

lemma active_returns:
  assumes "files_ok X d" "active_rebuild rt pa ca refs d = (Inr r, d')"
  shows "files_ok (X \<union> set refs) d'"
proof (cases "rt_engine rt")
  case ENGINE_MLP
  with assms show ?thesis by (auto simp: active_mlp intro: mlp_returns)
next
  case ENGINE_GBDT
  with assms show ?thesis by (auto simp: active_gbdt intro: gbdt_returns)
qed

lemma active_raises:
  assumes "files_ok X d" "active_rebuild rt pa ca refs d = (Inl e, d')"
  shows "files_ok X d'"
proof (cases "rt_engine rt")
  case ENGINE_MLP
  with assms(2) have "rebuild_batch_by_ref (rt_env rt) (rt_np rt) (rt_torch rt) (rt_sign rt) pa ca refs (SEED (rt_env rt)) True d = (Inl e, d')"
    by (simp add: active_rebuild_def io_bind_Inl io_return_def)
  from hoare_raise [OF mlp_fails assms(1) this] show ?thesis .
next
  case ENGINE_GBDT
  with assms(2) have "gbdt_rebuild_batch_by_ref (rt_env rt) (rt_np rt) (rt_xgb rt) (rt_sign rt) pa ca refs (TREES_PER_SLICE (rt_env rt)) True d = (Inl e, d')"
    by (simp add: active_rebuild_def io_bind_Inl io_return_def)
  from hoare_raise [OF gbdt_fails assms(1) this] show ?thesis .
qed

lemma active_certifies:
  assumes "files_ok X d" "active_rebuild rt pa ca refs d = (Inr r, d')" "signs rt ed_verify pk" "ref \<in> set refs"
  shows "\<exists>m. map_of (manifests r) ref = Some m \<and> certifies ed_verify pk ref m"
proof -
  from assms(3) obtain key where key: "signing_key (SIGNING_KEY (rt_env rt)) = Inr key"
      "\<And>b. ed_verify pk b (rt_sign rt key b)" "\<And>b. rt_sign rt key b \<noteq> []"
    unfolding signs_def by blast
  have caches: "caches_ok d" using assms(1) by (simp add: files_ok_def disk_ok_def)
  show ?thesis
  proof (cases "rt_engine rt")
    case ENGINE_MLP
    with assms(2) obtain m0 where run: "rebuild_batch_by_ref (rt_env rt) (rt_np rt) (rt_torch rt) (rt_sign rt) pa ca refs (SEED (rt_env rt)) True d = (Inr m0, d')"
        and r: "r = with_replay Mlp_Payload m0"
      by (auto simp: active_mlp)
    then obtain R k m rows where rd: "routing_json d = Some R" "batch_target R refs = Inr (k, m)" "shard_npz d (res_shard m0) = Some rows"
      unfolding rebuild_iff mlp_reads_def mlp_plan_def by auto
    have "list_all (\<lambda>q. valid_ref (row_ref q)) rows" using assms(1) rd(3) by (simp add: files_ok_def disk_ok_def)
    from mlp_certificates [where ed_verify = ed_verify and ed_public = "\<lambda>_. pk", OF run caches rd(3) this routed_valid [OF assms(1) rd(1,2)] key assms(4)]
    show ?thesis by (auto simp: r certifies_def)
  next
    case ENGINE_GBDT
    with assms(2) obtain m0 where run: "gbdt_rebuild_batch_by_ref (rt_env rt) (rt_np rt) (rt_xgb rt) (rt_sign rt) pa ca refs (TREES_PER_SLICE (rt_env rt)) True d = (Inr m0, d')"
        and r: "r = with_replay Gbdt_Payload m0"
      by (auto simp: active_gbdt)
    then obtain R k m rows where rd: "routing_json d = Some R" "batch_target R refs = Inr (k, m)" "shard_npz d (res_shard m0) = Some rows"
      unfolding gbdt_rebuild_iff gbdt_reads_def gbdt_plan_def by auto
    have "list_all (\<lambda>q. valid_ref (row_ref q)) rows" using assms(1) rd(3) by (simp add: files_ok_def disk_ok_def)
    from gbdt_certificates [where ed_verify = ed_verify and ed_public = "\<lambda>_. pk", OF run caches rd(3) this routed_valid [OF assms(1) rd(1,2)] key assms(4)]
    show ?thesis by (auto simp: r certifies_def)
  qed
qed

end
