(* ===== verification/Eval.thy ===== *)
theory Eval
  imports Complex_Main Sharding
begin

text \<open>
  \<open>data/eval_set.py\<close>: the scores of a promoted model. Scores are elements of a linear
  order (no NaN); ranks and counts are rationals. Ranks are halves of integers and exact in
  the code too; the divisions at the end are rounded there and not here.
\<close>

section \<open>Area under the ROC curve\<close>

definition argsort :: "'f::linorder list \<Rightarrow> nat list" where
  "argsort ys = sort_key (\<lambda>i. ys ! i) [0..<length ys]"

text \<open>\<open>ranks[order] = np.arange(1, n + 1)\<close>\<close>

definition plain_ranks :: "'f::linorder list \<Rightarrow> rat list" where
  "plain_ranks ys = map of_int (scatter (length ys) (zip (argsort ys) (map int [1..<Suc (length ys)])))"

text \<open>Averaging the ranks of one score.\<close>

definition average_tied :: "'f::linorder list \<Rightarrow> 'f \<Rightarrow> rat list \<Rightarrow> rat list" where
  "average_tied ys v ranks =
     (let tied = map snd (filter (\<lambda>(y, r). y = v) (zip ys ranks)) in
      if length tied > 1
      then map (\<lambda>(y, r). if y = v then sum_list tied / of_nat (length tied) else r) (zip ys ranks)
      else ranks)"

definition auc :: "bool list \<Rightarrow> 'f::linorder list \<Rightarrow> rat res" where
  "auc y_true y_score =
     (if length y_true \<noteq> length y_score then Inl IndexError
      else
        let pos = filter fst (zip y_true y_score); neg = filter (\<lambda>p. \<not> fst p) (zip y_true y_score) in
        if pos = [] \<or> neg = [] then Inr (1 / 2)
        else
          let ranks = fold (average_tied y_score) (sorted_list_of_set (set y_score)) (plain_ranks y_score);
              rank_sum_pos = sum_list (map snd (filter fst (zip y_true ranks)));
              n_pos = of_nat (length pos); n_neg = of_nat (length neg)
          in Inr ((rank_sum_pos - n_pos * (n_pos + 1) / 2) / (n_pos * n_neg)))"

section \<open>Precision and recall\<close>

text \<open>Labels in the order of descending scores, ties in the order of the rows.\<close>

definition ranked_hits :: "bool list \<Rightarrow> 'f::linorder list \<Rightarrow> bool list" where
  "ranked_hits y_true y_score =
     map (\<lambda>i. y_true ! i) (rev (sort_key (\<lambda>i. y_score ! i) (rev [0..<length y_score])))"

definition hits_upto :: "bool list \<Rightarrow> nat \<Rightarrow> nat" where
  "hits_upto hits k = length (filter id (take k hits))"

definition average_precision :: "bool list \<Rightarrow> 'f::linorder list \<Rightarrow> rat res" where
  "average_precision y_true y_score =
     (let n_pos = length (filter id y_true); hits = ranked_hits y_true y_score in
      if n_pos = 0 then Inr 0
      else if length y_true < length y_score then Inl IndexError
      else Inr (sum_list (map (\<lambda>k. of_nat (hits_upto hits (Suc k)) / of_nat (Suc k))
             (filter (\<lambda>k. hits ! k) [0..<length hits])) / of_nat n_pos))"

record recall_point =
  recall_target :: rat
  rp_precision :: rat
  alerts_per_catch :: "rat option"
  flagged :: nat
  flagged_fraction :: rat

text \<open>\<open>np.searchsorted(tp, ceil(target * n_pos))\<close>: the ranks with fewer hits.\<close>

definition precision_at_recall :: "bool list \<Rightarrow> 'f::linorder list \<Rightarrow> rat \<Rightarrow> recall_point res" where
  "precision_at_recall y_true y_score target =
     (let n_pos = length (filter id y_true) in
      if n_pos = 0
      then Inr \<lparr>recall_target = target, rp_precision = 0, alerts_per_catch = None, flagged = 0, flagged_fraction = 0\<rparr>
      else if length y_true < length y_score \<or> y_score = [] then Inl IndexError
      else
        let hits = ranked_hits y_true y_score;
            below = length (filter (\<lambda>k. int (hits_upto hits (Suc k)) < \<lceil>target * of_nat n_pos\<rceil>) [0..<length hits]);
            k = min (Suc below) (length hits);
            precision = of_nat (hits_upto hits k) / of_nat k
        in Inr \<lparr>recall_target = target, rp_precision = precision,
             alerts_per_catch = (if precision > 0 then Some (1 / precision) else None),
             flagged = k, flagged_fraction = of_nat k / of_nat (length hits)\<rparr>)"

section \<open>Sums over zipped lists\<close>

lemma zip_indices: "length xs = n \<Longrightarrow> length rs = n \<Longrightarrow> zip xs rs = map (\<lambda>i. (xs ! i, rs ! i)) [0..<n]"
  by (rule nth_equalityI) auto

lemma filter_zip_indices:
  "length xs = n \<Longrightarrow> length rs = n \<Longrightarrow>
   filter (\<lambda>p. Q (fst p)) (zip xs rs) = map (\<lambda>i. (xs ! i, rs ! i)) (filter (\<lambda>i. Q (xs ! i)) [0..<n])"
  by (simp add: zip_indices filter_map comp_def)

lemma sum_filter_zip:
  assumes "length xs = n" "length rs = n"
  shows "sum_list (map g (filter (\<lambda>p. Q (fst p)) (zip xs rs))) = (\<Sum>i | i < n \<and> Q (xs ! i). g (xs ! i, rs ! i))"
proof -
  have "{i. i < n \<and> Q (xs ! i)} = set (filter (\<lambda>i. Q (xs ! i)) [0..<n])" by auto
  then show ?thesis
    by (simp only: filter_zip_indices [OF assms] map_map comp_def sum_list_distinct_conv_sum_set distinct_filter distinct_upt)
qed

lemma length_filter_zip:
  assumes "length xs = n" "length rs = n"
  shows "length (filter (\<lambda>p. Q (fst p)) (zip xs rs)) = card {i. i < n \<and> Q (xs ! i)}"
proof -
  have "{i. i < n \<and> Q (xs ! i)} = set (filter (\<lambda>i. Q (xs ! i)) [0..<n])" by auto
  then show ?thesis by (simp only: filter_zip_indices [OF assms] length_map distinct_card distinct_filter distinct_upt)
qed

section \<open>Ranks\<close>

definition rank_below :: "'f::linorder list \<Rightarrow> 'f \<Rightarrow> nat" where
  "rank_below ys v = card {i. i < length ys \<and> ys ! i < v}"

definition rank_tied :: "'f::linorder list \<Rightarrow> 'f \<Rightarrow> nat" where
  "rank_tied ys v = card {i. i < length ys \<and> ys ! i = v}"

lemma argsort_perm: "set (argsort ys) = {..<length ys}" "distinct (argsort ys)" "length (argsort ys) = length ys"
  "sorted (map (\<lambda>i. ys ! i) (argsort ys))"
  by (auto simp: argsort_def)

lemma down_closed:
  assumes "finite A" "\<And>p q. q \<in> A \<Longrightarrow> p \<le> q \<Longrightarrow> p \<in> (A :: nat set)"
  shows "A = {..<card A}"
proof (cases "A = {}")
  case False
  then have "Max A \<in> A" using assms(1) by simp
  then have "{..Max A} = A" using assms by (auto intro: Max_ge)
  then have "A = {..<Suc (Max A)}" by (simp add: lessThan_Suc_atMost)
  then show ?thesis by (metis card_lessThan)
qed simp

lemma argsort_image:
  "(\<lambda>p. argsort ys ! p) ` {p. p < length ys \<and> P (ys ! (argsort ys ! p))} = {i. i < length ys \<and> P (ys ! i)}"
proof (intro set_eqI iffI)
  fix i assume "i \<in> {i. i < length ys \<and> P (ys ! i)}"
  then have i: "i \<in> set (argsort ys)" "P (ys ! i)" by (auto simp: argsort_perm)
  then obtain p where "p < length ys" "argsort ys ! p = i" by (metis argsort_perm(3) in_set_conv_nth)
  with i(2) show "i \<in> (\<lambda>p. argsort ys ! p) ` {p. p < length ys \<and> P (ys ! (argsort ys ! p))}" by auto
next
  fix i assume "i \<in> (\<lambda>p. argsort ys ! p) ` {p. p < length ys \<and> P (ys ! (argsort ys ! p))}"
  then obtain p where "p < length (argsort ys)" "i = argsort ys ! p" "P (ys ! i)" by (auto simp: argsort_perm)
  then show "i \<in> {i. i < length ys \<and> P (ys ! i)}" using nth_mem argsort_perm(1) by fastforce
qed

text \<open>In sorted order, the positions of a score are an interval.\<close>

lemma positions_of:
  "{p. p < length ys \<and> ys ! (argsort ys ! p) = v} = {rank_below ys v..<rank_below ys v + rank_tied ys v}"
proof -
  let ?o = "argsort ys" and ?n = "length ys"
  have inj: "inj_on (\<lambda>p. ?o ! p) {..<?n}" by (auto simp: inj_on_def nth_eq_iff_index_eq argsort_perm)
  note img = argsort_image
  have card: "card {p. p < ?n \<and> P (ys ! (?o ! p))} = card {i. i < ?n \<and> P (ys ! i)}" for P
  proof -
    have "inj_on (\<lambda>p. ?o ! p) {p. p < ?n \<and> P (ys ! (?o ! p))}" by (rule inj_on_subset [OF inj]) auto
    from card_image [OF this] show ?thesis unfolding img by simp
  qed
  have sorted: "ys ! (?o ! p) \<le> ys ! (?o ! q)" if "p \<le> q" "q < ?n" for p q
    using sorted_nth_mono [OF argsort_perm(4) [of ys] that(1)] that argsort_perm(3) [of ys] by simp
  have less: "{p. p < ?n \<and> ys ! (?o ! p) < v} = {..<rank_below ys v}"
    unfolding rank_below_def card [of "\<lambda>y. y < v", symmetric]
    by (rule down_closed) (use sorted in \<open>auto intro: le_less_trans\<close>)
  have le: "{p. p < ?n \<and> ys ! (?o ! p) \<le> v} = {..<card {i. i < ?n \<and> ys ! i \<le> v}}"
    unfolding card [of "\<lambda>y. y \<le> v", symmetric]
    by (rule down_closed) (use sorted in \<open>auto intro: order_trans\<close>)
  have "{i. i < ?n \<and> ys ! i \<le> v} = {i. i < ?n \<and> ys ! i < v} \<union> {i. i < ?n \<and> ys ! i = v}" by auto
  then have both: "card {i. i < ?n \<and> ys ! i \<le> v} = rank_below ys v + rank_tied ys v"
    unfolding rank_below_def rank_tied_def by (simp only:) (rule card_Un_disjoint; auto)
  have "{p. p < ?n \<and> ys ! (?o ! p) = v} = {p. p < ?n \<and> ys ! (?o ! p) \<le> v} - {p. p < ?n \<and> ys ! (?o ! p) < v}" by auto
  also have "\<dots> = {rank_below ys v..<rank_below ys v + rank_tied ys v}" unfolding less le both by auto
  finally show ?thesis .
qed

lemma plain_ranks_nth: "p < length ys \<Longrightarrow> plain_ranks ys ! (argsort ys ! p) = of_nat (Suc p)"
proof -
  assume p: "p < length ys"
  let ?z = "zip (argsort ys) (map int [1..<Suc (length ys)])"
  have "(argsort ys ! p, int (Suc p)) \<in> set ?z"
    using p by (auto simp: in_set_zip argsort_perm(3) intro!: exI [of _ p] simp del: upt_Suc)
  moreover have "argsort ys ! p < length ys" using p argsort_perm(1,3) [of ys] by (metis lessThan_iff nth_mem)
  moreover have "distinct (map fst ?z)" using argsort_perm(2,3) [of ys] by (simp del: upt_Suc)
  ultimately have "scatter (length ys) ?z ! (argsort ys ! p) = int (Suc p)"
    by (intro scatter_nth) (use argsort_perm(3) [of ys] in auto)
  with \<open>argsort ys ! p < length ys\<close> show ?thesis by (simp add: plain_ranks_def)
qed

lemma length_plain_ranks [simp]: "length (plain_ranks ys) = length ys"
  by (simp add: plain_ranks_def)

text \<open>The average of the plain ranks of a score.\<close>

definition tied_rank :: "'f::linorder list \<Rightarrow> 'f \<Rightarrow> rat" where
  "tied_rank ys v = of_nat (rank_below ys v) + (of_nat (rank_tied ys v) + 1) / 2"

lemma sum_interval: "(\<Sum>p\<in>{a..<a + n}. of_nat (Suc p) :: rat) = of_nat n * (of_nat a + (of_nat n + 1) / 2)"
  by (induction n) (simp_all add: field_simps)

lemma sum_plain_ranks:
  "(\<Sum>i | i < length ys \<and> ys ! i = v. plain_ranks ys ! i) = of_nat (rank_tied ys v) * tied_rank ys v"
proof -
  let ?o = "argsort ys" and ?n = "length ys"
  have bij: "bij_betw (\<lambda>p. ?o ! p) {p. p < ?n \<and> ys ! (?o ! p) = v} {i. i < ?n \<and> ys ! i = v}"
  proof (rule bij_betw_imageI)
    show "inj_on (\<lambda>p. ?o ! p) {p. p < ?n \<and> ys ! (?o ! p) = v}"
      by (auto simp: inj_on_def nth_eq_iff_index_eq argsort_perm)
    show "(\<lambda>p. ?o ! p) ` {p. p < ?n \<and> ys ! (?o ! p) = v} = {i. i < ?n \<and> ys ! i = v}"
      by (rule argsort_image [where P = "\<lambda>y. y = v"])
  qed
  have "(\<Sum>i | i < ?n \<and> ys ! i = v. plain_ranks ys ! i) = (\<Sum>p | p < ?n \<and> ys ! (?o ! p) = v. plain_ranks ys ! (?o ! p))"
    by (rule sum.reindex_bij_betw [OF bij, symmetric])
  also have "\<dots> = (\<Sum>p | p < ?n \<and> ys ! (?o ! p) = v. of_nat (Suc p))" by (rule sum.cong) (auto simp: plain_ranks_nth)
  finally show ?thesis by (simp only: positions_of sum_interval tied_rank_def)
qed

lemma average_tied_nth:
  assumes len: "length ranks = length ys" and sum: "(\<Sum>i | i < length ys \<and> ys ! i = v. ranks ! i) = of_nat (rank_tied ys v) * tied_rank ys v"
    and i: "i < length ys"
  shows "average_tied ys v ranks ! i = (if ys ! i = v then tied_rank ys v else ranks ! i)"
proof -
  let ?tied = "map snd (filter (\<lambda>(y, r). y = v) (zip ys ranks))"
  have f: "filter (\<lambda>(y, r). y = v) (zip ys ranks) = filter (\<lambda>p. (\<lambda>y. y = v) (fst p)) (zip ys ranks)"
    by (rule filter_cong) auto
  have l: "length ?tied = rank_tied ys v"
    unfolding f using length_filter_zip [OF refl len, where Q = "\<lambda>y. y = v"] by (simp add: rank_tied_def)
  have s: "sum_list ?tied = of_nat (rank_tied ys v) * tied_rank ys v"
    unfolding f using sum_filter_zip [OF refl len, where Q = "\<lambda>y. y = v" and g = snd] sum by simp
  show ?thesis
  proof (cases "rank_tied ys v > 1")
    case True
    then show ?thesis using i len l s by (simp add: average_tied_def Let_def)
  next
    case False
    have "ranks ! i = tied_rank ys v" if v: "ys ! i = v"
    proof -
      let ?S = "{i. i < length ys \<and> ys ! i = v}"
      have "i \<in> ?S" using i v by simp
      then have "0 < card ?S" by (subst card_gt_0_iff) auto
      with False have one: "rank_tied ys v = 1" unfolding rank_tied_def by linarith
      then obtain j where "?S = {j}" unfolding rank_tied_def by (rule card_1_singletonE)
      with \<open>i \<in> ?S\<close> have "?S = {i}" by simp
      with sum one show ?thesis by simp
    qed
    with False l show ?thesis by (simp add: average_tied_def Let_def)
  qed
qed

lemma length_average_tied [simp]: "length ranks = length ys \<Longrightarrow> length (average_tied ys v ranks) = length ys"
  by (simp add: average_tied_def Let_def)

lemma final_ranks:
  assumes "distinct vs"
  shows "length (fold (average_tied ys) vs (plain_ranks ys)) = length ys
    \<and> (\<forall>i<length ys. fold (average_tied ys) vs (plain_ranks ys) ! i = (if ys ! i \<in> set vs then tied_rank ys (ys ! i) else plain_ranks ys ! i))"
  using assms
proof (induction vs rule: rev_induct)
  case (snoc v vs)
  let ?r = "fold (average_tied ys) vs (plain_ranks ys)"
  from snoc have len: "length ?r = length ys"
    and nth: "\<forall>i<length ys. ?r ! i = (if ys ! i \<in> set vs then tied_rank ys (ys ! i) else plain_ranks ys ! i)" and v: "v \<notin> set vs"
    by auto
  have "(\<Sum>i | i < length ys \<and> ys ! i = v. ?r ! i) = (\<Sum>i | i < length ys \<and> ys ! i = v. plain_ranks ys ! i)"
    by (rule sum.cong) (use nth v in auto)
  then have sum: "(\<Sum>i | i < length ys \<and> ys ! i = v. ?r ! i) = of_nat (rank_tied ys v) * tied_rank ys v"
    by (simp only: sum_plain_ranks)
  show ?case using average_tied_nth [OF len sum] nth len by auto
qed simp

section \<open>The pair statistic\<close>

text \<open>How a positive with score \<open>p\<close> fares against a negative with score \<open>q\<close>.\<close>

definition duel :: "'f::linorder \<Rightarrow> 'f \<Rightarrow> rat" where
  "duel p q = (if q < p then 1 else if q = p then 1 / 2 else 0)"

lemma duel_sym: "duel p q + duel q p = 1"
  by (auto simp: duel_def)

lemma tied_rank_duels: "tied_rank ys v = (\<Sum>j<length ys. duel v (ys ! j)) + 1 / 2"
proof -
  have "duel v (ys ! j) = of_bool (ys ! j < v) + of_bool (ys ! j = v) / 2" for j by (simp add: duel_def)
  then have "(\<Sum>j<length ys. duel v (ys ! j)) = (\<Sum>j<length ys. of_bool (ys ! j < v)) + (\<Sum>j<length ys. of_bool (ys ! j = v)) / 2"
    by (simp only: sum.distrib sum_divide_distrib)
  also have "(\<Sum>j<length ys. of_bool (ys ! j < v)) = (of_nat (rank_below ys v) :: rat)"
    by (simp add: rank_below_def sum.If_cases of_bool_def Int_def conj_commute lessThan_def)
  also have "(\<Sum>j<length ys. of_bool (ys ! j = v)) = (of_nat (rank_tied ys v) :: rat)"
    by (simp add: rank_tied_def sum.If_cases of_bool_def Int_def conj_commute lessThan_def)
  finally show ?thesis by (simp add: tied_rank_def field_simps)
qed

lemma duels_within:
  assumes "finite P"
  shows "(\<Sum>i\<in>P. \<Sum>j\<in>P. duel (ys i) (ys j)) = of_nat (card P) * of_nat (card P) / 2"
proof -
  let ?s = "\<Sum>i\<in>P. \<Sum>j\<in>P. duel (ys i) (ys j)"
  have "?s + ?s = ?s + (\<Sum>i\<in>P. \<Sum>j\<in>P. duel (ys j) (ys i))" using sum.swap [of "\<lambda>i j. duel (ys i) (ys j)" P P] by simp
  also have "\<dots> = (\<Sum>i\<in>P. \<Sum>j\<in>P. 1)" by (simp only: sum.distrib [symmetric] duel_sym)
  finally show ?thesis by (simp add: field_simps)
qed

lemma auc_ranks:
  assumes "length ls = length ys" "finite P" "P = {i. i < length ys \<and> ls ! i}" "N = {i. i < length ys \<and> \<not> ls ! i}"
  shows "(\<Sum>i\<in>P. tied_rank ys (ys ! i)) - of_nat (card P) * (of_nat (card P) + 1) / 2 = (\<Sum>i\<in>P. \<Sum>j\<in>N. duel (ys ! i) (ys ! j))"
proof -
  have split: "(\<Sum>j<length ys. duel v (ys ! j)) = (\<Sum>j\<in>P. duel v (ys ! j)) + (\<Sum>j\<in>N. duel v (ys ! j))" for v
  proof -
    have "{..<length ys} = P \<union> N" "P \<inter> N = {}" "finite N" using assms(3,4) by auto
    with assms(2) show ?thesis by (simp only: sum.union_disjoint)
  qed
  have "(\<Sum>i\<in>P. tied_rank ys (ys ! i)) = (\<Sum>i\<in>P. \<Sum>j\<in>P. duel (ys ! i) (ys ! j)) + (\<Sum>i\<in>P. \<Sum>j\<in>N. duel (ys ! i) (ys ! j)) + of_nat (card P) / 2"
    by (simp add: tied_rank_duels split sum.distrib)
  then show ?thesis using duels_within [OF assms(2), of "\<lambda>i. ys ! i"] by (simp add: field_simps)
qed

text \<open>The share of the pairs of a positive and a negative that the scores rank right, ties half.\<close>

definition pair_statistic :: "bool list \<Rightarrow> 'f::linorder list \<Rightarrow> rat" where
  "pair_statistic y_true y_score =
     (let pos = filter fst (zip y_true y_score); neg = filter (\<lambda>p. \<not> fst p) (zip y_true y_score) in
      sum_list (map (\<lambda>p. sum_list (map (\<lambda>q. duel (snd p) (snd q)) neg)) pos) / (of_nat (length pos) * of_nat (length neg)))"

section \<open>Properties\<close>

text \<open>
  C20 The rank formula computes the AUC. For labels with both classes the result is the
  share of pairs of a positive and a negative row that the scores rank right, ties
  counting one half; it is between 0 and 1.
\<close>

theorem auc_is_pair_statistic:
  assumes "length y_true = length y_score" "True \<in> set y_true" "False \<in> set y_true"
  shows "auc y_true y_score = Inr (pair_statistic y_true y_score)
     \<and> 0 \<le> pair_statistic y_true y_score \<and> pair_statistic y_true y_score \<le> 1"
proof -
  let ?n = "length y_score" and ?P = "{i. i < length y_score \<and> y_true ! i}" and ?N = "{i. i < length y_score \<and> \<not> y_true ! i}"
  let ?pos = "filter fst (zip y_true y_score)" and ?neg = "filter (\<lambda>p. \<not> fst p) (zip y_true y_score)"
  let ?r = "fold (average_tied y_score) (sorted_list_of_set (set y_score)) (plain_ranks y_score)"
  have lens: "length ?pos = card ?P" "length ?neg = card ?N"
    using length_filter_zip [OF assms(1) refl, where Q = "\<lambda>b. b"] length_filter_zip [OF assms(1) refl, where Q = "\<lambda>b. \<not> b"] by simp_all
  have ne: "?P \<noteq> {}" "?N \<noteq> {}" using assms by (auto simp: in_set_conv_nth)
  have fin: "finite ?P" "finite ?N" by auto
  note r = final_ranks [of "sorted_list_of_set (set y_score)" y_score]
  have "sum_list (map snd (filter fst (zip y_true ?r))) = (\<Sum>i\<in>?P. ?r ! i)"
    using sum_filter_zip [of y_true ?n ?r snd "\<lambda>b. b"] assms(1) r by simp
  also have "\<dots> = (\<Sum>i\<in>?P. tied_rank y_score (y_score ! i))" using r by (intro sum.cong) auto
  finally have ranks: "sum_list (map snd (filter fst (zip y_true ?r))) = (\<Sum>i\<in>?P. tied_rank y_score (y_score ! i))" .
  have inner: "sum_list (map (\<lambda>q. duel v (snd q)) ?neg) = (\<Sum>j\<in>?N. duel v (y_score ! j))" for v
    using sum_filter_zip [OF assms(1) refl, where Q = "\<lambda>b. \<not> b" and g = "\<lambda>q. duel v (snd q)"] by simp
  have duels: "sum_list (map (\<lambda>p. sum_list (map (\<lambda>q. duel (snd p) (snd q)) ?neg)) ?pos) = (\<Sum>i\<in>?P. \<Sum>j\<in>?N. duel (y_score ! i) (y_score ! j))"
    by (simp only: inner sum_filter_zip [OF assms(1) refl, where Q = "\<lambda>b. b"] snd_conv)
  have pos: "0 < card ?P" "0 < card ?N" using ne fin by (simp_all add: card_gt_0_iff)
  then have nonempty: "?pos \<noteq> []" "?neg \<noteq> []" using lens by (metis length_0_conv less_numeral_extra(3))+
  have "auc y_true y_score = Inr (pair_statistic y_true y_score)"
    using nonempty assms(1) auc_ranks [OF assms(1) fin(1) refl refl]
    by (simp add: auc_def pair_statistic_def Let_def ranks duels lens)
  moreover have "0 \<le> (\<Sum>i\<in>?P. \<Sum>j\<in>?N. duel (y_score ! i) (y_score ! j))" by (intro sum_nonneg) (simp add: duel_def)
  moreover have "(\<Sum>i\<in>?P. \<Sum>j\<in>?N. duel (y_score ! i) (y_score ! j)) \<le> (\<Sum>i\<in>?P. \<Sum>j\<in>?N. 1)" by (intro sum_mono) (simp add: duel_def)
  ultimately show ?thesis using pos by (simp add: pair_statistic_def Let_def duels lens)
qed

theorem auc_is_pair_statistic_witness:
  "auc [True, False, True] [3 :: int, 1, 1] = Inr (3 / 4)"
proof -
  have "auc [True, False, True] [3 :: int, 1, 1] = Inr (pair_statistic [True, False, True] [3 :: int, 1, 1])"
    using auc_is_pair_statistic [of "[True, False, True]" "[3 :: int, 1, 1]"] by simp
  then show ?thesis by (simp add: pair_statistic_def Let_def duel_def)
qed

end
