(* ===== verification/Vectors.thy ===== *)
theory Vectors imports Sharding begin

text \<open>
  Known answers for the models of the standard library. \<open>sha256\<close> is carried over to
  integers, where the kernel evaluates it in seconds: the model gives the digest that FIPS
  180-4 publishes for "abc", and \<open>subject_ref\<close> gives the references that Python computes for
  two names under the key that is checked in.
\<close>

section \<open>Integers for words\<close>

unbundle bit_operations_syntax

definition rotr32 :: "nat \<Rightarrow> int \<Rightarrow> int" where
  "rotr32 n x = concat_bit (32 - n) (drop_bit n x) (take_bit n x)"

definition add32 :: "int \<Rightarrow> int \<Rightarrow> int" where
  "add32 x y = take_bit 32 (x + y)"

datatype sha_ints = Sha_Ints int int int int int int int int

fun ints_of :: "sha_state \<Rightarrow> sha_ints" where
  "ints_of (Sha_State a b c d e f g h) = Sha_Ints (uint a) (uint b) (uint c) (uint d) (uint e) (uint f) (uint g) (uint h)"

definition small_sigma :: "nat \<Rightarrow> nat \<Rightarrow> nat \<Rightarrow> int \<Rightarrow> int" where
  "small_sigma i j k x = rotr32 i x XOR rotr32 j x XOR drop_bit k x"

definition big_sigma :: "nat \<Rightarrow> nat \<Rightarrow> nat \<Rightarrow> int \<Rightarrow> int" where
  "big_sigma i j k x = rotr32 i x XOR rotr32 j x XOR rotr32 k x"

definition ch32 :: "int \<Rightarrow> int \<Rightarrow> int \<Rightarrow> int" where
  "ch32 e f g = (e AND f) XOR (take_bit 32 (NOT e) AND g)"

definition maj32 :: "int \<Rightarrow> int \<Rightarrow> int \<Rightarrow> int" where
  "maj32 a b c = (a AND b) XOR (a AND c) XOR (b AND c)"

fun round_end :: "int \<Rightarrow> int \<Rightarrow> int \<Rightarrow> sha_ints \<Rightarrow> sha_ints" where
  "round_end t1 s0 mj (Sha_Ints a b c d e f g h) = Sha_Ints (add32 (add32 t1 s0) mj) a b c (add32 d t1) e f g"

fun round_ints :: "int \<times> int \<Rightarrow> sha_ints \<Rightarrow> sha_ints" where
  "round_ints (k, w) (Sha_Ints a b c d e f g h) =
     round_end (add32 (add32 (add32 (add32 h (big_sigma 6 11 25 e)) (ch32 e f g)) k) w)
       (big_sigma 2 13 22 a) (maj32 a b c) (Sha_Ints a b c d e f g h)"

lemma take_bit_uint: "take_bit 32 (uint (x :: u32)) = uint x"
  by (simp add: take_bit_int_eq_self_iff uint_lt2p [of x, simplified])

lemma uint_add32: "uint (x + y :: u32) = add32 (uint x) (uint y)"
  by (simp add: add32_def uint_word_ariths take_bit_eq_mod)

lemma uint_rotr32: "n < 32 \<Longrightarrow> uint (word_rotr n (x :: u32)) = rotr32 n (uint x)"
  by (simp add: uint_word_rotr_eq rotr32_def unsigned_take_bit_eq)

lemma round_ints_of: "ints_of (sha_round (k, w) s) = round_ints (uint k, uint w) (ints_of s)"
  by (cases s) (simp add: Let_def uint_add32 uint_rotr32 big_sigma_def ch32_def maj32_def unsigned_and_eq unsigned_xor_eq unsigned_not_eq)

definition schedule_next :: "nat \<Rightarrow> int list \<Rightarrow> int" where
  "schedule_next t w =
     add32 (add32 (add32 (w ! (t - 16)) (small_sigma 7 18 3 (w ! (t - 15)))) (w ! (t - 7))) (small_sigma 17 19 10 (w ! (t - 2)))"

definition schedule_ints :: "int list \<Rightarrow> int list" where
  "schedule_ints w = fold (\<lambda>t w. w @ [schedule_next t w]) [16..<64] w"

lemma length_schedule_fold: "length (fold sha_schedule_step ts w) = length w + length ts"
  by (induction ts arbitrary: w) (simp_all add: sha_schedule_step_def Let_def)

lemma schedule_next_of:
  "16 \<le> t \<Longrightarrow> t \<le> length w \<Longrightarrow> map uint (sha_schedule_step t w) = map uint w @ [schedule_next t (map uint w)]"
  by (simp add: sha_schedule_step_def schedule_next_def Let_def uint_add32 uint_rotr32 small_sigma_def unsigned_xor_eq unsigned_drop_bit_eq
    take_bit_uint)

lemma schedule_ints_of:
  assumes "length w = 16"
  shows "map uint (fold sha_schedule_step [16..<64] w) = schedule_ints (map uint w)"
proof -
  have upto: "map uint (fold sha_schedule_step [16..<n] w) = fold (\<lambda>t w. w @ [schedule_next t w]) [16..<n] (map uint w)" if "16 \<le> n" for n
    using that
  proof (induction n rule: dec_induct)
    case (step n)
    then have "n \<le> length (fold sha_schedule_step [16..<n] w)" using assms by (simp add: length_schedule_fold)
    with step show ?case by (simp add: schedule_next_of)
  qed simp
  show ?thesis unfolding schedule_ints_def by (rule upto) simp
qed

fun add_ints :: "sha_ints \<Rightarrow> sha_ints \<Rightarrow> sha_ints" where
  "add_ints (Sha_Ints a b c d e f g h) (Sha_Ints a' b' c' d' e' f' g' h') =
     Sha_Ints (add32 a a') (add32 b b') (add32 c c') (add32 d d') (add32 e e') (add32 f f') (add32 g g') (add32 h h')"

definition K_ints :: "int list" where
  "K_ints = [
   1116352408, 1899447441, 3049323471, 3921009573, 961987163, 1508970993, 2453635748, 2870763221,
   3624381080, 310598401, 607225278, 1426881987, 1925078388, 2162078206, 2614888103, 3248222580,
   3835390401, 4022224774, 264347078, 604807628, 770255983, 1249150122, 1555081692, 1996064986,
   2554220882, 2821834349, 2952996808, 3210313671, 3336571891, 3584528711, 113926993, 338241895,
   666307205, 773529912, 1294757372, 1396182291, 1695183700, 1986661051, 2177026350, 2456956037,
   2730485921, 2820302411, 3259730800, 3345764771, 3516065817, 3600352804, 4094571909, 275423344,
   430227734, 506948616, 659060556, 883997877, 958139571, 1322822218, 1537002063, 1747873779,
   1955562222, 2024104815, 2227730452, 2361852424, 2428436474, 2756734187, 3204031479, 3329325298]"

lemma K_ints_of: "map uint sha_K = K_ints"
  by (simp add: sha_K_def K_ints_def)

definition compress_ints :: "int list \<Rightarrow> sha_ints \<Rightarrow> sha_ints" where
  "compress_ints w s = add_ints s (fold round_ints (zip K_ints (schedule_ints w)) s)"

lemma rounds_ints_of: "ints_of (fold sha_round kw s) = fold round_ints (map (\<lambda>(k, w). (uint k, uint w)) kw) (ints_of s)"
  by (induction kw arbitrary: s) (auto simp: round_ints_of simp del: sha_round.simps round_ints.simps)

lemma compress_ints_of:
  assumes "map uint (map word32_be (chunks 4 16 block)) = w" "length w = 16"
  shows "ints_of (sha_compress block s) = compress_ints w (ints_of s)"
proof -
  have add: "ints_of (sha_add x y) = add_ints (ints_of x) (ints_of y)" for x y
    by (cases x; cases y) (simp add: uint_add32)
  have "map uint (sha_schedule block) = schedule_ints w"
    unfolding sha_schedule_def using assms by (subst schedule_ints_of) auto
  then have "map (\<lambda>(k, w). (uint k, uint w)) (zip sha_K (sha_schedule block)) = zip K_ints (schedule_ints w)"
    by (metis zip_map_map K_ints_of)
  then show ?thesis unfolding sha_compress_def compress_ints_def add rounds_ints_of by simp
qed

section \<open>Bytes\<close>

definition words_ints :: "int list \<Rightarrow> int list" where
  "words_ints block = map (\<lambda>bs. take_bit 32 (foldl (\<lambda>a b. 256 * a + b) 0 bs)) (chunks 4 16 block)"

fun output_ints :: "sha_ints \<Rightarrow> int list" where
  "output_ints (Sha_Ints a b c d e f g h) =
     concat (map (\<lambda>w. [take_bit 8 (drop_bit 24 w), take_bit 8 (drop_bit 16 w), take_bit 8 (drop_bit 8 w), take_bit 8 w]) [a, b, c, d, e, f, g, h])"

text \<open>The padding of a message whose first \<open>p\<close> bytes have been hashed already.\<close>

definition pad_after :: "nat \<Rightarrow> int list \<Rightarrow> int list" where
  "pad_after p m = m @ [0x80] @ replicate ((119 - (p + length m) mod 64) mod 64) 0
     @ map (\<lambda>i. take_bit 8 (drop_bit (8 * (7 - i)) (take_bit 64 (8 * int (p + length m))))) [0..<8]"

definition H0_ints :: sha_ints where
  "H0_ints = Sha_Ints 1779033703 3144134277 1013904242 2773480762 1359893119 2600822924 528734635 1541459225"

definition hash_after :: "sha_ints \<Rightarrow> nat \<Rightarrow> int list \<Rightarrow> int list" where
  "hash_after s p m =
     output_ints (fold (\<lambda>b. compress_ints (words_ints b)) (chunks 64 (length (pad_after p m) div 64) (pad_after p m)) s)"

lemma map_chunks: "map (map f) (chunks k n xs) = chunks k n (map f xs)"
  by (induction n arbitrary: xs) (simp_all add: take_map drop_map)

lemma length_chunks: "length (chunks k n xs) = n"
  by (induction n arbitrary: xs) simp_all

lemma words_ints_of: "map uint (map word32_be (chunks 4 16 block)) = words_ints (map uint block)"
proof -
  have fold: "int (foldl (\<lambda>a b. 256 * a + unat b) n bs) = foldl (\<lambda>a b. 256 * a + b) (int n) (map uint bs)" for n and bs :: bytes
    by (induction bs arbitrary: n) (simp_all)
  have "uint (word32_be bs) = take_bit 32 (foldl (\<lambda>a b. 256 * a + b) 0 (map uint bs))" for bs
    using fold [of 0 bs] by (simp add: word32_be_def unsigned_of_nat of_nat_take_bit)
  then show ?thesis by (simp add: words_ints_def map_chunks [symmetric] comp_def)
qed

lemma output_ints_of: "map uint (sha_output s) = output_ints (ints_of s)"
proof -
  have "uint (word_of_nat (unat w div 256 ^ k) :: 8 word) = take_bit 8 (drop_bit (8 * k) (uint w))" for w :: u32 and k
    by (simp add: unsigned_of_nat drop_bit_eq_div power_mult zdiv_int take_bit_eq_mod zmod_int)
  then have "map uint (bytes32_be w) = map (\<lambda>i. take_bit 8 (drop_bit (8 * (3 - i)) (uint w))) [0..<4]" for w
    by (simp only: bytes32_be_def map_map comp_def)
  then show ?thesis by (cases s) (simp add: upt_conv_Cons)
qed

lemma pad_of: "map uint (sha_pad m) = pad_after 0 (map uint m)"
  by (simp add: sha_pad_def pad_after_def be64_def comp_def unsigned_of_nat zdiv_int zmod_int of_nat_take_bit take_bit_eq_mod drop_bit_eq_div
     power_mult)

lemma hash_of: "map uint (sha256 m) = hash_after H0_ints 0 (map uint m)"
proof -
  have "ints_of (fold sha_compress bs s) = fold (\<lambda>b. compress_ints (words_ints b)) (map (map uint) bs) (ints_of s)" for bs s
    by (induction bs arbitrary: s) (simp_all add: compress_ints_of [OF words_ints_of] words_ints_def length_chunks)
  moreover have "ints_of sha_H0 = H0_ints" by (simp add: sha_H0_def H0_ints_def)
  ultimately show ?thesis
    by (simp add: sha256_def Let_def output_ints_of map_chunks hash_after_def pad_of [symmetric])
qed


lemma hash_after_block:
  assumes "length block = 64"
  shows "hash_after s 0 (block @ m) = hash_after (compress_ints (words_ints block) s) 64 m"
proof -
  have "pad_after 0 (block @ m) = block @ pad_after 64 m"
    using assms by (simp add: pad_after_def add.assoc)
  moreover have "chunks 64 (length (block @ xs) div 64) (block @ xs) = block # chunks 64 (length xs div 64) xs" for xs
    using assms by (simp add: div_add_self1)
  ultimately show ?thesis by (simp add: hash_after_def)
qed

lemma hmac_of:
  assumes "map uint (hmac_key k) = kb"
  shows "map uint (hmac_sha256 k m) =
     hash_after (compress_ints (words_ints (map (\<lambda>b. b XOR 0x5c) kb)) H0_ints) 64
       (hash_after (compress_ints (words_ints (map (\<lambda>b. b XOR 0x36) kb)) H0_ints) 64 (map uint m))"
proof -
  have len: "length kb = 64" unfolding assms [symmetric] by (simp add: hmac_key_def Let_def)
  have xor: "map uint (map (\<lambda>b. b XOR w) (hmac_key k)) = map (\<lambda>b. b XOR uint w) kb" for w :: byte
    by (simp add: assms [symmetric] comp_def unsigned_xor_eq)
  show ?thesis
    unfolding hmac_sha256_def Let_def hash_of map_append xor
    by (subst hash_after_block; simp add: len)+
qed

section \<open>The published vector\<close>

text \<open>The example of FIPS 180-4 for a message of one block, "abc".\<close>

lemma sha256_abc:
  "map uint (sha256 [97, 98, 99]) = [
     0xba, 0x78, 0x16, 0xbf, 0x8f, 0x01, 0xcf, 0xea, 0x41, 0x41, 0x40, 0xde, 0x5d, 0xae, 0x22, 0x23,
     0xb0, 0x03, 0x61, 0xa3, 0x96, 0x17, 0x7a, 0x9c, 0xb4, 0x10, 0xff, 0x61, 0xf2, 0x00, 0x15, 0xad]"
proof -
  have "hash_after H0_ints 0 [97, 98, 99] = [
     0xba, 0x78, 0x16, 0xbf, 0x8f, 0x01, 0xcf, 0xea, 0x41, 0x41, 0x40, 0xde, 0x5d, 0xae, 0x22, 0x23,
     0xb0, 0x03, 0x61, 0xa3, 0x96, 0x17, 0x7a, 0x9c, 0xb4, 0x10, 0xff, 0x61, 0xf2, 0x00, 0x15, 0xad]" by code_simp
  then show ?thesis by (simp add: hash_of)
qed

section \<open>References under the development key\<close>

definition dev_key_block :: "int list" where
  "dev_key_block = [100, 101, 118, 45, 111, 110, 108, 121, 45, 110, 111, 116, 45, 97, 45, 115, 101, 99, 114, 101, 116] @ replicate 43 0"

lemma dev_key_of: "map uint (hmac_key (TENANT_KEY default_settings)) = dev_key_block"
  by (simp add: hmac_key_def default_settings_def utf8_def utf8_char_def dev_key_block_def Let_def)

definition dev_inner :: sha_ints where
  "dev_inner = Sha_Ints 1583639586 4025881934 200505662 991602534 1681038282 3776887889 4111106949 1751427911"

definition dev_outer :: sha_ints where
  "dev_outer = Sha_Ints 1101888719 915432634 144073168 2473461460 3559848275 1775597774 395215080 4253978632"

lemma dev_inner_block:
  "compress_ints (words_ints (map (\<lambda>b. b XOR 0x36) dev_key_block)) H0_ints = dev_inner"
  by code_simp

lemma dev_outer_block:
  "compress_ints (words_ints (map (\<lambda>b. b XOR 0x5c) dev_key_block)) H0_ints = dev_outer"
  by code_simp

lemma dev_inner_C1:
  "hash_after dev_inner 64 [67, 49] =
     [173, 250, 237, 101, 141, 187, 33, 37, 142, 43, 185, 34, 220, 177, 103, 242, 132, 241, 159, 187, 28, 126, 89, 60,
     93, 91, 170, 217, 114, 206, 128, 214]"
  by code_simp

lemma dev_outer_C1:
  "hash_after dev_outer 64
      [173, 250, 237, 101, 141, 187, 33, 37, 142, 43, 185, 34, 220, 177, 103, 242, 132, 241, 159, 187, 28, 126, 89,
      60, 93, 91, 170, 217, 114, 206, 128, 214] =
     [194, 173, 239, 131, 249, 137, 72, 187, 198, 215, 71, 96, 246, 34, 239, 26, 42, 82, 86, 197, 232, 96, 79, 189,
     188, 25, 163, 201, 123, 233, 1, 189]"
  by code_simp

lemma dev_inner_C2:
  "hash_after dev_inner 64 [67, 50] =
     [132, 152, 191, 73, 185, 17, 180, 110, 170, 108, 170, 139, 232, 67, 55, 81, 45, 92, 178, 183, 199, 86, 150, 150,
     30, 199, 35, 136, 66, 222, 91, 16]"
  by code_simp

lemma dev_outer_C2:
  "hash_after dev_outer 64
      [132, 152, 191, 73, 185, 17, 180, 110, 170, 108, 170, 139, 232, 67, 55, 81, 45, 92, 178, 183, 199, 86, 150, 150,
      30, 199, 35, 136, 66, 222, 91, 16] =
     [140, 30, 180, 191, 247, 12, 55, 95, 59, 8, 130, 35, 136, 128, 129, 117, 33, 204, 122, 166, 131, 170, 16, 78, 34,
     50, 179, 154, 113, 207, 210, 52]"
  by code_simp

lemmas dev_blocks = dev_inner_block dev_outer_block

lemma subject_ref_vectors:
  "subject_ref default_settings ''C1'' = ''c2adef83f98948bbc6d74760f622ef1a2a5256c5e8604fbdbc19a3c97be901bd''
   \<and> subject_ref default_settings ''C2'' = ''8c1eb4bff70c375f3b0882238880817521cc7aa683aa104e2232b39a71cfd234''"
proof -
  have name: "map uint (utf8 ''C1'') = [67, 49]" "map uint (utf8 ''C2'') = [67, 50]"
    by (simp_all add: utf8_def utf8_char_def)
  note d1 = hmac_of [OF dev_key_of, of "utf8 ''C1''", unfolded dev_blocks name dev_inner_C1 dev_outer_C1]
    and d2 = hmac_of [OF dev_key_of, of "utf8 ''C2''", unfolded dev_blocks name dev_inner_C2 dev_outer_C2]
  have hex: "to_hex bs = concat (map (\<lambda>i. [hex_digit (nat i div 16), hex_digit (nat i mod 16)]) (map uint bs))" for bs :: bytes
    by (simp add: to_hex_def comp_def)
  show ?thesis unfolding subject_ref_def hex d1 d2 by (simp add: hex_digit_def char_of_def bit_0)
qed

end
