(* ===== verification/Benchmark.thy ===== *)
theory Benchmark
  imports Datagen Ingest Erasure Eval Vectors
begin

text \<open>
  \<open>scripts/benchmark.py\<close> without the optional MLP part: a temporal split, the sharded and the
  unsharded trees on the same rows, and the cost of one erasure by phase.
\<close>

section \<open>Scores\<close>

record scores =
  sc_auc :: rat
  sc_ap :: rat
  sc_recall_50 :: recall_point
  sc_recall_80 :: recall_point

definition metrics :: "bool list \<Rightarrow> 'f::linorder list \<Rightarrow> scores res" where
  "metrics y_true y_score =
     bind_res (auc y_true y_score) (\<lambda>a.
     bind_res (average_precision y_true y_score) (\<lambda>ap.
     bind_res (precision_at_recall y_true y_score (50 / 100)) (\<lambda>r50.
     bind_res (precision_at_recall y_true y_score (80 / 100)) (\<lambda>r80.
     Inr \<lparr>sc_auc = a, sc_ap = ap, sc_recall_50 = r50, sc_recall_80 = r80\<rparr>))))"

text \<open>The seconds between two readings of the clock, by what was timed; \<open>/\<close> raises for 0.\<close>

record timings =
  tm_rollback :: rat
  tm_scratch :: rat
  tm_slice :: "nat \<Rightarrow> rat"
  tm_flat :: rat

definition ratio :: "rat \<Rightarrow> rat \<Rightarrow> rat res" where
  "ratio a b = (if b = 0 then Inl OtherError else Inr (a / b))"

section \<open>Data\<close>

text \<open>Names that are missing end the sorting of the subjects with TypeError.\<close>

definition named_row :: "string option \<times> 'f txn \<Rightarrow> 'f raw_row res" where
  "named_row = (\<lambda>(name, t). case name of
       None \<Rightarrow> Inl TypeError
     | Some n \<Rightarrow> Inr \<lparr>t_step = t_step t, t_amount = t_amount t, t_oldbalanceOrg = t_oldbalanceOrg t,
         t_newbalanceOrig = t_newbalanceOrig t, t_oldbalanceDest = t_oldbalanceDest t, t_newbalanceDest = t_newbalanceDest t,
         type_idx = type_idx t, isFraud = isFraud t, nameOrig = n\<rparr>)"

text \<open>\<open>quantile\<close> is \<open>np.quantile\<close>. Without fraud in the later part the script exits.\<close>

definition temporal_split ::
  "('f list \<Rightarrow> rat \<Rightarrow> 'f res) \<Rightarrow> rat \<Rightarrow> 'f::linorder raw_row list \<Rightarrow> ('f raw_row list \<times> 'f raw_row list) res" where
  "temporal_split quantile fraction raw =
     bind_res (quantile (map t_step raw) fraction) (\<lambda>cut.
     let train = filter (\<lambda>r. t_step r \<le> cut) raw; test = filter (\<lambda>r. \<not> t_step r \<le> cut) raw in
     if sum_list (map isFraud test) = 0 then Inl OtherError else Inr (train, test))"

section \<open>The models\<close>

definition labels :: "'f raw_row list \<Rightarrow> bool list" where
  "labels rows = map (\<lambda>r. isFraud r \<noteq> 0) rows"

definition score_shard ::
  "'f::linorder numpy \<Rightarrow> ('f, 't) xgboost \<Rightarrow> 'f raw_row list \<Rightarrow> nat \<Rightarrow> (('f, 't) disk, nat \<times> nat \<times> scores \<times> 'f list) io" where
  "score_shard np x test shard =
     io_bind (load_booster shard) (\<lambda>booster.
     io_bind (io_lift (gbdt_predict np x booster test)) (\<lambda>scores.
     io_bind (load_shard shard) (\<lambda>rows.
     io_bind (io_lift (metrics (labels test) scores)) (\<lambda>m.
     io_return (shard, length rows, m, scores)))))"

definition score_ensemble ::
  "'f::linorder numpy \<Rightarrow> ('f, 't) xgboost \<Rightarrow> 'f raw_row list \<Rightarrow> nat list
    \<Rightarrow> (('f, 't) disk, (nat \<times> nat \<times> scores) list \<times> scores) io" where
  "score_ensemble np x test shards =
     io_bind (io_fold (\<lambda>k per. io_bind (score_shard np x test k) (\<lambda>s. io_return (per @ [s]))) shards []) (\<lambda>per_shard.
     let votes = map (\<lambda>(_, _, _, scores). scores) per_shard in
     io_bind (io_lift (metrics (labels test) (map (\<lambda>j. np_mean np (map (\<lambda>p. p ! j) votes)) [0..<length test]))) (\<lambda>m.
     io_return (map (\<lambda>(k, n, m, _). (k, n, m)) per_shard, m)))"

text \<open>One model over all rows with the same number of rounds.\<close>

definition unsharded ::
  "('f::linorder, 'z) env_scheme \<Rightarrow> 'f numpy \<Rightarrow> ('f, 't) xgboost \<Rightarrow> 'f raw_row list \<Rightarrow> 'f raw_row list \<Rightarrow> (nat \<times> scores) res" where
  "unsharded env np x train test =
     (let total_rounds = TREES_PER_SLICE env * NUM_SLICES env in
      bind_res (features np train) (\<lambda>rows.
      bind_res (xgb_train x (zip rows (map isFraud train)) total_rounds None) (\<lambda>flat.
      bind_res (gbdt_predict np x flat test) (\<lambda>scores.
      bind_res (metrics (labels test) scores) (\<lambda>m. Inr (total_rounds, m))))))"

section \<open>The cost of an erasure\<close>

text \<open>\<open>max(routing, key=...)\<close>: the first subject with the most records.\<close>

definition largest_subject :: "routing \<Rightarrow> (string \<times> entry) res" where
  "largest_subject R =
     (case R of [] \<Rightarrow> Inl ValueError
      | p # ps \<Rightarrow> Inr (fold (\<lambda>q m. if record_count (snd m) < record_count (snd q) then q else m) ps p))"

definition retrain ::
  "('f, 'z) env_scheme \<Rightarrow> 'f numpy \<Rightarrow> ('f, 't) xgboost \<Rightarrow> 'f row list \<Rightarrow> 't list \<Rightarrow> nat \<Rightarrow> 't list option res" where
  "retrain env np x retained booster s =
     bind_res (rollback booster s (TREES_PER_SLICE env)) (\<lambda>b. gbdt_train_shard env np x retained s b (TREES_PER_SLICE env))"

record slice_cost =
  sl_seconds :: rat
  sl_speedup :: rat
  sl_subjects :: nat
  sl_share :: rat

definition cost_at ::
  "('f, 'z) env_scheme \<Rightarrow> 'f numpy \<Rightarrow> ('f, 't) xgboost \<Rightarrow> timings \<Rightarrow> routing \<Rightarrow> 'f row list \<Rightarrow> 't list \<Rightarrow> nat \<Rightarrow> slice_cost res" where
  "cost_at env np x tm routing retained booster s =
     bind_res (retrain env np x retained booster s) (\<lambda>_.
     let population = length (filter (\<lambda>p. min_slice_idx (snd p) = s) routing) in
     bind_res (ratio (tm_scratch tm) (tm_slice tm s)) (\<lambda>speedup.
     bind_res (ratio (of_nat population) (of_nat (length routing))) (\<lambda>share.
     Inr \<lparr>sl_seconds = tm_slice tm s, sl_speedup = speedup, sl_subjects = population, sl_share = share\<rparr>)))"

record erasure_cost =
  ec_shard :: nat
  ec_slice :: nat
  ec_records :: nat
  ec_resumed :: string
  ec_retrained :: "nat list"
  ec_purged :: nat
  ec_by_slice :: "slice_cost list"
  ec_expected :: rat
  ec_speedup :: rat
  ec_expected_speedup :: rat
  ec_corpus_speedup :: rat
  ec_in_proof :: nat

definition erasure_phases ::
  "('f, 'z) env_scheme \<Rightarrow> 'f numpy \<Rightarrow> ('f, 't) xgboost \<Rightarrow> (bytes \<Rightarrow> bytes \<Rightarrow> bytes) \<Rightarrow> timings \<Rightarrow> string \<Rightarrow> string \<Rightarrow> routing
    \<Rightarrow> (('f, 't) disk, erasure_cost) io" where
  "erasure_phases env np x ed_sign tm purged_at completed_at routing =
     io_bind (io_lift (largest_subject routing)) (\<lambda>(target, en).
     io_bind (load_shard (e_shard en)) (\<lambda>records.
     io_bind (load_booster (e_shard en)) (\<lambda>booster.
     let retained = filter (\<lambda>r. row_ref r \<noteq> target) records in
     io_bind (io_lift (retrain env np x retained booster (min_slice_idx en))) (\<lambda>_.
     io_bind (io_lift (gbdt_train_shard env np x retained 0 None (TREES_PER_SLICE env))) (\<lambda>_.
     io_bind (io_lift (map_res (cost_at env np x tm routing retained booster) [0..<NUM_SLICES env])) (\<lambda>by_slice.
     let expected = sum_list (map (\<lambda>v. sl_seconds v * sl_share v) by_slice); refs = remdups (map row_ref retained) in
     io_bind (io_lift (build_root refs)) (\<lambda>_.
     io_bind (gbdt_rebuild_batch_by_ref env np x ed_sign purged_at completed_at [target] (TREES_PER_SLICE env) False) (\<lambda>erase.
     io_bind (io_lift (ratio (tm_scratch tm) (tm_rollback tm))) (\<lambda>speedup.
     io_bind (io_lift (ratio (tm_scratch tm) expected)) (\<lambda>expected_speedup.
     io_bind (io_lift (ratio (tm_flat tm) (tm_rollback tm))) (\<lambda>corpus_speedup.
     io_return \<lparr>ec_shard = e_shard en, ec_slice = min_slice_idx en, ec_records = record_count en,
       ec_resumed = resumed_from erase, ec_retrained = slices_retrained erase, ec_purged = rows_purged erase,
       ec_by_slice = by_slice, ec_expected = expected, ec_speedup = speedup, ec_expected_speedup = expected_speedup,
       ec_corpus_speedup = corpus_speedup, ec_in_proof = length refs\<rparr>)))))))))))"

section \<open>The run\<close>

record bench =
  bn_rows :: "nat \<times> nat \<times> nat"
  bn_fraud :: "int \<times> int"
  bn_prevalence :: rat
  bn_subjects :: nat
  bn_sisa :: "(nat \<times> nat \<times> scores) list \<times> scores"
  bn_flat :: "nat \<times> scores"
  bn_erasure :: erasure_cost

definition bench_on ::
  "('f::linorder, 'z) env_scheme \<Rightarrow> 'f numpy \<Rightarrow> ('f, 't) xgboost \<Rightarrow> (bytes \<Rightarrow> bytes \<Rightarrow> bytes) \<Rightarrow> ('f, 'r) generator
    \<Rightarrow> ('f list \<Rightarrow> rat \<Rightarrow> 'f res) \<Rightarrow> timings \<Rightarrow> string \<Rightarrow> string \<Rightarrow> 'f raw_row list \<Rightarrow> rat \<Rightarrow> nat
    \<Rightarrow> (('f, 't) disk, bench) io" where
  "bench_on env np x ed_sign g quantile tm purged_at completed_at raw fraction seed =
     io_bind (io_lift (temporal_split quantile fraction raw)) (\<lambda>(train, test).
     io_bind (engine_build env np g (Some train) 800 seed None) (\<lambda>routing.
     io_bind (gbdt_build env np x routing (TREES_PER_SLICE env)) (\<lambda>_.
     io_bind (score_ensemble np x test (sorted_list_of_set (e_shard ` snd ` set routing))) (\<lambda>sisa.
     io_bind (io_lift (unsharded env np x train test)) (\<lambda>flat.
     io_bind (erasure_phases env np x ed_sign tm purged_at completed_at routing) (\<lambda>cost.
     io_return \<lparr>bn_rows = (length raw, length train, length test),
       bn_fraud = (sum_list (map isFraud train), sum_list (map isFraud test)),
       bn_prevalence = of_int (sum_list (map isFraud test)) / of_nat (length test), bn_subjects = length routing,
       bn_sisa = sisa, bn_flat = flat, bn_erasure = cost\<rparr>))))))"

definition bench_run ::
  "('f::linorder, 'z) env_scheme \<Rightarrow> 'f numpy \<Rightarrow> ('f, 't) xgboost \<Rightarrow> (bytes \<Rightarrow> bytes \<Rightarrow> bytes) \<Rightarrow> ('f, 'r) generator
    \<Rightarrow> (string \<Rightarrow> 'f res) \<Rightarrow> ('f list \<Rightarrow> rat \<Rightarrow> 'f res) \<Rightarrow> timings \<Rightarrow> string \<Rightarrow> string \<Rightarrow> string \<Rightarrow> int \<Rightarrow> rat \<Rightarrow> nat
    \<Rightarrow> (('f, 't) disk, bench) io" where
  "bench_run env np x ed_sign g py_float quantile tm purged_at completed_at file_text rows fraction seed =
     io_bind (io_lift (load_csv py_float (if rows \<le> 0 then None else Some rows) file_text)) (\<lambda>records.
     io_bind (io_lift (map_res named_row records)) (\<lambda>raw.
     bench_on env np x ed_sign g quantile tm purged_at completed_at raw fraction seed))"

section \<open>The deployment under measurement\<close>

lemma build_boosters:
  assumes "io_fold (\<lambda>k _. io_bind (load_shard k) (\<lambda>records.
      io_bind (io_lift (gbdt_train_shard env np x records 0 None trees)) (\<lambda>b. save_booster b k))) ks () d = (Inr (), d')"
  shows "\<exists>f. d' = d\<lparr>gbdt_json := f\<rparr> \<and> (\<forall>k b. f k = Some b \<longrightarrow> gbdt_json d k = Some b
     \<or> (\<exists>rows. shard_npz d k = Some rows \<and> gbdt_train_shard env np x rows 0 None trees = Inr (Some b)))"
  using assms
proof (induction ks arbitrary: d)
  case Nil
  then show ?case by (intro exI [of _ "gbdt_json d"]) (simp add: io_return_def)
next
  case (Cons k ks)
  then obtain rows b where b: "shard_npz d k = Some rows" "gbdt_train_shard env np x rows 0 None trees = Inr (Some b)"
      "io_fold (\<lambda>k _. io_bind (load_shard k) (\<lambda>records.
        io_bind (io_lift (gbdt_train_shard env np x records 0 None trees)) (\<lambda>b. save_booster b k))) ks () (d\<lparr>gbdt_json := (gbdt_json d)(k \<mapsto> b)\<rparr>) = (Inr (), d')"
    by (auto simp: io_simps load_shard_def save_booster_iff)
  from Cons.IH [OF b(3)] obtain f where f: "d' = d\<lparr>gbdt_json := f\<rparr>" "\<forall>j c. f j = Some c \<longrightarrow> ((gbdt_json d)(k \<mapsto> b)) j = Some c
     \<or> (\<exists>rows. shard_npz d j = Some rows \<and> gbdt_train_shard env np x rows 0 None trees = Inr (Some c))"
    by auto
  with b(1,2) show ?case by (intro exI [of _ f]) (auto split: if_splits)
qed

lemma gbdt_build_fresh:
  assumes "gbdt_build env np x R trees d = (Inr (), d')" "aligned d" "gbdt_json d = Map.empty"
  shows "fresh_boosters env np x trees d' \<and> shard_npz d' = shard_npz d \<and> routing_json d' = routing_json d"
proof -
  from build_boosters [OF assms(1) [unfolded gbdt_build_def]] assms(3) obtain f where f: "d' = d\<lparr>gbdt_json := f\<rparr>"
      "\<forall>k b. f k = Some b \<longrightarrow> (\<exists>rows. shard_npz d k = Some rows \<and> gbdt_train_shard env np x rows 0 None trees = Inr (Some b))"
    by auto
  with assms(2) show ?thesis by (simp add: fresh_boosters_def aligned_def)
qed

lemma score_ensemble_reads:
  assumes "score_ensemble np x test ks d = (Inr s, d')"
  shows "d' = d"
proof -
  have one: "d2 = d1" if "score_shard np x test k d1 = (Inr r, d2)" for k r d1 d2
    using that by (auto simp: score_shard_def io_simps load_booster_def load_shard_def)
  have "d2 = d1" if "io_fold (\<lambda>k per. io_bind (score_shard np x test k) (\<lambda>s. io_return (per @ [s]))) ks per d1 = (Inr r, d2)" for per r d1 d2
    using that by (induction ks arbitrary: per d1) (auto simp: io_simps dest: one)
  with assms show ?thesis by (auto simp: score_ensemble_def io_simps Let_def)
qed

text \<open>Every slice of the routing table is in range, so that the slices share out the subjects.\<close>

lemma fold_largest:
  "fold (\<lambda>q m. if record_count (snd m) < record_count (snd q) then q else m) ps p \<in> insert p (set ps)"
  by (induction ps arbitrary: p) auto

lemma largest_subject_in: "largest_subject R = Inr p \<Longrightarrow> p \<in> set R"
  using fold_largest by (fastforce simp: largest_subject_def split: list.splits)

lemma population_total:
  assumes "\<forall>p\<in>set R. min_slice_idx (snd p) < n"
  shows "sum_list (map (\<lambda>s. length (filter (\<lambda>p. min_slice_idx (snd p) = s) R)) [0..<n]) = length R"
  using assms
proof (induction R)
  case (Cons p R)
  have "sum_list (map (\<lambda>s. (if min_slice_idx (snd p) = s then 1 else 0) + length (filter (\<lambda>p. min_slice_idx (snd p) = s) R)) [0..<n])
      = sum_list (map (\<lambda>s. if min_slice_idx (snd p) = s then 1 else 0) [0..<n]) + length R"
    using Cons by (simp add: sum_list_addf)
  moreover have "sum_list (map (\<lambda>s. if i = s then 1 else 0) [0..<n]) = (1 :: nat)" if "i < n" for i
    using that by (simp add: sum_list_distinct_conv_sum_set sum.delta)
  moreover have "(\<lambda>s. length (filter (\<lambda>p. min_slice_idx (snd p) = s) (p # R)))
      = (\<lambda>s. (if min_slice_idx (snd p) = s then 1 else 0) + length (filter (\<lambda>p. min_slice_idx (snd p) = s) R))" by auto
  ultimately show ?case using Cons.prems by simp
qed simp

lemma costs_total:
  assumes "map_res (cost_at env np x tm R retained booster) [0..<n] = Inr cs" "\<forall>p\<in>set R. min_slice_idx (snd p) < n" "R \<noteq> []"
  shows "sum_list (map sl_subjects cs) = length R \<and> sum_list (map sl_share cs) = 1"
proof -
  let ?pop = "\<lambda>s. length (filter (\<lambda>p. min_slice_idx (snd p) = s) R)"
  have c: "sl_subjects c = ?pop s \<and> sl_share c = of_nat (?pop s) / of_nat (length R)" if "cost_at env np x tm R retained booster s = Inr c" for s c
    using that assms(3) by (auto simp: cost_at_def res_simps Let_def ratio_def split: if_splits)
  note d = map_res_dest [OF assms(1)]
  have pop: "map sl_subjects cs = map ?pop [0..<n]" and share: "map sl_share cs = map (\<lambda>s. of_nat (?pop s) / of_nat (length R)) [0..<n]"
    by (rule nth_equalityI; use d c in force)+
  have "sum_list (map sl_subjects cs) = length R" unfolding pop by (rule population_total [OF assms(2)])
  moreover have "sum_list (map (\<lambda>s. of_nat (?pop s) / of_nat (length R) :: rat) ss) = of_nat (sum_list (map ?pop ss)) / of_nat (length R)" for ss
    by (induction ss) (simp_all add: add_divide_distrib)
  then have "sum_list (map sl_share cs) = 1" unfolding share using population_total [OF assms(2)] assms(3) by simp
  ultimately show ?thesis ..
qed

lemma routing_entries:
  assumes "build_shards env np seed ms raw d = (Inr R, d')" "inj_on (subject_ref (settings.truncate env)) (nameOrig ` set raw)"
  shows "distinct (map fst R)" "p \<in> set R \<Longrightarrow> \<exists>r\<in>set raw. fst p = subject_ref (settings.truncate env) (nameOrig r)"
proof -
  from assms(1) obtain sh sl where R: "R = routing_of env sh sl (count_of raw) (subjects_of raw)" by (rule build_shards_dest)
  let ?e = "\<lambda>s. \<lparr>tenant_id = TENANT_ID env, e_shard = sh s, min_slice_idx = sl s, record_count = count_of raw s\<rparr>"
  have "distinct (map fst (map (\<lambda>s. (subject_ref (settings.truncate env) s, ?e s)) (subjects_of raw)))"
    using assms(2) by (simp add: comp_def distinct_map)
  from dict_of_distinct [OF this] have eq: "R = map (\<lambda>s. (subject_ref (settings.truncate env) s, ?e s)) (subjects_of raw)"
    by (simp add: R routing_of_def)
  show "distinct (map fst R)" using assms(2) by (simp add: eq comp_def distinct_map)
  show "p \<in> set R \<Longrightarrow> \<exists>r\<in>set raw. fst p = subject_ref (settings.truncate env) (nameOrig r)" by (auto simp: eq)
qed

text \<open>What the routing table says of a subject is exact.\<close>

definition entry_exact :: "nat \<Rightarrow> routing \<Rightarrow> ('f, 't) disk \<Rightarrow> string \<times> entry \<Rightarrow> bool" where
  "entry_exact num R d p \<longleftrightarrow> map_of R (fst p) = Some (snd p) \<and> min_slice_idx (snd p) < num
     \<and> (\<exists>rows. shard_npz d (e_shard (snd p)) = Some rows \<and> record_count (snd p) = length (filter (\<lambda>r. row_ref r = fst p) rows))"

lemma built_entries:
  assumes parts: "build_shards env np seed ms raw d = (Inr R, d')" and beta: "\<And>n. length (np_beta np seed n) = n"
    and inj: "inj_on (subject_ref (settings.truncate env)) (nameOrig ` set raw)"
    and none: "\<forall>k. NUM_SHARDS env \<le> int k \<longrightarrow> shard_npz d k = None"
  shows "routing_json d' = Some R \<and> aligned d' \<and> (\<forall>q\<in>set R. entry_exact (NUM_SLICES env) R d' q)"
proof -
  let ?ref = "subject_ref (settings.truncate env)"
  note p = partitions_aligned [OF parts beta inj none]
  note keys = routing_entries [OF parts inj]
  have "entry_exact (NUM_SLICES env) R d' q" if q: "q \<in> set R" for q
  proof -
    obtain r where r: "r \<in> set raw" "fst q = ?ref (nameOrig r)" using keys(2) [OF q] by blast
    moreover have "map_of R (fst q) = Some (snd q)" using keys(1) q by (simp add: map_of_eq_Some_iff)
    moreover from p r(1) obtain e rows where "map_of R (?ref (nameOrig r)) = Some e" "min_slice_idx e < NUM_SLICES env"
        "shard_npz d' (e_shard e) = Some rows" "record_count e = length (filter (\<lambda>q. row_ref q = ?ref (nameOrig r)) rows)"
      by blast
    ultimately show ?thesis unfolding entry_exact_def by simp
  qed
  with p show ?thesis by blast
qed

lemma phases_measure:
  assumes cost: "erasure_phases env np x ed_sign tm pa ca R d = (Inr c, d')"
    and fresh: "fresh_boosters env np x (TREES_PER_SLICE env) d" "routing_json d = Some R" and pos: "0 < TREES_PER_SLICE env"
    and entries: "\<forall>q\<in>set R. entry_exact (NUM_SLICES env) R d q"
  shows "(\<exists>target all b0 b. shard_npz d' (ec_shard c) = Some (filter (\<lambda>r. row_ref r \<noteq> target) all) \<and> gbdt_json d' (ec_shard c) = Some b
        \<and> gbdt_train_shard env np x all 0 None (TREES_PER_SLICE env) = Inr (Some b0)
        \<and> retrain env np x (filter (\<lambda>r. row_ref r \<noteq> target) all) b0 (ec_slice c) = Inr (Some b)
        \<and> gbdt_train_shard env np x (filter (\<lambda>r. row_ref r \<noteq> target) all) 0 None (TREES_PER_SLICE env) = Inr (Some b)
        \<and> ec_purged c = ec_records c \<and> ec_records c = length (filter (\<lambda>r. row_ref r = target) all))
     \<and> sum_list (map sl_subjects (ec_by_slice c)) = length R \<and> sum_list (map sl_share (ec_by_slice c)) = 1"
proof -
  let ?trees = "TREES_PER_SLICE env"
  from cost obtain target en all b0 costs erase where
      tgt: "largest_subject R = Inr (target, en)" "shard_npz d (e_shard en) = Some all" "gbdt_json d (e_shard en) = Some b0"
    and costs: "map_res (cost_at env np x tm R (filter (\<lambda>r. row_ref r \<noteq> target) all) b0) [0..<NUM_SLICES env] = Inr costs"
    and erase: "gbdt_rebuild_batch_by_ref env np x ed_sign pa ca [target] ?trees False d = (Inr erase, d')"
    and c: "ec_shard c = e_shard en" "ec_slice c = min_slice_idx en" "ec_records c = record_count en" "ec_purged c = rows_purged erase"
      "ec_by_slice c = costs"
    by (auto simp: erasure_phases_def io_simps Let_def load_shard_def load_booster_def)
  from entries largest_subject_in [OF tgt(1)] obtain rows where en: "map_of R target = Some en" "shard_npz d (e_shard en) = Some rows"
      "record_count en = length (filter (\<lambda>r. row_ref r = target) rows)"
    by (fastforce simp: entry_exact_def)
  have all: "rows = all" using en(2) tgt(2) by simp
  from erase obtain R2 k m tb ret n resume b tree R' where
      reads: "gbdt_reads [target] ?trees d (R2, k, m, tb, ret, n, resume)"
    and plan: "gbdt_plan env np x ed_sign pa ca [target] ?trees False R2 k m tb ret n resume (erase, b, tree, R')"
    and d': "d' = gbdt_writes k ret b tree R' d"
    unfolding gbdt_rebuild_iff by blast
  have R2: "R2 = R" using reads fresh(2) by (auto simp: gbdt_reads_def)
  have "batch_target R [target] = Inr (k, m)" using reads by (auto simp: gbdt_reads_def R2)
  then have km: "k = e_shard en" "m = min_slice_idx en" using en(1) by (auto simp: batch_target_def Let_def)
  let ?ret = "filter (\<lambda>r. row_ref r \<noteq> target) all"
  have ret: "ret = ?ret" "n = length all - length ?ret" "rollback b0 m ?trees = Inr resume"
    using reads tgt(2,3) by (auto simp: gbdt_reads_def km)
  have purged: "rows_purged erase = record_count en"
  proof -
    have "rows_purged erase = n" using plan by (auto simp: gbdt_plan_def)
    moreover have "length all = length (filter (\<lambda>r. row_ref r = target) all) + length ?ret"
      using sum_length_filter_compl [of "\<lambda>r. row_ref r = target" all] by simp
    ultimately show ?thesis using ret(2) en(3) by (simp add: all)
  qed
  have fresh': "fresh_boosters env np x ?trees d'" by (rule gbdt_fresh_step [OF fresh(1) pos erase])
  have files: "shard_npz d' k = Some ?ret" "gbdt_json d' k = Some b" by (simp_all add: d' gbdt_writes_def ret(1))
  then have scratch: "gbdt_train_shard env np x ?ret 0 None ?trees = Inr (Some b)" using fresh' by (fastforce simp: fresh_boosters_def)
  have old: "gbdt_train_shard env np x all 0 None ?trees = Inr (Some b0)" using fresh(1) tgt(2,3) by (fastforce simp: fresh_boosters_def)
  have back_eq: "retrain env np x ?ret b0 m = Inr (Some b)"
    using gbdt_plan_parts(1) [OF plan] ret by (simp add: retrain_def)
  have "R \<noteq> []" using en(1) by auto
  from costs_total [OF costs _ this] entries have total: "sum_list (map sl_subjects costs) = length R" "sum_list (map sl_share costs) = 1" by (auto simp: entry_exact_def)
  have "shard_npz d' (ec_shard c) = Some ?ret \<and> gbdt_json d' (ec_shard c) = Some b
      \<and> gbdt_train_shard env np x all 0 None ?trees = Inr (Some b0) \<and> retrain env np x ?ret b0 (ec_slice c) = Inr (Some b)
      \<and> gbdt_train_shard env np x ?ret 0 None ?trees = Inr (Some b)
      \<and> ec_purged c = ec_records c \<and> ec_records c = length (filter (\<lambda>r. row_ref r = target) all)"
    using files scratch old back_eq purged en(3) unfolding c all km by simp
  then show ?thesis using total unfolding c(5) by blast
qed

section \<open>Property\<close>

text \<open>
  C40 The benchmark times what it says. If a run on empty directories returns, the model
  retrained from the rollback point, the model retrained from scratch and the model that the
  end-to-end erasure leaves on disk are the same; the erasure purged exactly the records of one
  subject; the subjects are shared out over the rollback points completely, so that the
  expected time is a mean; and the two parts of the split are all rows.
\<close>

theorem benchmark_measures_erasure:
  assumes run: "bench_on env np x ed_sign g quantile tm pa ca raw fraction seed d = (Inr res, d')"
    and "\<And>n. length (np_beta np seed n) = n" "0 < TREES_PER_SLICE env" "shard_npz d = Map.empty" "gbdt_json d = Map.empty"
    and inj: "inj_on (subject_ref (settings.truncate env)) (nameOrig ` set raw)"
  shows "(\<exists>target all b0 b. shard_npz d' (ec_shard (bn_erasure res)) = Some (filter (\<lambda>r. row_ref r \<noteq> target) all) \<and> gbdt_json d' (ec_shard (bn_erasure res)) = Some b
        \<and> gbdt_train_shard env np x all 0 None (TREES_PER_SLICE env) = Inr (Some b0)
        \<and> retrain env np x (filter (\<lambda>r. row_ref r \<noteq> target) all) b0 (ec_slice (bn_erasure res)) = Inr (Some b)
        \<and> gbdt_train_shard env np x (filter (\<lambda>r. row_ref r \<noteq> target) all) 0 None (TREES_PER_SLICE env) = Inr (Some b)
        \<and> ec_purged (bn_erasure res) = ec_records (bn_erasure res) \<and> ec_records (bn_erasure res) = length (filter (\<lambda>r. row_ref r = target) all))
     \<and> sum_list (map sl_subjects (ec_by_slice (bn_erasure res))) = bn_subjects res \<and> sum_list (map sl_share (ec_by_slice (bn_erasure res))) = 1
     \<and> fst (bn_rows res) = fst (snd (bn_rows res)) + snd (snd (bn_rows res))"
proof -
  let ?ref = "subject_ref (settings.truncate env)"
  from run obtain train test R d1 d2 d3 sisa flat where
      split: "temporal_split quantile fraction raw = Inr (train, test)"
    and build: "engine_build env np g (Some train) 800 seed None d = (Inr R, d1)"
    and boosters: "gbdt_build env np x R (TREES_PER_SLICE env) d1 = (Inr (), d2)"
    and sisa: "score_ensemble np x test (sorted_list_of_set (e_shard ` snd ` set R)) d2 = (Inr sisa, d3)"
    and phases: "erasure_phases env np x ed_sign tm pa ca R d3 = (Inr (bn_erasure res), d')"
    and res: "bn_subjects res = length R" "bn_rows res = (length raw, length train, length test)"
    by (auto simp: bench_on_def io_simps)
  have cost: "erasure_phases env np x ed_sign tm pa ca R d2 = (Inr (bn_erasure res), d')" using phases score_ensemble_reads [OF sisa] by simp
  from build obtain horizon where parts: "build_shards env np seed horizon train d = (Inr R, d1)"
    by (auto simp: engine_build_def io_simps)
  have sub: "set train \<subseteq> set raw" "length raw = length train + length test"
    using split sum_length_filter_compl [of "\<lambda>r. t_step r \<le> _" raw] by (auto simp: temporal_split_def res_simps Let_def split: if_splits)
  have injt: "inj_on ?ref (nameOrig ` set train)" by (rule inj_on_subset [OF inj]) (use sub in auto)
  note p = built_entries [OF parts assms(2) injt]
  from parts have "gbdt_json d1 = Map.empty" by (elim build_shards_dest) (simp add: assms(5))
  from gbdt_build_fresh [OF boosters _ this] p have fresh: "fresh_boosters env np x (TREES_PER_SLICE env) d2" "routing_json d2 = Some R"
      "\<forall>q\<in>set R. entry_exact (NUM_SLICES env) R d2 q"
    by (simp_all add: assms(4) entry_exact_def)
  have "fst (bn_rows res) = fst (snd (bn_rows res)) + snd (snd (bn_rows res))" by (simp add: res(2) sub(2))
  with phases_measure [OF cost fresh(1,2) assms(3) fresh(3)] show ?thesis unfolding res(1) by blast
qed

text \<open>Two subjects in the cold shard, one of them with a fraudulent record after the split.\<close>

definition bench_env :: "int env" where
  "bench_env = small_env\<lparr>NUM_SHARDS := 2, HOT_SHARDS := 1, HOT_THRESHOLD := 1000, NUM_SLICES := 1,
     TENANT_KEY := TENANT_KEY default_settings\<rparr>"

definition bench_row :: "string \<Rightarrow> int \<Rightarrow> int \<Rightarrow> int raw_row" where
  "bench_row name step fraud = \<lparr>t_step = step, t_amount = 7, t_oldbalanceOrg = 1, t_newbalanceOrig = 1, t_oldbalanceDest = 1,
     t_newbalanceDest = 1, type_idx = 0, isFraud = fraud, nameOrig = name\<rparr>"

definition bench_train :: "int raw_row list" where
  "bench_train = [bench_row ''C1'' 1 0, bench_row ''C2'' 1 0]"

definition bench_disk :: "(int, int) disk" where
  "bench_disk = small_disk 3\<lparr>shard_npz := Map.empty, gbdt_json := Map.empty\<rparr>"

definition bench_times :: timings where
  "bench_times = \<lparr>tm_rollback = 1, tm_scratch = 1, tm_slice = (\<lambda>_. 1), tm_flat = 1\<rparr>"

lemma bench_refs: "subject_ref (settings.truncate bench_env) n = subject_ref default_settings n"
  by (simp add: subject_ref_def bench_env_def settings.defs)

lemma bench_split:
  "temporal_split (\<lambda>_ _. Inr 1) (8 / 10) (bench_train @ [bench_row ''C1'' 2 1]) = Inr (bench_train, [bench_row ''C1'' 2 1])"
  by (simp add: temporal_split_def bench_train_def bench_row_def)

lemma bench_subjects: "subjects_of bench_train = [''C1'', ''C2'']"
  unfolding subjects_of_def bench_train_def bench_row_def by code_simp

lemma bench_counts: "count_of bench_train ''C1'' = 1" "count_of bench_train ''C2'' = 1"
  by (simp_all add: count_of_def bench_train_def bench_row_def)

lemma bench_churn: "length steps = length ids \<Longrightarrow> churn_scores small_np ids steps ms seed = replicate (length ids) 1"
  by (intro nth_equalityI) (auto simp: churn_scores_def small_np_def Let_def)

lemma bench_slices: "assign_slices [''C1'', ''C2''] [1 :: int, 1] [1, 1] 1 = Inr [0, 0]"
  by code_simp

lemma bench_assigned:
  "assign_subjects bench_env small_np 1337 ms bench_train = Inr ([(''C1'', 1, 1), (''C2'', 1, 1)], [(''C1'', 0), (''C2'', 0)])"
  by (simp add: assign_subjects_def bench_subjects Let_def bench_churn assign_all_def assign_shard_def bench_env_def small_env_def
    shard_slices_def bench_counts bench_slices upt_conv_Cons) (simp add: assign_slices_def)

definition bench_ref :: "string \<Rightarrow> string" where
  "bench_ref = subject_ref default_settings"

lemma bench_ref_simps [simp]: "bench_ref ''C1'' \<noteq> bench_ref ''C2''" "bench_ref ''C2'' \<noteq> bench_ref ''C1''"
  using subject_ref_vectors by (simp_all add: bench_ref_def)

lemma valid_bench_ref [simp]: "valid_ref (bench_ref n)"
  by (simp add: bench_ref_def)

definition bench_routing :: routing where
  "bench_routing = [(bench_ref ''C1'', \<lparr>tenant_id = ''dev'', e_shard = 1, min_slice_idx = 0, record_count = 1\<rparr>),
     (bench_ref ''C2'', \<lparr>tenant_id = ''dev'', e_shard = 1, min_slice_idx = 0, record_count = 1\<rparr>)]"

definition bench_rows :: "int row list" where
  "bench_rows = [(small_row (bench_ref ''C1'') 0 7), (small_row (bench_ref ''C2'') 0 7)]"

lemma bench_build:
  "engine_build bench_env small_np g (Some bench_train) 800 1337 None bench_disk
     = (Inr bench_routing, bench_disk\<lparr>routing_json := Some bench_routing, shard_npz := [0 \<mapsto> [], 1 \<mapsto> bench_rows]\<rparr>)"
proof -
  have last: "last_step small_np bench_train = Inr 1" by (simp add: last_step_def bench_train_def bench_row_def small_np_def)
  have num: "[0..<nat (NUM_SHARDS bench_env)] = [0, 1]" by (simp add: bench_env_def upt_conv_Cons)
  have ten: "TENANT_ID bench_env = ''dev''" by (simp add: bench_env_def small_env_def)
  show ?thesis
    by (simp add: engine_build_def build_shards_def io_bind_def io_lift_def last bench_assigned Let_def num save_shard_def io_modify_def
      io_return_def save_routing_def routing_of_def bench_subjects dict_of_def bench_refs bench_ref_def [symmetric] bench_counts ten)
     (simp add: bench_routing_def bench_rows_def bench_train_def bench_row_def shard_row_def small_row_def bench_disk_def bench_refs
      bench_ref_def [symmetric] fun_upd_twist)
qed
lemma bench_params: "TREES_PER_SLICE bench_env = 1" "NUM_SLICES bench_env = 1" "PYTHONHASHSEED bench_env = Some ''0''"
  by (simp_all add: bench_env_def small_env_def)

lemma bench_trains:
  assumes "rs \<noteq> []" "\<forall>r\<in>set rs. slice_idx r = 0 \<and> type_idx r = 0"
  shows "\<exists>ts. gbdt_train_shard bench_env small_np small_xgb rs 0 None 1 = Inr (Some ts) \<and> length ts = 1"
proof -
  have "\<exists>r\<in>set rs. slice_idx r = 0" using assms by (cases rs) auto
  then obtain c where c: "fold_res (gbdt_train_slice small_np small_xgb 1 rs) [0..<1] None = Inr c"
    using gbdt_fold_total [of rs small_xgb small_np 1 "[0..<1]" None, OF _ _ small_accepts] assms(2) by (auto simp: TYPES_def)
  with gbdt_fold_grows [OF c] show ?thesis by (auto simp: gbdt_train_shard_def bench_params)
qed

lemma bench_predicts:
  assumes "\<forall>r\<in>set rs. type_idx r = 0"
  shows "\<exists>ys. gbdt_predict small_np small_xgb b rs = Inr ys \<and> length ys = length rs"
proof -
  have "\<exists>f. features small_np rs = Inr f"
    unfolding features_def by (rule map_res_total) (use assms in \<open>auto intro: feature_row_ok simp: TYPES_def\<close>)
  then obtain f where f: "features small_np rs = Inr f" by blast
  then have "length f = length rs" unfolding features_def using map_res_dest by blast
  with f show ?thesis by (simp add: gbdt_predict_def)
qed

lemma metrics_ok: "length ls = length ys \<Longrightarrow> ys \<noteq> [] \<Longrightarrow> \<exists>m. metrics ls ys = Inr m"
  by (simp add: metrics_def auc_def average_precision_def precision_at_recall_def Let_def)

definition bench_test :: "int raw_row list" where
  "bench_test = [bench_row ''C1'' 2 1]"

lemma bench_test_simps [simp]: "length bench_test = 1" "length (labels bench_test) = 1" "\<forall>r\<in>set bench_test. type_idx r = 0"
  by (simp_all add: bench_test_def labels_def bench_row_def)

lemma bench_scored:
  assumes "gbdt_json d 1 = Some b" "shard_npz d 1 = Some rows"
  shows "\<exists>s. score_ensemble small_np small_xgb bench_test [1] d = (Inr s, d)"
proof -
  obtain ys where ys: "gbdt_predict small_np small_xgb b bench_test = Inr ys" "length ys = 1"
    using bench_predicts [of bench_test b] by auto
  obtain m where m: "metrics (labels bench_test) ys = Inr m" using metrics_ok [of "labels bench_test" ys] ys(2) by (cases ys) auto
  have "\<exists>m. metrics (labels bench_test) [np_mean small_np [ys ! 0]] = Inr m" by (rule metrics_ok) simp_all
  then obtain m2 where m2: "metrics (labels bench_test) [np_mean small_np [ys ! 0]] = Inr m2" by blast
  have "score_shard small_np small_xgb bench_test 1 d = (Inr (1, length rows, m, ys), d)"
    by (simp add: score_shard_def io_simps load_booster_def load_shard_def assms ys m del: One_nat_def)
  then show ?thesis by (auto simp: score_ensemble_def io_simps m2 intro!: exI)
qed

lemma bench_unsharded: "\<exists>u. unsharded bench_env small_np small_xgb bench_train bench_test = Inr u"
proof -
  have t: "\<forall>r\<in>set bench_train. type_idx r = 0" by (simp add: bench_train_def bench_row_def)
  have "\<exists>f. features small_np bench_train = Inr f"
    unfolding features_def by (rule map_res_total) (use t in \<open>auto intro: feature_row_ok simp: TYPES_def\<close>)
  then obtain f where f: "features small_np bench_train = Inr f" by blast
  then have "length f = length bench_train" unfolding features_def using map_res_dest by blast
  then have "zip f (map isFraud bench_train) \<noteq> []" by (cases f) (auto simp: bench_train_def)
  then obtain b where b: "xgb_train small_xgb (zip f (map isFraud bench_train)) 1 None = Inr b"
    by (simp add: xgb_train_def small_accepts)
  obtain ys where ys: "gbdt_predict small_np small_xgb b bench_test = Inr ys" "length ys = 1"
    using bench_predicts [of bench_test b] by auto
  obtain m where "metrics (labels bench_test) ys = Inr m" using metrics_ok [of "labels bench_test" ys] ys(2) by (cases ys) auto
  with f b ys show ?thesis by (simp add: unsharded_def Let_def bench_params)
qed

definition bench_built :: "int list \<Rightarrow> (int, int) disk" where
  "bench_built b = bench_disk\<lparr>routing_json := Some bench_routing, shard_npz := [0 \<mapsto> [], 1 \<mapsto> bench_rows], gbdt_json := [1 \<mapsto> b]\<rparr>"

lemma bench_ready:
  "batch_ready bench_env False [bench_ref ''C1''] (bench_built b) bench_routing 1 0 bench_rows" "\<not> cache_collides (bench_built b) 1"
  by (auto simp: bench_built_def batch_ready_def bench_params bench_disk_def caches_ok_def bench_routing_def bench_rows_def small_row_def
    batch_target_def Let_def TYPES_def cache_collides_def)

lemma bench_cost:
  assumes "length b = 1"
  shows "\<exists>c d'. erasure_phases bench_env small_np small_xgb (\<lambda>k b. k) bench_times [] [] bench_routing (bench_built b) = (Inr c, d')"
proof -
  let ?ret = "[small_row (bench_ref ''C2'') 0 7]"
  let ?en = "\<lparr>tenant_id = ''dev'', e_shard = 1, min_slice_idx = 0, record_count = 1\<rparr>"
  have files: "shard_npz (bench_built b) 1 = Some bench_rows" "gbdt_json (bench_built b) 1 = Some b" by (simp_all add: bench_built_def)
  have big: "largest_subject bench_routing = Inr (bench_ref ''C1'', ?en)" by (simp add: largest_subject_def bench_routing_def)
  have ret: "filter (\<lambda>r. row_ref r \<noteq> bench_ref ''C1'') bench_rows = ?ret" by (simp add: bench_rows_def small_row_def)
  obtain ts where ts: "gbdt_train_shard bench_env small_np small_xgb ?ret 0 None 1 = Inr (Some ts)"
    using bench_trains [of ?ret] by (auto simp: small_row_def)
  have back_eq: "retrain bench_env small_np small_xgb ?ret b 0 = Inr (Some ts)" by (simp add: retrain_def rollback_def bench_params ts del: One_nat_def)
  have costs: "\<exists>cs. map_res (cost_at bench_env small_np small_xgb bench_times bench_routing ?ret b) [0..<1] = Inr cs \<and> length cs = 1
      \<and> sl_seconds (hd cs) = 1 \<and> sl_share (hd cs) = 1"
    by (simp add: cost_at_def back_eq ratio_def bench_times_def bench_routing_def upt_conv_Cons)
  then obtain c1 where c1: "map_res (cost_at bench_env small_np small_xgb bench_times bench_routing ?ret b) [0..<1] = Inr [c1]"
      "sl_seconds c1 = 1" "sl_share c1 = 1"
    by (metis length_0_conv length_Suc_conv list.sel(1) One_nat_def)
  have root: "\<exists>h. build_root [bench_ref ''C2''] = Inr h" by (simp add: build_root_spec)
  obtain r d' where erase: "gbdt_rebuild_batch_by_ref bench_env small_np small_xgb (\<lambda>k b. k) [] [] [bench_ref ''C1''] 1 False (bench_built b) = (Inr r, d')"
    using gbdt_rebuild_ok [OF bench_ready(1) files(2) _ small_accepts bench_ready(2), of 1 small_np "\<lambda>k b. k" "[]" "[]"] assms by (auto simp: bench_params)
  have refs: "remdups (map row_ref ?ret) = [bench_ref ''C2'']" by (simp add: small_row_def)
  have times: "tm_scratch bench_times = 1" "tm_rollback bench_times = 1" "tm_flat bench_times = 1" by (simp_all add: bench_times_def)
  from root show ?thesis
    by (auto simp: erasure_phases_def io_simps big load_shard_def load_booster_def files ret Let_def back_eq bench_params ts c1 refs erase
      ratio_def times simp del: One_nat_def intro!: exI)
qed

theorem benchmark_measures_erasure_witness:
  "\<exists>res d'. bench_on bench_env small_np small_xgb (\<lambda>k b. k) small_draws (\<lambda>_ _. Inr 1) bench_times [] [] (bench_train @ bench_test) (8 / 10) 1337 bench_disk
       = (Inr res, d')
     \<and> ec_purged (bn_erasure res) = ec_records (bn_erasure res) \<and> fst (bn_rows res) = 3"
proof -
  obtain b where b: "gbdt_train_shard bench_env small_np small_xgb bench_rows 0 None 1 = Inr (Some b)" "length b = 1"
    using bench_trains [of bench_rows] by (auto simp: bench_rows_def small_row_def)
  let ?d = "bench_disk\<lparr>routing_json := Some bench_routing, shard_npz := [0 \<mapsto> [], 1 \<mapsto> bench_rows]\<rparr>"
  have shards: "sorted_list_of_set (e_shard ` snd ` set bench_routing) = [1]" by (simp add: bench_routing_def)
  have boosters: "gbdt_build bench_env small_np small_xgb bench_routing 1 ?d = (Inr (), bench_built b)"
    unfolding gbdt_build_def shards
    by (simp add: io_simps load_shard_def b save_booster_iff bench_built_def bench_disk_def del: One_nat_def)
  obtain per m where sisa: "score_ensemble small_np small_xgb bench_test [1] (bench_built b) = (Inr (per, m), bench_built b)"
    using bench_scored [of "bench_built b" b bench_rows] by (force simp: bench_built_def)
  obtain n u where flat: "unsharded bench_env small_np small_xgb bench_train bench_test = Inr (n, u)" using bench_unsharded by force
  obtain c d' where cost: "erasure_phases bench_env small_np small_xgb (\<lambda>k b. k) bench_times [] [] bench_routing (bench_built b) = (Inr c, d')"
    using bench_cost [OF b(2)] by blast
  have "\<exists>res. bench_on bench_env small_np small_xgb (\<lambda>k b. k) small_draws (\<lambda>_ _. Inr 1) bench_times [] [] (bench_train @ bench_test) (8 / 10) 1337 bench_disk
       = (Inr res, d') \<and> bn_rows res = (3, 2, 1)"
    unfolding bench_on_def bench_test_def using bench_split [folded bench_test_def] bench_build boosters sisa flat cost
    by (auto simp: io_simps shards bench_params bench_test_def bench_train_def simp del: One_nat_def intro!: exI)
  then obtain res where res: "bench_on bench_env small_np small_xgb (\<lambda>k b. k) small_draws (\<lambda>_ _. Inr 1) bench_times [] [] (bench_train @ bench_test) (8 / 10) 1337 bench_disk
       = (Inr res, d')" "bn_rows res = (3, 2, 1)" by blast
  have "inj_on (subject_ref (settings.truncate bench_env)) (nameOrig ` set (bench_train @ bench_test))"
    using bench_ref_simps by (auto simp: bench_refs bench_ref_def bench_train_def bench_test_def bench_row_def inj_on_def)
  with benchmark_measures_erasure [OF res(1)] show ?thesis using res
    by (auto simp: small_np_def bench_params bench_disk_def)
qed

end
