(* ===== verification/Ensemble.thy ===== *)
theory Ensemble
  imports Active
begin

text \<open>
  \<open>inference/batched_ensemble.py\<close> and \<open>load_ensemble\<close> of \<open>engine/active.py\<close>: the models of all
  shards, loaded from the content-addressed files and cached. \<open>shard_paths\<close> maps shards to
  files; its keys are decimal texts in the code and numbers here.
\<close>

type_synonym shard_paths = "(nat \<times> string) list"

datatype ('f, 't) ensemble =
    Shard_Ensemble "state_dict list" "'f preproc list"
  | Gbdt_Ensemble "'t list list"

section \<open>Scores\<close>

text \<open>One list per shard, one score per row.\<close>

definition mlp_probabilities ::
  "('f, 'o, 'g, 't) runtime \<Rightarrow> state_dict list \<Rightarrow> 'f preproc list \<Rightarrow> ('f, 'z) txn_scheme list \<Rightarrow> 'f list list res" where
  "mlp_probabilities rt models preprocs rows =
     bind_res (map_res (\<lambda>p. preproc_transform (rt_np rt) p rows) preprocs) (\<lambda>stacked.
     Inr (map (\<lambda>(m, x). map (\<lambda>row. sigmoid (rt_torch rt) (forward (rt_torch rt) m row)) x) (zip models stacked)))"

definition gbdt_probabilities ::
  "('f, 'o, 'g, 't) runtime \<Rightarrow> 't list list \<Rightarrow> ('f, 'z) txn_scheme list \<Rightarrow> 'f list list res" where
  "gbdt_probabilities rt boosters rows =
     bind_res (features (rt_np rt) rows) (\<lambda>matrix.
     Inr (map (\<lambda>b. map (xgb_score (rt_xgb rt) b) matrix) boosters))"

definition shard_probabilities ::
  "('f, 'o, 'g, 't) runtime \<Rightarrow> ('f, 't) ensemble \<Rightarrow> ('f, 'z) txn_scheme list \<Rightarrow> 'f list list res" where
  "shard_probabilities rt ens rows =
     (case ens of
        Shard_Ensemble models preprocs \<Rightarrow> mlp_probabilities rt models preprocs rows
      | Gbdt_Ensemble boosters \<Rightarrow> gbdt_probabilities rt boosters rows)"

lemmas probabilities_defs = shard_probabilities_def mlp_probabilities_def gbdt_probabilities_def

definition predict_proba ::
  "('f, 'o, 'g, 't) runtime \<Rightarrow> ('f, 't) ensemble \<Rightarrow> ('f, 'z) txn_scheme list \<Rightarrow> 'f list res" where
  "predict_proba rt ens rows =
     bind_res (shard_probabilities rt ens rows) (\<lambda>probs.
       Inr (map (\<lambda>j. np_mean (rt_np rt) (map (\<lambda>p. p ! j) probs)) [0..<length rows]))"

section \<open>Loading\<close>

definition read_weights :: "('f, 't) disk \<Rightarrow> string \<Rightarrow> state_dict res" where
  "read_weights d path = (case cas_file d path of Some (Weights_File st) \<Rightarrow> Inr st | _ \<Rightarrow> Inl OtherError)"

definition read_booster :: "('f, 't) disk \<Rightarrow> string \<Rightarrow> 't list res" where
  "read_booster d path = (case cas_file d path of Some (Booster_File b) \<Rightarrow> Inr b | _ \<Rightarrow> Inl OtherError)"

text \<open>\<open>g\<close> is the generator that initialises a model before its weights are replaced.\<close>

definition load_model :: "('f, 'o, 'g, 't) runtime \<Rightarrow> 'g \<Rightarrow> ('f, 't) disk \<Rightarrow> string \<Rightarrow> state_dict res" where
  "load_model rt g d path = bind_res (read_weights d path) (load_state_dict (build_model (rt_torch rt) g))"

definition load_preproc :: "('f, 'z) env_scheme \<Rightarrow> ('f, 't) disk \<Rightarrow> nat \<Rightarrow> 'f preproc res" where
  "load_preproc env d shard =
     (case preproc_json d (CHECKPOINT_DIR env, shard) of None \<Rightarrow> Inl OtherError | Some p \<Rightarrow> Inr p)"

definition load_shard_files ::
  "('f, 'o, 'g, 't) runtime \<Rightarrow> 'g \<Rightarrow> shard_paths \<Rightarrow> ('f, 't) disk \<Rightarrow> ('f, 't) ensemble res" where
  "load_shard_files rt g paths d =
     bind_res (map_res (\<lambda>(shard, path). bind_res (load_model rt g d path) (\<lambda>m.
                 bind_res (load_preproc (rt_env rt) d shard) (\<lambda>p. Inr (m, p)))) (sort_key fst paths))
       (\<lambda>mps. if mps = [] then Inl ValueError else Inr (Shard_Ensemble (map fst mps) (map snd mps)))"

definition load_gbdt_files :: "shard_paths \<Rightarrow> ('f, 't) disk \<Rightarrow> ('f, 't) ensemble res" where
  "load_gbdt_files paths d =
     bind_res (map_res (\<lambda>(shard, path). read_booster d path) (sort_key fst paths))
       (\<lambda>bs. if bs = [] then Inl ValueError else Inr (Gbdt_Ensemble bs))"

definition load_files ::
  "('f, 'o, 'g, 't) runtime \<Rightarrow> 'g \<Rightarrow> shard_paths \<Rightarrow> ('f, 't) disk \<Rightarrow> ('f, 't) ensemble res" where
  "load_files rt g paths d =
     (case rt_engine rt of ENGINE_MLP \<Rightarrow> load_shard_files rt g paths d | ENGINE_GBDT \<Rightarrow> load_gbdt_files paths d)"

lemmas load_files_defs = load_files_def load_shard_files_def load_gbdt_files_def

section \<open>The cache\<close>

type_synonym ensemble_key = "engine_kind \<times> (string \<times> string) list"
type_synonym ('f, 't) ensemble_cache = "ensemble_key \<rightharpoonup> ('f, 't) ensemble"

text \<open>\<open>tuple(sorted(shard_paths.items()))\<close>, tagged with the engine.\<close>

definition ensemble_key :: "engine_kind \<Rightarrow> shard_paths \<Rightarrow> ensemble_key" where
  "ensemble_key kind paths = (kind, sort (map (\<lambda>(k, p). (int_dec (int k), p)) paths))"

definition load_ensemble ::
  "('f, 'o, 'g, 't) runtime \<Rightarrow> 'g \<Rightarrow> shard_paths
    \<Rightarrow> (('f, 't) disk \<times> ('f, 't) ensemble_cache, ('f, 't) ensemble) io" where
  "load_ensemble rt g paths = (\<lambda>(d, cache).
     let key = ensemble_key (rt_engine rt) paths in
     case cache key of
       Some ens \<Rightarrow> (Inr ens, (d, cache))
     | None \<Rightarrow>
         (case load_files rt g paths d of
            Inl e \<Rightarrow> (Inl e, (d, cache))
          | Inr ens \<Rightarrow> (Inr ens, (d, cache(key \<mapsto> ens)))))"

definition clear_cache :: "('f, 't) disk \<times> ('f, 't) ensemble_cache \<Rightarrow> ('f, 't) disk \<times> ('f, 't) ensemble_cache" where
  "clear_cache s = (fst s, Map.empty)"

section \<open>Facts\<close>

text \<open>The models behind a set of paths, without their preprocessors.\<close>

definition models_of :: "('f, 't) ensemble \<Rightarrow> 't artifact list" where
  "models_of ens = (case ens of Shard_Ensemble ms ps \<Rightarrow> map Weights_File ms | Gbdt_Ensemble bs \<Rightarrow> map Booster_File bs)"

definition load_artifact :: "('f, 'o, 'g, 't) runtime \<Rightarrow> 'g \<Rightarrow> ('f, 't) disk \<Rightarrow> string \<Rightarrow> 't artifact res" where
  "load_artifact rt g d path =
     (case rt_engine rt of
        ENGINE_MLP \<Rightarrow> bind_res (load_model rt g d path) (\<lambda>m. Inr (Weights_File m))
      | ENGINE_GBDT \<Rightarrow> bind_res (read_booster d path) (\<lambda>b. Inr (Booster_File b)))"

definition load_models ::
  "('f, 'o, 'g, 't) runtime \<Rightarrow> 'g \<Rightarrow> shard_paths \<Rightarrow> ('f, 't) disk \<Rightarrow> 't artifact list res" where
  "load_models rt g paths d = map_res (\<lambda>(shard, path). load_artifact rt g d path) (sort_key fst paths)"

lemma load_files_models:
  assumes "load_files rt g paths d = Inr ens"
  shows "load_models rt g paths d = Inr (models_of ens)"
proof -
  have mlp: "map_res (\<lambda>(shard, path). bind_res (load_model rt g d path) (\<lambda>m.
        bind_res (load_preproc (rt_env rt) d shard) (\<lambda>p. Inr (m, p)))) xs = Inr mps
      \<Longrightarrow> map_res (\<lambda>(shard, path). bind_res (load_model rt g d path) (\<lambda>m. Inr (Weights_File m))) xs
        = Inr (map (Weights_File \<circ> fst) mps)" for xs mps
    by (induction xs arbitrary: mps) (auto simp: res_simps split: prod.splits)
  have gbdt: "map_res (\<lambda>(shard, path). read_booster d path) xs = Inr bs
      \<Longrightarrow> map_res (\<lambda>(shard, path). bind_res (read_booster d path) (\<lambda>b. Inr (Booster_File b))) xs
        = Inr (map Booster_File bs)" for xs bs
    by (induction xs arbitrary: bs) (auto simp: res_simps split: prod.splits)
  show ?thesis
    using assms mlp gbdt
    by (cases "rt_engine rt")
      (auto simp: load_files_defs load_models_def load_artifact_def models_of_def res_simps comp_def split: if_splits)
qed

lemma sort_key_unique:
  assumes "distinct (map fst xs)" "distinct (map fst ys)" "set xs = set ys"
  shows "sort_key fst xs = sort_key fst (ys :: (nat \<times> 'b) list)"
  by (rule map_sorted_distinct_set_unique [where f = fst]) (use assms in \<open>auto simp: distinct_map\<close>)

lemma ensemble_key_paths:
  assumes "ensemble_key kind xs = ensemble_key kind ys" "distinct (map fst xs)" "distinct (map fst ys)"
  shows "sort_key fst xs = sort_key fst ys"
proof -
  let ?f = "\<lambda>(k :: nat, p :: string). (int_dec (int k), p)"
  have "set (map ?f xs) = set (map ?f ys)" using assms(1) unfolding ensemble_key_def by (metis prod.inject set_sort)
  then have "?f ` set xs = ?f ` set ys" by simp
  moreover have "inj ?f" by (auto simp: inj_def)
  ultimately have "set xs = set ys" by (simp only: inj_image_eq_iff)
  with assms(2,3) show ?thesis by (rule sort_key_unique)
qed

text \<open>Every cached ensemble has the models of the files that its key names.\<close>

definition cache_ok :: "('f, 'o, 'g, 't) runtime \<Rightarrow> 'g \<Rightarrow> ('f, 't) disk \<Rightarrow> ('f, 't) ensemble_cache \<Rightarrow> bool" where
  "cache_ok rt g d cache \<longleftrightarrow> (\<forall>paths ens. distinct (map fst paths) \<longrightarrow> cache (ensemble_key (rt_engine rt) paths) = Some ens
     \<longrightarrow> load_models rt g paths d = Inr (models_of ens))"

lemma load_models_key:
  "ensemble_key kind xs = ensemble_key kind ys \<Longrightarrow> distinct (map fst xs) \<Longrightarrow> distinct (map fst ys)
    \<Longrightarrow> load_models rt g xs d = load_models rt g ys d"
  unfolding load_models_def by (drule (2) ensemble_key_paths) simp

lemma load_artifact_grows:
  assumes "load_artifact rt g d path = Inr art" "\<And>p. cas_file d p \<noteq> None \<Longrightarrow> cas_file d' p = cas_file d p"
  shows "load_artifact rt g d' path = Inr art"
proof -
  have "cas_file d path \<noteq> None"
  proof
    assume "cas_file d path = None"
    with assms(1) show False
      by (cases "rt_engine rt") (simp_all add: load_artifact_def load_model_def read_weights_def read_booster_def)
  qed
  from assms(2) [OF this] have "load_artifact rt g d' path = load_artifact rt g d path"
    by (cases "rt_engine rt") (simp_all add: load_artifact_def load_model_def read_weights_def read_booster_def)
  with assms(1) show ?thesis by (simp only:)
qed

lemma load_models_grow:
  assumes "load_models rt g paths d = Inr ms" "\<And>p. cas_file d p \<noteq> None \<Longrightarrow> cas_file d' p = cas_file d p"
  shows "load_models rt g paths d' = Inr ms"
proof -
  have "map_res (\<lambda>(shard, path). load_artifact rt g d path) xs = Inr ms
      \<Longrightarrow> map_res (\<lambda>(shard, path). load_artifact rt g d' path) xs = Inr ms" for xs ms
    by (induction xs arbitrary: ms) (auto simp: res_simps load_artifact_grows [OF _ assms(2)] split: prod.splits)
  with assms(1) show ?thesis by (simp add: load_models_def)
qed

lemma load_ensemble_current:
  assumes "cache_ok rt g d cache" "distinct (map fst paths)"
    and "load_ensemble rt g paths (d, cache) = (r, (d', cache'))"
  shows "d' = d \<and> (case r of Inr ens \<Rightarrow> load_models rt g paths d = Inr (models_of ens) | Inl _ \<Rightarrow> cache' = cache)
     \<and> (\<forall>d2. (\<forall>p. cas_file d p \<noteq> None \<longrightarrow> cas_file d2 p = cas_file d p) \<longrightarrow> cache_ok rt g d2 cache')"
proof -
  have grow: "cache_ok rt g d2 c" if "cache_ok rt g d c" "\<forall>p. cas_file d p \<noteq> None \<longrightarrow> cas_file d2 p = cas_file d p" for d2 c
    unfolding cache_ok_def
  proof (intro allI impI)
    fix ps e assume "distinct (map fst ps)" "c (ensemble_key (rt_engine rt) ps) = Some e"
    then have "load_models rt g ps d = Inr (models_of e)" using that(1) unfolding cache_ok_def by blast
    then show "load_models rt g ps d2 = Inr (models_of e)" by (rule load_models_grow) (use that(2) in blast)
  qed
  let ?k = "ensemble_key (rt_engine rt) paths"
  show ?thesis
  proof (cases "cache ?k")
    case (Some ens)
    with assms(3) have "r = Inr ens" "d' = d" "cache' = cache" by (auto simp: load_ensemble_def)
    moreover have "load_models rt g paths d = Inr (models_of ens)" using assms(1,2) Some unfolding cache_ok_def by blast
    moreover have "\<forall>d2. (\<forall>p. cas_file d p \<noteq> None \<longrightarrow> cas_file d2 p = cas_file d p) \<longrightarrow> cache_ok rt g d2 cache"
      using grow [OF assms(1)] by blast
    ultimately show ?thesis by simp
  next
    case None
    show ?thesis
    proof (cases "load_files rt g paths d")
      case (Inl e)
      with assms(3) None have "r = Inl e" "d' = d" "cache' = cache" by (auto simp: load_ensemble_def)
      moreover have "\<forall>d2. (\<forall>p. cas_file d p \<noteq> None \<longrightarrow> cas_file d2 p = cas_file d p) \<longrightarrow> cache_ok rt g d2 cache"
        using grow [OF assms(1)] by blast
      ultimately show ?thesis by simp
    next
      case (Inr ens)
      with assms(3) None have r: "r = Inr ens" "d' = d" "cache' = cache(?k \<mapsto> ens)" by (auto simp: load_ensemble_def)
      note models = load_files_models [OF Inr]
      have "cache_ok rt g d cache'"
        unfolding cache_ok_def
      proof (intro allI impI)
        fix ps e assume ps: "distinct (map fst ps)" and hit: "cache' (ensemble_key (rt_engine rt) ps) = Some e"
        show "load_models rt g ps d = Inr (models_of e)"
        proof (cases "ensemble_key (rt_engine rt) ps = ?k")
          case True
          with hit r(3) have "e = ens" by simp
          with models show ?thesis by (simp add: load_models_key [OF True ps assms(2)])
        next
          case False
          with hit r(3) have "cache (ensemble_key (rt_engine rt) ps) = Some e" by simp
          with assms(1) ps show ?thesis unfolding cache_ok_def by blast
        qed
      qed
      then have "\<forall>d2. (\<forall>p. cas_file d p \<noteq> None \<longrightarrow> cas_file d2 p = cas_file d p) \<longrightarrow> cache_ok rt g d2 cache'"
        using grow by blast
      with r models show ?thesis by simp
    qed
  qed
qed

section \<open>Properties\<close>

text \<open>
  Serving uses the models that the paths name. Whether an ensemble comes from the cache
  or from the files, its models are the ones in the content-addressed files at the given
  paths; a failed load leaves the cache alone, and the cache stays right whatever happens
  to the other files and whatever is added to the directory.
\<close>

theorem served_models_current:
  assumes "cache_ok rt g d cache" "distinct (map fst paths)"
    and "load_ensemble rt g paths (d, cache) = (r, (d', cache'))"
  shows "d' = d \<and> (case r of Inr ens \<Rightarrow> load_models rt g paths d = Inr (models_of ens) | Inl _ \<Rightarrow> cache' = cache)
     \<and> (\<forall>d2. (\<forall>p. cas_file d p \<noteq> None \<longrightarrow> cas_file d2 p = cas_file d p) \<longrightarrow> cache_ok rt g d2 cache')"
  using load_ensemble_current [OF assms] by blast

definition small_paths :: shard_paths where
  "small_paths = [(0, ''cas/b.json'')]"

definition small_cas_disk :: "(int, int) disk" where
  "small_cas_disk = small_disk 3\<lparr>cas_file := [''cas/b.json'' \<mapsto> Booster_File [13, 22]]\<rparr>"

theorem served_models_current_witness:
  "\<exists>cache. load_ensemble (small_runtime ENGINE_GBDT) 0 small_paths (small_cas_disk, Map.empty)
     = (Inr (Gbdt_Ensemble [[13, 22]]), (small_cas_disk, cache)) \<and> cache_ok (small_runtime ENGINE_GBDT) 0 (small_disk 9\<lparr>cas_file := cas_file small_cas_disk\<rparr>) cache"
proof -
  have "load_files (small_runtime ENGINE_GBDT) 0 small_paths small_cas_disk = Inr (Gbdt_Ensemble [[13, 22]])"
    by (simp add: load_files_defs small_runtime_def small_paths_def read_booster_def small_cas_disk_def)
  then obtain cache where run: "load_ensemble (small_runtime ENGINE_GBDT) 0 small_paths (small_cas_disk, Map.empty)
      = (Inr (Gbdt_Ensemble [[13, 22]]), (small_cas_disk, cache))"
    by (simp add: load_ensemble_def)
  have "cache_ok (small_runtime ENGINE_GBDT) 0 small_cas_disk Map.empty" "distinct (map fst small_paths)"
    by (simp_all add: cache_ok_def small_paths_def)
  from served_models_current [OF this run] run show ?thesis by auto
qed

end
