(* ===== verification/Database.thy ===== *)
theory Database
  imports Ensemble Eval
begin

text \<open>
  The tables of \<open>db/schema.sql\<close> that the services use, and the state of a process over
  them. Times are integers (seconds); a statement runs at the start time of its
  transaction, as \<open>now()\<close> does. \<open>erasure_id\<close> is the text form of the UUID.
\<close>

section \<open>Tables\<close>

datatype job_status = Queued | Processing | Done | Failed

text \<open>\<open>last_error\<close>: the text the worker writes, by its two forms.\<close>

datatype job_error = Rebuild_Failed py_exc | Bookkeeping_Failed py_exc nat

record job =
  j_id :: string
  j_ref :: string
  j_reason :: string
  j_shard :: nat
  j_status :: job_status
  j_key :: string
  j_lease :: "int option"
  j_worker :: "string option"
  j_attempts :: nat
  j_error :: "job_error option"
  j_deadline :: int
  j_by :: string
  j_created :: int
  j_completed :: "int option"

text \<open>
  \<open>manifest_json\<close> is what reading the JSONB value back gives; the other columns repeat
  fields of it. The order of the keys of a JSONB object is that of \<open>reload\<close> here.
\<close>

record manifest_row =
  m_id :: string
  m_columns :: "(string \<times> pyval) list"
  m_json :: pyval
  m_created :: int

record check_row =
  r_id :: string
  r_expected :: string
  r_observed :: string
  r_matched :: bool
  r_code :: string

record version_row =
  v_name :: string
  v_checkpoints :: "(nat \<times> string) list"
  v_eval_set :: string
  v_promoted :: int

record checkpoint_row =
  k_hash :: string
  k_shard :: nat
  k_slice :: int
  k_path :: string
  k_code :: string

record eval_row =
  e_version :: string
  e_auc :: rat
  e_n :: nat
  e_computed :: int

record db =
  subject_shard_map :: routing
  erasure_jobs :: "job list"
  erasure_manifests :: "manifest_row list"
  reproducibility_checks :: "check_row list"
  model_versions :: "version_row list"
  checkpoints :: "checkpoint_row list"
  eval_results :: "eval_row list"

text \<open>\<open>INSERT ... ON CONFLICT (key) DO NOTHING\<close> and a plain \<open>INSERT\<close>, which raises.\<close>

definition insert_new :: "('r \<Rightarrow> 'k) \<Rightarrow> 'r \<Rightarrow> 'r list \<Rightarrow> 'r list" where
  "insert_new key r rows = (if key r \<in> key ` set rows then rows else rows @ [r])"

definition insert_row :: "('r \<Rightarrow> 'k) \<Rightarrow> 'r \<Rightarrow> 'r list \<Rightarrow> 'r list res" where
  "insert_row key r rows = (if key r \<in> key ` set rows then Inl DatabaseError else Inr (rows @ [r]))"

text \<open>
  \<open>ORDER BY time DESC LIMIT 1\<close>. Which of several newest rows comes first is not specified;
  \<open>pick\<close> is the choice.
\<close>

definition newest :: "('r list \<Rightarrow> 'r) \<Rightarrow> ('r \<Rightarrow> int) \<Rightarrow> 'r list \<Rightarrow> 'r option" where
  "newest pick time rows =
     (if rows = [] then None else Some (pick (filter (\<lambda>r. time r = Max (time ` set rows)) rows)))"

section \<open>A process and its transaction\<close>

text \<open>
  \<open>w_failed\<close>: a statement of the open transaction has raised, so that Postgres refuses
  every further one until the rollback.
\<close>

record ('f, 't) world =
  w_disk :: "('f, 't) disk"
  w_cache :: "('f, 't) ensemble_cache"
  w_db :: db
  w_failed :: bool

definition on_disk :: "(('f, 't) disk, 'a) io \<Rightarrow> (('f, 't) world, 'a) io" where
  "on_disk m w = (let (r, d) = m (w_disk w) in (r, w\<lparr>w_disk := d\<rparr>))"

definition on_models :: "(('f, 't) disk \<times> ('f, 't) ensemble_cache, 'a) io \<Rightarrow> (('f, 't) world, 'a) io" where
  "on_models m w = (let (r, (d, c)) = m (w_disk w, w_cache w) in (r, w\<lparr>w_disk := d, w_cache := c\<rparr>))"

definition execute :: "(db \<Rightarrow> ('a \<times> db) res) \<Rightarrow> (('f, 't) world, 'a) io" where
  "execute stmt w =
     (if w_failed w then (Inl DatabaseError, w)
      else case stmt (w_db w) of
        Inl e \<Rightarrow> (Inl e, w\<lparr>w_failed := True\<rparr>)
      | Inr (x, db) \<Rightarrow> (Inr x, w\<lparr>w_db := db\<rparr>))"

definition select :: "(db \<Rightarrow> 'a) \<Rightarrow> (('f, 't) world, 'a) io" where
  "select f = execute (\<lambda>db. Inr (f db, db))"

definition update :: "(db \<Rightarrow> db) \<Rightarrow> (('f, 't) world, unit) io" where
  "update f = execute (\<lambda>db. Inr ((), f db))"

text \<open>
  \<open>with conn: ...\<close>: the changes to the tables are kept if the body returns, and undone if
  it raises; committing a failed transaction undoes them too.
\<close>

definition transaction :: "(('f, 't) world, 'a) io \<Rightarrow> (('f, 't) world, 'a) io" where
  "transaction m w =
     (case m (w\<lparr>w_failed := False\<rparr>) of
        (Inl e, w') \<Rightarrow> (Inl e, w'\<lparr>w_db := w_db w, w_failed := False\<rparr>)
      | (Inr x, w') \<Rightarrow>
          (Inr x, if w_failed w' then w'\<lparr>w_db := w_db w, w_failed := False\<rparr> else w'))"

section \<open>What keeps a property of the files and the tables\<close>

definition wpred :: "(('f, 't) disk \<Rightarrow> db \<Rightarrow> bool) \<Rightarrow> ('f, 't) world \<Rightarrow> bool" where
  "wpred A w \<longleftrightarrow> A (w_disk w) (w_db w)"

lemma keeps_on_disk: "(\<And>db. keeps (\<lambda>d. A d db) m) \<Longrightarrow> keeps (wpred A) (on_disk m)"
  by (simp add: keeps_def on_disk_def wpred_def case_prod_beta)

lemma keeps_on_models: "(\<And>d c. fst (snd (m (d, c))) = d) \<Longrightarrow> keeps (wpred A) (on_models m)"
  by (simp add: keeps_def on_models_def wpred_def case_prod_beta)

lemma keeps_execute:
  assumes "\<And>d db x db'. A d db \<Longrightarrow> stmt db = Inr (x, db') \<Longrightarrow> A d db'"
  shows "keeps (wpred A) (execute stmt)"
  unfolding keeps_def
proof (intro allI impI)
  fix w :: "('a, 'b) world" assume w: "wpred A w"
  show "wpred A (snd (execute stmt w))"
  proof (cases "w_failed w")
    case False
    with w show ?thesis
      by (cases "stmt (w_db w)") (auto simp: execute_def wpred_def intro: assms)
  qed (use w in \<open>simp add: execute_def\<close>)
qed

lemma keeps_select [keeps_intros]: "keeps (wpred A) (select f)"
  unfolding select_def by (rule keeps_execute) simp

lemma keeps_update: "(\<And>d db. A d db \<Longrightarrow> A d (f db)) \<Longrightarrow> keeps (wpred A) (update f)"
  unfolding update_def by (rule keeps_execute) force

text \<open>After a rollback the files are new and the tables are old, so \<open>A\<close> is needed of both.\<close>

lemma keeps_transaction:
  assumes "\<And>old. keeps (wpred (\<lambda>d db. A d db \<and> A d old)) m"
  shows "keeps (wpred A) (transaction m)"
proof -
  have "wpred A (snd (transaction m w))" if "wpred A w" for w
  proof -
    obtain r w' where m: "m (w\<lparr>w_failed := False\<rparr>) = (r, w')" by (cases "m (w\<lparr>w_failed := False\<rparr>)")
    have "wpred (\<lambda>d db. A d db \<and> A d (w_db w)) w'"
      using keepsD [OF assms [of "w_db w"] _ m] that by (simp add: wpred_def)
    then show ?thesis by (cases r) (simp_all add: transaction_def m wpred_def)
  qed
  then show ?thesis by (simp add: keeps_def)
qed

text \<open>The same for triples, and the runs that return.\<close>

lemma hoare_execute:
  assumes "\<And>d db x db'. A d db \<Longrightarrow> stmt db = Inr (x, db') \<Longrightarrow> B x d db'" "\<And>d db. A d db \<Longrightarrow> E d db"
  shows "hoare (wpred A) (execute stmt) (\<lambda>x. wpred (B x)) (wpred E)"
proof (rule hoareI)
  fix w x w' assume w: "wpred A w" "execute stmt w = (Inr x, w')"
  then obtain db' where "stmt (w_db w) = Inr (x, db')" "w' = w\<lparr>w_db := db'\<rparr>"
    by (auto simp: execute_def split: if_splits sum.splits)
  then show "wpred (B x) w'" using w(1) assms(1) by (simp add: wpred_def)
next
  fix w e w' assume w: "wpred A w" "execute stmt w = (Inl e, w')"
  then have "w_disk w' = w_disk w" "w_db w' = w_db w" by (auto simp: execute_def split: if_splits sum.splits)
  with w(1) assms(2) show "wpred E w'" by (simp add: wpred_def)
qed

lemma hoare_update:
  assumes "\<And>d db. A d db \<Longrightarrow> B d (f db)" "\<And>d db. A d db \<Longrightarrow> E d db"
  shows "hoare (wpred A) (update f) (\<lambda>_. wpred B) (wpred E)"
  unfolding update_def by (rule hoare_execute) (use assms in force)+

lemma hoare_on_disk:
  assumes "\<And>db. hoare (\<lambda>d. A d db) m (\<lambda>x d. B x d db) (\<lambda>d. E d db)"
  shows "hoare (wpred A) (on_disk m) (\<lambda>x. wpred (B x)) (wpred E)"
proof (rule hoareI)
  fix w x w' assume w: "wpred A w" "on_disk m w = (Inr x, w')"
  then have "m (w_disk w) = (Inr x, w_disk w')" "w_db w' = w_db w" by (auto simp: on_disk_def split: prod.splits)
  with hoareD [OF assms] w(1) show "wpred (B x) w'" unfolding wpred_def by metis
next
  fix w e w' assume w: "wpred A w" "on_disk m w = (Inl e, w')"
  then have "m (w_disk w) = (Inl e, w_disk w')" "w_db w' = w_db w" by (auto simp: on_disk_def split: prod.splits)
  with hoare_raise [OF assms] w(1) show "wpred E w'" unfolding wpred_def by metis
qed

lemma execute_Inr [io_simps]:
  "execute stmt w = (Inr x, w') \<longleftrightarrow> \<not> w_failed w \<and> (\<exists>db. stmt (w_db w) = Inr (x, db) \<and> w' = w\<lparr>w_db := db\<rparr>)"
  by (auto simp: execute_def split: sum.splits)

lemma update_Inr [io_simps]: "update f w = (Inr x, w') \<longleftrightarrow> \<not> w_failed w \<and> w' = w\<lparr>w_db := f (w_db w)\<rparr>"
  by (auto simp: update_def execute_Inr)

lemma select_Inr [io_simps]: "select f w = (Inr x, w') \<longleftrightarrow> \<not> w_failed w \<and> x = f (w_db w) \<and> w' = w"
  by (auto simp: select_def execute_Inr)

lemma on_disk_Inr [io_simps]: "on_disk m w = (Inr x, w') \<longleftrightarrow> (\<exists>d. m (w_disk w) = (Inr x, d) \<and> w' = w\<lparr>w_disk := d\<rparr>)"
  by (auto simp: on_disk_def split: prod.splits)

lemma on_models_Inr [io_simps]:
  "on_models m w = (Inr x, w') \<longleftrightarrow> (\<exists>d c. m (w_disk w, w_cache w) = (Inr x, (d, c)) \<and> w' = w\<lparr>w_disk := d, w_cache := c\<rparr>)"
  by (auto simp: on_models_def split: prod.splits)

end
