(* ===== verification/Queue.thy ===== *)
theory Queue
  imports Database
begin

text \<open>
  \<open>worker/queue.py\<close> and \<open>gateway/idempotency.py\<close>: jobs enter the queue once per caller and
  key, are leased to a worker, and go back to the queue when the lease expires.
\<close>

section \<open>Intake\<close>

text \<open>\<open>new_id\<close> is the fresh UUID; the table's checks raise a database error.\<close>

definition reasons :: "string list" where
  "reasons = [''consent_revocation'', ''fraud_excision'']"

definition new_job ::
  "string \<Rightarrow> string \<Rightarrow> string \<Rightarrow> nat \<Rightarrow> string \<Rightarrow> int \<Rightarrow> string \<Rightarrow> int \<Rightarrow> job" where
  "new_job new_id ref reason shard key deadline caller now =
     \<lparr>j_id = new_id, j_ref = ref, j_reason = reason, j_shard = shard, j_status = Queued, j_key = key,
      j_lease = None, j_worker = None, j_attempts = 0, j_error = None, j_deadline = deadline,
      j_by = caller, j_created = now, j_completed = None\<rparr>"

definition job_with_key :: "string \<Rightarrow> string \<Rightarrow> job list \<Rightarrow> job option" where
  "job_with_key caller key jobs = List.find (\<lambda>j. j_by j = caller \<and> j_key j = key) jobs"

definition insert_or_get ::
  "string \<Rightarrow> int \<Rightarrow> string \<Rightarrow> string \<Rightarrow> nat \<Rightarrow> string \<Rightarrow> int \<Rightarrow> string \<Rightarrow> db \<Rightarrow> ((string \<times> bool) \<times> db) res" where
  "insert_or_get new_id now ref reason shard key deadline caller db =
     (if reason \<notin> set reasons then Inl DatabaseError
      else case job_with_key caller key (erasure_jobs db) of
        Some j \<Rightarrow> Inr ((j_id j, False), db)
      | None \<Rightarrow>
          bind_res (insert_row j_id (new_job new_id ref reason shard key deadline caller now) (erasure_jobs db))
            (\<lambda>jobs. Inr ((new_id, True), db\<lparr>erasure_jobs := jobs\<rparr>)))"

section \<open>Leases\<close>

definition expired :: "int \<Rightarrow> job \<Rightarrow> bool" where
  "expired now j \<longleftrightarrow> j_status j = Processing \<and> (case j_lease j of Some t \<Rightarrow> t < now | None \<Rightarrow> False)"

definition requeue :: "job \<Rightarrow> job" where
  "requeue j = j\<lparr>j_status := Queued, j_worker := None, j_lease := None\<rparr>"

definition reap_expired_leases :: "int \<Rightarrow> db \<Rightarrow> nat \<times> db" where
  "reap_expired_leases now db =
     (length (filter (expired now) (erasure_jobs db)),
      db\<lparr>erasure_jobs := map (\<lambda>j. if expired now j then requeue j else j) (erasure_jobs db)\<rparr>)"

record claimed =
  c_id :: string
  c_ref :: string
  c_shard :: nat

text \<open>
  \<open>ORDER BY shard, sla_deadline LIMIT limit\<close>; rows with the same shard and deadline come in
  the order of the table, which is one of the orders that Postgres may choose. \<open>locked\<close> are
  the rows that other transactions hold, which SKIP LOCKED passes over.
\<close>

definition claimable :: "string set \<Rightarrow> nat \<Rightarrow> job list \<Rightarrow> string list" where
  "claimable locked limit jobs =
     map j_id (take limit (sort_key (\<lambda>j. (j_shard j, j_deadline j))
       (filter (\<lambda>j. j_status j = Queued \<and> j_id j \<notin> locked) jobs)))"

definition lease_job :: "string \<Rightarrow> int \<Rightarrow> job \<Rightarrow> job" where
  "lease_job worker until j =
     j\<lparr>j_status := Processing, j_worker := Some worker, j_lease := Some until, j_attempts := Suc (j_attempts j)\<rparr>"

definition claim_batch ::
  "string \<Rightarrow> int \<Rightarrow> int \<Rightarrow> string set \<Rightarrow> nat \<Rightarrow> db \<Rightarrow> claimed list \<times> db" where
  "claim_batch worker now lease_seconds locked limit db =
     (let ids = claimable locked limit (erasure_jobs db);
          returned = filter (\<lambda>j. j_id j \<in> set ids) (erasure_jobs db)
      in (sort_key c_shard (map (\<lambda>j. \<lparr>c_id = j_id j, c_ref = j_ref j, c_shard = j_shard j\<rparr>) returned),
          db\<lparr>erasure_jobs := map (\<lambda>j. if j_id j \<in> set ids then lease_job worker (now + lease_seconds) j else j)
               (erasure_jobs db)\<rparr>))"

section \<open>The end of a job\<close>

definition set_failed :: "job_error \<Rightarrow> string set \<Rightarrow> db \<Rightarrow> db" where
  "set_failed err ids db =
     db\<lparr>erasure_jobs := map (\<lambda>j. if j_id j \<in> ids
          then j\<lparr>j_status := Failed, j_error := Some err, j_worker := None, j_lease := None\<rparr> else j) (erasure_jobs db)\<rparr>"

definition set_done :: "int \<Rightarrow> string \<Rightarrow> db \<Rightarrow> db" where
  "set_done now i db =
     db\<lparr>erasure_jobs := map (\<lambda>j. if j_id j = i
          then j\<lparr>j_status := Done, j_completed := Some now, j_worker := None, j_lease := None\<rparr> else j) (erasure_jobs db)\<rparr>"

section \<open>The invariant of the tables\<close>

text \<open>
  Identifiers and the keys of a caller are unique, a job has a lease exactly while it is
  being processed, and a job that is done has a certificate and a completion time.
\<close>

definition job_ok :: "manifest_row list \<Rightarrow> job \<Rightarrow> bool" where
  "job_ok ms j \<longleftrightarrow> j_reason j \<in> set reasons
     \<and> (j_status j = Processing \<longleftrightarrow> j_lease j \<noteq> None) \<and> (j_lease j = None \<longleftrightarrow> j_worker j = None)
     \<and> (j_status j = Done \<longrightarrow> j_id j \<in> m_id ` set ms \<and> j_completed j \<noteq> None)
     \<and> (j_status j = Failed \<longrightarrow> j_error j \<noteq> None) \<and> (j_status j = Processing \<longrightarrow> 0 < j_attempts j)"

definition db_ok :: "db \<Rightarrow> bool" where
  "db_ok db \<longleftrightarrow> distinct (map j_id (erasure_jobs db))
     \<and> distinct (map (\<lambda>j. (j_by j, j_key j)) (erasure_jobs db))
     \<and> list_all (job_ok (erasure_manifests db)) (erasure_jobs db)"

lemma job_with_key_None: "job_with_key caller key jobs = None \<longleftrightarrow> (caller, key) \<notin> (\<lambda>j. (j_by j, j_key j)) ` set jobs"
  by (auto simp: job_with_key_def find_None_iff)

lemma job_with_key_Some: "job_with_key caller key jobs = Some j \<Longrightarrow> j \<in> set jobs \<and> j_by j = caller \<and> j_key j = key"
  by (auto simp: job_with_key_def find_Some_iff)

lemma job_with_key_snoc:
  "job_with_key caller key jobs = None \<Longrightarrow> j_by j = caller \<Longrightarrow> j_key j = key
    \<Longrightarrow> job_with_key caller key (jobs @ [j]) = Some j"
  by (induction jobs) (auto simp: job_with_key_def split: if_splits)

text \<open>An update that keeps identifiers, callers and keys.\<close>

lemma db_ok_map:
  assumes "db_ok db" "\<And>j. j_id (f j) = j_id j" "\<And>j. j_by (f j) = j_by j" "\<And>j. j_key (f j) = j_key j"
    and "\<And>j. j \<in> set (erasure_jobs db) \<Longrightarrow> job_ok (erasure_manifests db) j \<Longrightarrow> job_ok (erasure_manifests db) (f j)"
  shows "db_ok (db\<lparr>erasure_jobs := map f (erasure_jobs db)\<rparr>)"
  using assms by (auto simp: db_ok_def comp_def list_all_iff)

lemma db_ok_insert:
  assumes "db_ok db" "insert_or_get new_id now ref reason shard key deadline caller db = Inr (x, db')"
  shows "db_ok db'"
proof (cases "job_with_key caller key (erasure_jobs db)")
  case None
  with assms(2) have db': "new_id \<notin> j_id ` set (erasure_jobs db)" "reason \<in> set reasons"
      "db' = db\<lparr>erasure_jobs := erasure_jobs db @ [new_job new_id ref reason shard key deadline caller now]\<rparr>"
    by (auto simp: insert_or_get_def insert_row_def res_simps new_job_def split: if_splits)
  then show ?thesis
    using assms(1) None by (auto simp: db_ok_def job_with_key_None new_job_def job_ok_def)
next
  case (Some j)
  with assms show ?thesis by (auto simp: insert_or_get_def split: if_splits)
qed

lemma db_ok_reap: "db_ok db \<Longrightarrow> db_ok (snd (reap_expired_leases now db))"
  unfolding reap_expired_leases_def snd_conv
  by (rule db_ok_map) (auto simp: requeue_def job_ok_def)

lemma db_ok_claim: "db_ok db \<Longrightarrow> db_ok (snd (claim_batch worker now secs locked limit db))"
  unfolding claim_batch_def Let_def snd_conv
  by (rule db_ok_map) (auto simp: lease_job_def job_ok_def)

lemma db_ok_failed: "db_ok db \<Longrightarrow> db_ok (set_failed err ids db)"
  unfolding set_failed_def by (rule db_ok_map) (auto simp: job_ok_def)

lemma db_ok_done: "db_ok db \<Longrightarrow> i \<in> m_id ` set (erasure_manifests db) \<Longrightarrow> db_ok (set_done now i db)"
  unfolding set_done_def by (rule db_ok_map) (auto simp: job_ok_def)

lemma db_ok_manifest: "db_ok db \<Longrightarrow> set (erasure_manifests db) \<subseteq> set ms \<Longrightarrow> db_ok (db\<lparr>erasure_manifests := ms\<rparr>)"
  unfolding db_ok_def job_ok_def list_all_iff by (fastforce dest: image_mono [of _ _ m_id])

section \<open>What a claim takes\<close>

lemma queue_order:
  defines "q \<equiv> \<lambda>locked jobs. sort_key (\<lambda>j. (j_shard j, j_deadline j)) (filter (\<lambda>j. j_status j = Queued \<and> j_id j \<notin> locked) jobs)"
  shows "set (q locked jobs) = {j \<in> set jobs. j_status j = Queued \<and> j_id j \<notin> locked}"
    and "distinct (map j_id jobs) \<Longrightarrow> distinct (map j_id (q locked jobs))"
    and "sorted (map (\<lambda>j. (j_shard j, j_deadline j)) (q locked jobs))"
  by (auto simp: q_def distinct_map inj_on_def)

lemma sorted_take_drop:
  "sorted (map f xs) \<Longrightarrow> x \<in> set (take n xs) \<Longrightarrow> y \<in> set (drop n xs) \<Longrightarrow> f x \<le> f y"
proof -
  assume "sorted (map f xs)" "x \<in> set (take n xs)" "y \<in> set (drop n xs)"
  moreover have "map f xs = map f (take n xs) @ map f (drop n xs)" by (simp flip: map_append)
  ultimately show ?thesis by (auto simp: sorted_append)
qed

text \<open>
  The identifiers that a claim takes: at most \<open>limit\<close> queued jobs, none twice, everything
  that is not taken comes later in the order, and nothing is left when there is room.
\<close>

lemma claimable_facts:
  assumes "distinct (map j_id jobs)"
  shows "distinct (claimable locked limit jobs)" "length (claimable locked limit jobs) \<le> limit"
    and "j \<in> set jobs \<Longrightarrow> j_id j \<in> set (claimable locked limit jobs) \<Longrightarrow> j_status j = Queued \<and> j_id j \<notin> locked"
    and "set (claimable locked limit jobs) \<subseteq> j_id ` set jobs"
    and "j \<in> set jobs \<Longrightarrow> j_status j = Queued \<Longrightarrow> j_id j \<notin> locked \<Longrightarrow> j_id j \<notin> set (claimable locked limit jobs)
      \<Longrightarrow> length (claimable locked limit jobs) = limit
        \<and> (\<forall>k\<in>set jobs. j_id k \<in> set (claimable locked limit jobs) \<longrightarrow> (j_shard k, j_deadline k) \<le> (j_shard j, j_deadline j))"
proof -
  define q where "q = sort_key (\<lambda>j. (j_shard j, j_deadline j)) (filter (\<lambda>j. j_status j = Queued \<and> j_id j \<notin> locked) jobs)"
  have c: "claimable locked limit jobs = map j_id (take limit q)" by (simp add: claimable_def q_def)
  have q: "set q = {j \<in> set jobs. j_status j = Queued \<and> j_id j \<notin> locked}" "distinct (map j_id q)"
      "sorted (map (\<lambda>j. (j_shard j, j_deadline j)) q)"
    using queue_order [where locked = locked and jobs = jobs] assms by (simp_all add: q_def)
  have inj: "j = k" if "j \<in> set jobs" "k \<in> set jobs" "j_id j = j_id k" for j k
    using assms that by (auto simp: distinct_map dest: inj_onD)
  have member: "k \<in> set (take limit q)" if k: "k \<in> set jobs" "j_id k \<in> set (claimable locked limit jobs)" for k
  proof -
    from k(2) obtain k' where "k' \<in> set (take limit q)" "j_id k' = j_id k" by (auto simp: c)
    moreover from this have "k' \<in> set jobs" using q(1) set_take_subset by fastforce
    ultimately show ?thesis using inj k(1) by metis
  qed
  show "distinct (claimable locked limit jobs)" unfolding c using q(2) by (metis distinct_take take_map)
  show "length (claimable locked limit jobs) \<le> limit" by (simp add: c)
  show "set (claimable locked limit jobs) \<subseteq> j_id ` set jobs" using q(1) set_take_subset by (fastforce simp: c)
  show "j \<in> set jobs \<Longrightarrow> j_id j \<in> set (claimable locked limit jobs) \<Longrightarrow> j_status j = Queued \<and> j_id j \<notin> locked"
    using member q(1) set_take_subset by fastforce
  assume j: "j \<in> set jobs" "j_status j = Queued" "j_id j \<notin> locked" "j_id j \<notin> set (claimable locked limit jobs)"
  then have "j \<in> set q" "j \<notin> set (take limit q)" using q(1) by (auto simp: c)
  then have drop: "j \<in> set (drop limit q)" by (metis UnE append_take_drop_id set_append)
  then have "limit < length q" by (metis drop_all empty_iff list.set(1) not_le)
  then have "length (claimable locked limit jobs) = limit" by (simp add: c)
  moreover have "(j_shard k, j_deadline k) \<le> (j_shard j, j_deadline j)"
    if "k \<in> set jobs" "j_id k \<in> set (claimable locked limit jobs)" for k
    by (rule sorted_take_drop [OF q(3) member [OF that] drop])
  ultimately show "length (claimable locked limit jobs) = limit
      \<and> (\<forall>k\<in>set jobs. j_id k \<in> set (claimable locked limit jobs) \<longrightarrow> (j_shard k, j_deadline k) \<le> (j_shard j, j_deadline j))"
    by blast
qed

lemma claim_batch_facts:
  assumes "db_ok db" "claim_batch worker now secs locked limit db = (batch, db')"
  shows "length batch \<le> limit \<and> sorted (map c_shard batch)
     \<and> erasure_jobs db' = map (\<lambda>j. if j_id j \<in> c_id ` set batch then lease_job worker (now + secs) j else j) (erasure_jobs db)
     \<and> (\<forall>c\<in>set batch. \<exists>j\<in>set (erasure_jobs db). j_status j = Queued \<and> j_id j \<notin> locked
          \<and> c = \<lparr>c_id = j_id j, c_ref = j_ref j, c_shard = j_shard j\<rparr>)
     \<and> (\<forall>j\<in>set (erasure_jobs db). j_status j = Queued \<longrightarrow> j_id j \<notin> locked \<longrightarrow> j_id j \<notin> c_id ` set batch
          \<longrightarrow> length batch = limit
            \<and> (\<forall>k\<in>set (erasure_jobs db). j_id k \<in> c_id ` set batch \<longrightarrow> j_shard k = j_shard j \<longrightarrow> j_deadline k \<le> j_deadline j))"
proof -
  let ?jobs = "erasure_jobs db" and ?ids = "claimable locked limit (erasure_jobs db)"
  have dist: "distinct (map j_id ?jobs)" using assms(1) by (simp add: db_ok_def)
  note facts = claimable_facts [OF dist]
  let ?ret = "filter (\<lambda>j. j_id j \<in> set ?ids) ?jobs"
  have batch: "batch = sort_key c_shard (map (\<lambda>j. \<lparr>c_id = j_id j, c_ref = j_ref j, c_shard = j_shard j\<rparr>) ?ret)"
    and db': "erasure_jobs db' = map (\<lambda>j. if j_id j \<in> set ?ids then lease_job worker (now + secs) j else j) ?jobs"
    using assms(2) by (auto simp: claim_batch_def Let_def)
  have ids: "c_id ` set batch = set ?ids" 
  proof -
    have "c_id ` set batch = j_id ` set ?ret" by (simp add: batch image_image)
    also have "\<dots> = set ?ids" using facts(4) [of locked limit] by auto
    finally show ?thesis .
  qed
  have "distinct (map j_id ?ret)" using dist by (simp add: distinct_map inj_on_def)
  from distinct_card [OF this] have "length batch = card (set (map j_id ?ret))" by (simp add: batch)
  also have "set (map j_id ?ret) = set ?ids" using facts(4) [of locked limit] by auto
  finally have len: "length batch = length ?ids" using facts(1) by (simp add: distinct_card)
  have "\<exists>j\<in>set ?jobs. j_status j = Queued \<and> j_id j \<notin> locked \<and> c = \<lparr>c_id = j_id j, c_ref = j_ref j, c_shard = j_shard j\<rparr>"
    if "c \<in> set batch" for c
  proof -
    from that obtain j where "j \<in> set ?jobs" "j_id j \<in> set ?ids" "c = \<lparr>c_id = j_id j, c_ref = j_ref j, c_shard = j_shard j\<rparr>"
      by (auto simp: batch)
    with facts(3) [of j locked limit] show ?thesis by blast
  qed
  moreover have "sorted (map c_shard batch)" by (simp add: batch)
  moreover have "length batch = limit
        \<and> (\<forall>k\<in>set ?jobs. j_id k \<in> c_id ` set batch \<longrightarrow> j_shard k = j_shard j \<longrightarrow> j_deadline k \<le> j_deadline j)"
    if j: "j \<in> set ?jobs" "j_status j = Queued" "j_id j \<notin> locked" "j_id j \<notin> c_id ` set batch" for j
    using facts(5) [OF j(1-3), of limit] j(4) unfolding ids len by fastforce
  moreover have "length batch \<le> limit" using facts(2) by (simp add: len)
  ultimately show ?thesis unfolding db' ids by blast
qed

section \<open>Properties\<close>

text \<open>
  C12 A claim. The batch has at most \<open>limit\<close> jobs, sorted by shard; each was queued and not
  locked and is now leased to the worker with one more attempt, every other job is as
  before. A queued job is left behind only if the batch is full, and then no job of its
  shard with a later deadline was taken.
\<close>

theorem claim_batch_correct:
  assumes "db_ok db" "claim_batch worker now secs locked limit db = (batch, db')"
  shows "length batch \<le> limit \<and> sorted (map c_shard batch)
     \<and> erasure_jobs db' = map (\<lambda>j. if j_id j \<in> c_id ` set batch then lease_job worker (now + secs) j else j) (erasure_jobs db)
     \<and> (\<forall>c\<in>set batch. \<exists>j\<in>set (erasure_jobs db). j_status j = Queued \<and> j_id j \<notin> locked
          \<and> c = \<lparr>c_id = j_id j, c_ref = j_ref j, c_shard = j_shard j\<rparr>)
     \<and> (\<forall>j\<in>set (erasure_jobs db). j_status j = Queued \<longrightarrow> j_id j \<notin> locked \<longrightarrow> j_id j \<notin> c_id ` set batch
          \<longrightarrow> length batch = limit
            \<and> (\<forall>k\<in>set (erasure_jobs db). j_id k \<in> c_id ` set batch \<longrightarrow> j_shard k = j_shard j \<longrightarrow> j_deadline k \<le> j_deadline j))"
  using claim_batch_facts [OF assms] by blast

text \<open>A queue with one job that a crashed worker has left behind and one that waits.\<close>

definition small_job :: "string \<Rightarrow> nat \<Rightarrow> int \<Rightarrow> job" where
  "small_job i shard deadline = new_job i ''ref'' ''consent_revocation'' shard i deadline ''bank'' 0"

definition small_db :: db where
  "small_db = \<lparr>subject_shard_map = [], erasure_jobs = [lease_job ''w1'' 100 (small_job ''a'' 1 720), small_job ''b'' 0 700],
     erasure_manifests = [], reproducibility_checks = [], model_versions = [], checkpoints = [], eval_results = []\<rparr>"

lemma small_db_ok: "db_ok small_db"
  by (simp add: db_ok_def small_db_def small_job_def lease_job_def new_job_def job_ok_def reasons_def)

theorem claim_batch_correct_witness:
  "\<exists>db'. claim_batch ''w2'' 50 30 {} 5 small_db = ([\<lparr>c_id = ''b'', c_ref = ''ref'', c_shard = 0\<rparr>], db')
     \<and> map j_worker (erasure_jobs db') = [Some ''w1'', Some ''w2'']"
proof -
  obtain batch db' where run: "claim_batch ''w2'' 50 30 {} 5 small_db = (batch, db')"
    by (cases "claim_batch ''w2'' 50 30 {} 5 small_db")
  have b: "batch = [\<lparr>c_id = ''b'', c_ref = ''ref'', c_shard = 0\<rparr>]"
    using run by (simp add: claim_batch_def Let_def claimable_def small_db_def small_job_def lease_job_def new_job_def)
  from claim_batch_correct [OF small_db_ok run] run show ?thesis
    unfolding b by (simp add: small_db_def small_job_def lease_job_def new_job_def)
qed

text \<open>
  A crashed worker loses no job. When the lease of a job has expired, the next cycle of
  any worker puts it back into the queue, and claims it if there is room for every job.
\<close>

theorem expired_lease_recovers:
  assumes "db_ok db" "j \<in> set (erasure_jobs db)" "j_status j = Processing" "j_lease j = Some t" "t < now"
    and "reap_expired_leases now db = (n, db1)" "claim_batch worker now secs {} limit db1 = (batch, db2)"
    and "length (erasure_jobs db) < limit"
  shows "0 < n \<and> j_id j \<in> c_id ` set batch
     \<and> (\<exists>j2\<in>set (erasure_jobs db2). j_id j2 = j_id j \<and> j_ref j2 = j_ref j \<and> j_worker j2 = Some worker
          \<and> j_lease j2 = Some (now + secs) \<and> j_attempts j2 = Suc (j_attempts j))"
proof -
  have exp: "expired now j" using assms(3-5) by (simp add: expired_def)
  have db1: "erasure_jobs db1 = map (\<lambda>j. if expired now j then requeue j else j) (erasure_jobs db)"
    using assms(6) by (auto simp: reap_expired_leases_def)
  have n: "0 < n" using assms(2,6) exp by (auto simp: reap_expired_leases_def filter_empty_conv)
  have rj: "requeue j \<in> set (erasure_jobs db1)" using exp assms(2) by (force simp: db1)
  have "db_ok db1" using db_ok_reap [OF assms(1), of now] assms(6) by simp
  note claim = claim_batch_facts [OF this assms(7)]
  have "length batch \<le> length (erasure_jobs db1)"
    using assms(7) by (auto simp: claim_batch_def Let_def)
  then have room: "length batch \<noteq> limit" using assms(8) by (simp add: db1)
  have in_batch: "j_id j \<in> c_id ` set batch"
  proof (rule ccontr)
    assume "j_id j \<notin> c_id ` set batch"
    then have "j_id (requeue j) \<notin> c_id ` set batch" "j_status (requeue j) = Queued" by (simp_all add: requeue_def)
    with claim rj room show False by blast
  qed
  have "lease_job worker (now + secs) (requeue j) \<in> set (erasure_jobs db2)"
  proof -
    have eq: "erasure_jobs db2 = map (\<lambda>j. if j_id j \<in> c_id ` set batch then lease_job worker (now + secs) j else j) (erasure_jobs db1)"
      using claim by blast
    show ?thesis unfolding eq set_map by (rule image_eqI [OF _ rj]) (use in_batch in \<open>simp add: requeue_def\<close>)
  qed
  then show ?thesis using n in_batch by (intro conjI bexI) (simp_all add: lease_job_def requeue_def)
qed

theorem expired_lease_recovers_witness:
  "\<exists>n db1 batch db2. reap_expired_leases 200 small_db = (n, db1) \<and> claim_batch ''w2'' 200 30 {} 5 db1 = (batch, db2)
     \<and> ''a'' \<in> c_id ` set batch"
proof -
  obtain n db1 where reap: "reap_expired_leases 200 small_db = (n, db1)" by (cases "reap_expired_leases 200 small_db")
  obtain batch db2 where claim: "claim_batch ''w2'' 200 30 {} 5 db1 = (batch, db2)" by (cases "claim_batch ''w2'' 200 30 {} 5 db1")
  have j: "lease_job ''w1'' 100 (small_job ''a'' 1 720) \<in> set (erasure_jobs small_db)" by (simp add: small_db_def)
  from expired_lease_recovers [OF small_db_ok j _ _ _ reap claim, of 100] reap claim
  show ?thesis by (simp add: lease_job_def small_job_def new_job_def small_db_def)
qed

text \<open>
  C13 Intake is idempotent for each caller. The identifier that a request gets belongs to a
  job of that caller with that key, which is queued with the request's data if it is new;
  repeating the request, whatever the other arguments, gives the same identifier and
  changes nothing; the same key of another caller never gives this job.
\<close>

theorem intake_idempotent:
  assumes "db_ok db" "insert_or_get new_id now ref reason shard key deadline caller db = Inr ((i, created), db')"
    and "reason' \<in> set reasons"
  shows "db_ok db' \<and> insert_or_get new_id' now' ref' reason' shard' key deadline' caller db' = Inr ((i, False), db')
     \<and> (\<exists>j\<in>set (erasure_jobs db'). j_id j = i \<and> j_by j = caller \<and> j_key j = key
          \<and> (if created then j = new_job new_id ref reason shard key deadline caller now \<and> j \<notin> set (erasure_jobs db) else db' = db))
     \<and> (\<forall>caller' x. caller' \<noteq> caller \<longrightarrow>
          insert_or_get new_id' now' ref' reason' shard' key deadline' caller' db' = Inr (x, db') \<longrightarrow> fst x \<noteq> i)"
proof -
  have ok: "db_ok db'" by (rule db_ok_insert [OF assms(1,2)])
  have dist: "distinct (map j_id (erasure_jobs db'))" and keys: "distinct (map (\<lambda>j. (j_by j, j_key j)) (erasure_jobs db'))"
    using ok by (simp_all add: db_ok_def)
  obtain j where j: "job_with_key caller key (erasure_jobs db') = Some j" "j_id j = i"
      "if created then j = new_job new_id ref reason shard key deadline caller now \<and> j \<notin> set (erasure_jobs db) else db' = db"
  proof (cases "job_with_key caller key (erasure_jobs db)")
    case None
    with assms(2) have db': "new_id \<notin> j_id ` set (erasure_jobs db)" "i = new_id" "created"
        "db' = db\<lparr>erasure_jobs := erasure_jobs db @ [new_job new_id ref reason shard key deadline caller now]\<rparr>"
      by (auto simp: insert_or_get_def insert_row_def res_simps new_job_def split: if_splits)
    let ?j = "new_job new_id ref reason shard key deadline caller now"
    have "job_with_key caller key (erasure_jobs db @ [?j]) = Some ?j"
      by (rule job_with_key_snoc [OF None]) (simp_all add: new_job_def)
    moreover have "j_id ?j = new_id" by (simp add: new_job_def)
    moreover from this have "?j \<notin> set (erasure_jobs db)" using db'(1) by force
    ultimately show thesis using that [of ?j] db' by simp
  next
    case (Some j)
    with assms(2) have "i = j_id j" "\<not> created" "db' = db"
      by (simp_all add: insert_or_get_def split: if_splits)
    with Some show thesis using that [of j] by simp
  qed
  have again: "insert_or_get new_id' now' ref' reason' shard' key deadline' caller db' = Inr ((i, False), db')"
    using j(1,2) assms(3) by (simp add: insert_or_get_def)
  have other: "fst x \<noteq> i" if "caller' \<noteq> caller"
      "insert_or_get new_id' now' ref' reason' shard' key deadline' caller' db' = Inr (x, db')" for caller' x
  proof (cases "job_with_key caller' key (erasure_jobs db')")
    case None
    let ?j = "new_job new_id' ref' reason' shard' key deadline' caller' now'"
    from that(2) None assms(3) have "bind_res (insert_row j_id ?j (erasure_jobs db'))
        (\<lambda>jobs. Inr ((new_id', True), db'\<lparr>erasure_jobs := jobs\<rparr>)) = Inr (x, db')"
      by (simp add: insert_or_get_def)
    then have "erasure_jobs (db'\<lparr>erasure_jobs := erasure_jobs db' @ [?j]\<rparr>) = erasure_jobs db'"
      by (simp only: insert_row_def res_simps Inr_not_Inl not_False_eq_True prod.inject sum.inject sum.simps simp_thms ex_simps split: if_splits)
    then show ?thesis by simp
  next
    case (Some k)
    then have "x = (j_id k, False)" using that(2) by (auto simp: insert_or_get_def split: if_splits)
    moreover have "k \<in> set (erasure_jobs db')" "j \<in> set (erasure_jobs db')" "j_by k = caller'" "j_by j = caller"
      using job_with_key_Some [OF Some] job_with_key_Some [OF j(1)] by auto
    then have "j_id k \<noteq> j_id j" using dist that(1) by (auto simp: distinct_map dest: inj_onD)
    ultimately show ?thesis using j(2) by simp
  qed
  have "j \<in> set (erasure_jobs db')" "j_by j = caller" "j_key j = key" using job_with_key_Some [OF j(1)] by auto
  with ok again other j(2,3) show ?thesis by blast
qed

theorem intake_idempotent_witness:
  "\<exists>db'. insert_or_get ''c'' 7 ''ref'' ''consent_revocation'' 0 ''k'' 9 ''bank'' small_db = Inr ((''c'', True), db')
     \<and> insert_or_get ''d'' 8 ''other'' ''fraud_excision'' 3 ''k'' 9 ''bank'' db' = Inr ((''c'', False), db')"
proof -
  obtain db' where run: "insert_or_get ''c'' 7 ''ref'' ''consent_revocation'' 0 ''k'' 9 ''bank'' small_db = Inr ((''c'', True), db')"
    by (simp add: insert_or_get_def reasons_def job_with_key_def small_db_def lease_job_def small_job_def new_job_def insert_row_def)
  from intake_idempotent [OF small_db_ok run, of "''fraud_excision''"] run show ?thesis by (auto simp: reasons_def)
qed

end
