(* ===== verification/Jobs.thy ===== *)
theory Jobs
  imports Queue Erasure
begin

text \<open>
  \<open>worker/jobs.py\<close> and \<open>worker/main.py\<close>: a claimed batch is rebuilt shard by shard, each
  result is promoted, scored and recorded, and some jobs are replayed as a spot check.
\<close>

section \<open>What is fixed for a worker\<close>

text \<open>
  The settings of the worker, the frozen evaluation corpus, the generator that initialises
  a model before its weights are loaded, and the row that \<open>ORDER BY ... LIMIT 1\<close> chooses
  among equals. A float setting is the rational number that it stands for.
\<close>

record ('f, 'o, 'g, 't) worker =
  wk_rt :: "('f, 'o, 'g, 't) runtime"
  wk_gen :: 'g
  eval_rows :: "'f txn list"
  eval_labels :: "bool list"
  pick_version :: "version_row list \<Rightarrow> version_row"
  AUDIT_KEY :: bytes
  SPOT_CHECK_RATE :: rat
  LEASE_SECONDS :: int
  POLL_BATCH_SIZE :: nat
  WORKER_ID :: string
  scratch_dir :: string

section \<open>The sample of the spot check\<close>

text \<open>
  \<open>int.from_bytes(b, "big")\<close>, and the division of two integers by \<open>/\<close>: the quotient is
  rounded to 53 significant bits, a tie to the even neighbour.
\<close>

definition be_nat :: "bytes \<Rightarrow> nat" where
  "be_nat b = foldl (\<lambda>n x. 256 * n + unat x) 0 b"

fun bitlen :: "nat \<Rightarrow> nat" where
  "bitlen n = (if n = 0 then 0 else Suc (bitlen (n div 2)))"

declare bitlen.simps [simp del]

definition round_off :: "nat \<Rightarrow> nat \<Rightarrow> nat" where
  "round_off k n =
     (let q = n div 2 ^ k; r = 2 * (n mod 2 ^ k) in
      (if r > 2 ^ k \<or> r = 2 ^ k \<and> odd q then q + 1 else q) * 2 ^ k)"

definition to_double :: "nat \<Rightarrow> nat" where
  "to_double n = round_off (bitlen n - 53) n"

definition should_spot_check :: "('f, 'o, 'g, 't) worker \<Rightarrow> string \<Rightarrow> bool" where
  "should_spot_check wk erasure_id =
     (let digest = hmac_sha256 (AUDIT_KEY wk) (utf8 erasure_id)
      in of_nat (to_double (be_nat (take 8 digest))) / 2 ^ 64 < SPOT_CHECK_RATE wk)"

section \<open>Promotion\<close>

definition checkpoint_files :: "string list \<Rightarrow> db \<Rightarrow> shard_paths" where
  "checkpoint_files hashes db =
     dict_of (map (\<lambda>r. (k_shard r, k_path r)) (filter (\<lambda>r. k_hash r \<in> set hashes) (checkpoints db)))"

definition record_eval ::
  "('f::linorder, 'o, 'g, 't) worker \<Rightarrow> int \<Rightarrow> string \<Rightarrow> (nat \<times> string) list \<Rightarrow> (('f, 't) world, rat) io" where
  "record_eval wk now version shard_checkpoints =
     io_bind (select (checkpoint_files (map snd shard_checkpoints))) (\<lambda>paths.
     io_bind (on_models (load_ensemble (wk_rt wk) (wk_gen wk) paths)) (\<lambda>ensemble.
     io_bind (io_lift (predict_proba (wk_rt wk) ensemble (eval_rows wk))) (\<lambda>probs.
     io_bind (io_lift (auc (eval_labels wk) probs)) (\<lambda>score.
     io_bind (update (\<lambda>db. db\<lparr>eval_results := insert_new e_version
                \<lparr>e_version = version, e_auc = score, e_n = length (eval_rows wk), e_computed = now\<rparr> (eval_results db)\<rparr>)) (\<lambda>_.
     io_return score)))))"

definition add_checkpoint :: "checkpoint_row \<Rightarrow> db \<Rightarrow> db" where
  "add_checkpoint row db = db\<lparr>checkpoints := insert_new k_hash row (checkpoints db)\<rparr>"

definition add_version :: "version_row \<Rightarrow> db \<Rightarrow> db" where
  "add_version row db = db\<lparr>model_versions := insert_new v_name row (model_versions db)\<rparr>"

text \<open>The row that a promotion adds after the newest version; \<open>now\<close> is \<open>now()\<close>.\<close>

definition next_version :: "int \<Rightarrow> nat \<Rightarrow> string \<Rightarrow> version_row option \<Rightarrow> version_row" where
  "next_version now shard weights row =
     \<lparr>v_name = ''v-'' @ take 12 weights,
      v_checkpoints = dict_set shard weights (case row of Some v \<Rightarrow> v_checkpoints v | None \<Rightarrow> []),
      v_eval_set = (case row of Some v \<Rightarrow> v_eval_set v | None \<Rightarrow> ''v0''),
      v_promoted = now\<rparr>"

definition promote ::
  "('f::linorder, 'o, 'g, 't) worker \<Rightarrow> int \<Rightarrow> nat \<Rightarrow> string \<Rightarrow> (('f, 't) world, unit) io" where
  "promote wk now shard weights =
     io_bind (on_disk (promote_artifact (wk_rt wk) shard weights)) (\<lambda>path.
     io_bind (update (add_checkpoint
         \<lparr>k_hash = weights, k_shard = shard, k_slice = int (NUM_SLICES (rt_env (wk_rt wk))) - 1, k_path = path,
          k_code = CODE_DIGEST (rt_env (wk_rt wk))\<rparr>)) (\<lambda>_.
     io_bind (select (\<lambda>db. newest (pick_version wk) v_promoted (model_versions db))) (\<lambda>row.
     let version = next_version now shard weights row in
     io_bind (update (add_version version)) (\<lambda>_.
     io_bind (record_eval wk now (v_name version) (v_checkpoints version)) (\<lambda>_.
     io_return ())))))"

section \<open>One shard of a batch\<close>

definition manifest_columns :: "string list" where
  "manifest_columns = [''shard'', ''resumed_from'', ''dataset_root'', ''absence_proof'', ''code_digest'',
     ''config_digest'', ''result_weights'', ''model_version'', ''signature'']"

definition manifest_row_of :: "int \<Rightarrow> string \<Rightarrow> manifest \<Rightarrow> manifest_row res" where
  "manifest_row_of now erasure_id m =
     bind_res (map_res (\<lambda>f. bind_res (getitem (PDict m) f) (\<lambda>v. Inr (f, reload v))) manifest_columns) (\<lambda>cols.
       Inr \<lparr>m_id = erasure_id, m_columns = cols, m_json = reload (PDict m), m_created = now\<rparr>)"

text \<open>The primary key and the reference to the job are checked.\<close>

definition insert_manifest :: "manifest_row \<Rightarrow> db \<Rightarrow> (unit \<times> db) res" where
  "insert_manifest row db =
     (if m_id row \<notin> j_id ` set (erasure_jobs db) then Inl DatabaseError
      else bind_res (insert_row m_id row (erasure_manifests db)) (\<lambda>rows. Inr ((), db\<lparr>erasure_manifests := rows\<rparr>)))"

definition finish_job :: "int \<Rightarrow> (string \<times> manifest) list \<Rightarrow> claimed \<Rightarrow> (('f, 't) world, unit) io" where
  "finish_job now ms c =
     io_bind (io_lift (case map_of ms (c_ref c) of None \<Rightarrow> Inl KeyError | Some m \<Rightarrow> manifest_row_of now (c_id c) m)) (\<lambda>row.
     io_bind (execute (insert_manifest row)) (\<lambda>_.
     update (set_done now (c_id c))))"

definition insert_check :: "check_row \<Rightarrow> db \<Rightarrow> (unit \<times> db) res" where
  "insert_check row db =
     (if r_id row \<notin> j_id ` set (erasure_jobs db) then Inl DatabaseError
      else Inr ((), db\<lparr>reproducibility_checks := insert_new r_id row (reproducibility_checks db)\<rparr>))"

definition run_spot_check ::
  "('f, 'o, 'g, 't) worker \<Rightarrow> string \<Rightarrow> nat \<Rightarrow> ('f, 't) payload \<Rightarrow> string \<Rightarrow> (('f, 't) world, bool) io" where
  "run_spot_check wk erasure_id shard payload expected =
     io_bind (on_disk (active_replay_digest (wk_rt wk) (scratch_dir wk) shard payload)) (\<lambda>observed.
     io_bind (execute (insert_check
         \<lparr>r_id = erasure_id, r_expected = expected, r_observed = observed, r_matched = (observed = expected),
          r_code = CODE_DIGEST (rt_env (wk_rt wk))\<rparr>)) (\<lambda>_.
     io_return (observed = expected)))"

text \<open>\<open>stamp shard\<close>: the two times of day that go into the certificates of the shard's rebuild.\<close>

definition process_group ::
  "('f::linorder, 'o, 'g, 't) worker \<Rightarrow> int \<Rightarrow> (nat \<Rightarrow> string \<times> string) \<Rightarrow> nat \<times> claimed list \<Rightarrow> (('f, 't) world, unit) io" where
  "process_group wk now stamp = (\<lambda>(shard, group).
     let ids = set (map c_id group) in
     io_bind (io_attempt (on_disk (active_rebuild (wk_rt wk) (fst (stamp shard)) (snd (stamp shard)) (map c_ref group)))) (\<lambda>rebuilt.
     case rebuilt of
       Inl e \<Rightarrow> update (set_failed (Rebuild_Failed e) ids)
     | Inr result \<Rightarrow>
         io_bind (io_attempt
           (io_bind (promote wk now shard (result_weights result)) (\<lambda>_.
            io_fold (\<lambda>c _. finish_job now (manifests result) c) group ()))) (\<lambda>recorded.
         case recorded of
           Inl e \<Rightarrow> update (set_failed (Bookkeeping_Failed e shard) ids)
         | Inr _ \<Rightarrow>
             io_fold (\<lambda>c _. if should_spot_check wk (c_id c)
                            then io_bind (io_attempt (run_spot_check wk (c_id c) shard (replay result) (result_weights result)))
                                   (\<lambda>_. io_return ())
                            else io_return ()) group ())))"

section \<open>The worker\<close>

text \<open>\<open>itertools.groupby\<close>: the runs of equal keys.\<close>

function groupby :: "('a \<Rightarrow> 'k) \<Rightarrow> 'a list \<Rightarrow> ('k \<times> 'a list) list" where
  "groupby key [] = []"
| "groupby key (x # xs) =
     (key x, x # takeWhile (\<lambda>y. key y = key x) xs) # groupby key (dropWhile (\<lambda>y. key y = key x) xs)"
  by pat_completeness auto
termination
  by (relation "measure (\<lambda>(key, xs). length xs)") (auto simp: less_Suc_eq_le length_dropWhile_le)

definition process_claimed ::
  "('f::linorder, 'o, 'g, 't) worker \<Rightarrow> int \<Rightarrow> (nat \<Rightarrow> string \<times> string) \<Rightarrow> claimed list \<Rightarrow> (('f, 't) world, unit) io" where
  "process_claimed wk now stamp jobs =
     io_fold (\<lambda>g _. process_group wk now stamp g) (groupby c_shard (sort_key c_shard jobs)) ()"

definition claim_step :: "('f, 'o, 'g, 't) worker \<Rightarrow> int \<Rightarrow> string set \<Rightarrow> (('f, 't) world, claimed list) io" where
  "claim_step wk now locked =
     transaction
       (io_bind (execute (\<lambda>db. Inr (reap_expired_leases now db))) (\<lambda>_.
        execute (\<lambda>db. Inr (claim_batch (WORKER_ID wk) now (LEASE_SECONDS wk) locked (POLL_BATCH_SIZE wk) db))))"

text \<open>The claim and the work are two transactions, at the times \<open>now\<close> and \<open>later\<close>.\<close>

definition run_once ::
  "('f::linorder, 'o, 'g, 't) worker \<Rightarrow> int \<Rightarrow> string set \<Rightarrow> int \<Rightarrow> (nat \<Rightarrow> string \<times> string) \<Rightarrow> (('f, 't) world, nat) io" where
  "run_once wk now locked later stamp =
     io_bind (claim_step wk now locked) (\<lambda>jobs.
       if jobs = [] then io_return 0
       else io_bind (transaction (process_claimed wk later stamp jobs)) (\<lambda>_. io_return (length jobs)))"

section \<open>Runs of equal shards\<close>

lemma groupby_concat: "concat (map snd (groupby key xs)) = xs"
proof (induction key xs rule: groupby.induct)
  case (2 key x xs)
  then show ?case by (simp add: takeWhile_dropWhile_id)
qed simp

lemma groupby_one:
  assumes "jobs \<noteq> []" "\<forall>c\<in>set jobs. c_shard c = k"
  shows "groupby c_shard (sort_key c_shard jobs) = [(k, jobs)]"
proof -
  have "sort_key c_shard jobs = jobs"
    using assms(2)
  proof (induction jobs)
    case (Cons c jobs)
    then show ?case by (cases jobs) simp_all
  qed simp
  moreover obtain c cs where jobs: "jobs = c # cs" using assms(1) by (cases jobs) auto
  moreover have "takeWhile (\<lambda>y. c_shard y = k) cs = cs" using jobs assms(2) by (simp add: takeWhile_eq_all_conv)
  moreover have drop: "dropWhile (\<lambda>y. c_shard y = k) cs = []" using jobs assms(2) by (simp add: dropWhile_eq_Nil_conv)
  moreover have "c_shard c = k" using jobs assms(2) by simp
  ultimately show ?thesis by (simp add: drop)
qed

section \<open>The row of a certificate\<close>

definition issued :: "string \<Rightarrow> manifest \<Rightarrow> bool" where
  "issued ref m \<longleftrightarrow> (\<exists>k rf root sibs cd cfg w mv pa ca s.
     m = manifest_build ref k rf root (proof_of_siblings sibs) cd cfg w mv pa ca @ [(KStr ''signature'', PStr s)]
     \<and> sorted_wrt (<) (map fst sibs) \<and> (\<exists>x. s = to_hex x))"

lemma issuedI:
  "sorted_wrt (<) (map fst sibs)
    \<Longrightarrow> issued ref (manifest_build ref k rf rt0 (proof_of_siblings sibs) cd cfg w mv pa ca @ [(KStr ''signature'', PStr (to_hex x))])"
  unfolding issued_def by blast

lemma issue_manifest_issued:
  assumes "tree_ok tree" "valid_ref ref"
    and "issue_manifest env sg True (certificate_fields env cfg vp k lo w pa ca tree) tree ref = Inr m"
  shows "issued ref m"
proof -
  from assms(3) obtain pf s where pf: "smt_prove tree ref = Inr pf"
      and m: "m = add_signature (certificate_fields env cfg vp k lo w pa ca tree ref pf) (to_hex s)"
    by (auto simp: issue_manifest_def res_simps Let_def sign_manifest_eq)
  obtain sibs where sibs: "pf = proof_of_siblings sibs" "sorted_wrt (<) (map fst sibs)"
    using smt_prove_shape [OF assms(1,2) pf] by (auto simp: siblings_ok_def)
  from issuedI [OF sibs(2)] show ?thesis unfolding m sibs(1) certificate_fields_def add_signature_manifest .
qed

lemma active_issued:
  assumes "files_ok X d" "active_rebuild rt pa ca refs d = (Inr r, d')" "ref \<in> set refs"
  shows "\<exists>m. map_of (manifests r) ref = Some m \<and> issued ref m"
proof -
  obtain R k m rows tb tree cfg vp lo w where rd: "routing_json d = Some R" "batch_target R refs = Inr (k, m)"
      "shard_npz d k = Some rows" "tree_for_shard (tree_caches d) k (map row_ref rows) = Inr tb" "smt_remove tb refs = Inr tree"
    and ms: "issue_all (rt_env rt) (rt_sign rt) True (certificate_fields (rt_env rt) cfg vp k lo w pa ca tree) tree refs = Inr (manifests r)"
    and dist: "distinct refs"
  proof (cases "rt_engine rt")
    case ENGINE_MLP
    with assms(2) that show thesis
      by (auto simp: active_mlp rebuild_iff mlp_reads_def mlp_plan_def dest: routing_pops_dest)
  next
    case ENGINE_GBDT
    with assms(2) that show thesis
      by (auto simp: active_gbdt gbdt_rebuild_iff gbdt_reads_def gbdt_plan_def dest: routing_pops_dest)
  qed
  have ok: "caches_ok d" "list_all valid_ref (map row_ref rows)"
    using assms(1) rd(3) by (simp_all add: files_ok_def disk_ok_def list_all_iff)
  have valid: "list_all valid_ref refs" by (rule routed_valid [OF assms(1) rd(1,2)])
  have tree: "tree_ok tree" by (rule batch_tree(1) [OF ok valid rd(4,5)])
  obtain m' where m': "issue_manifest (rt_env rt) (rt_sign rt) True (certificate_fields (rt_env rt) cfg vp k lo w pa ca tree) tree ref = Inr m'"
      "map_of (manifests r) ref = Some m'"
    by (rule issue_all_map [OF ms dist assms(3)])
  from valid assms(3) have "valid_ref ref" by (simp add: list_all_iff)
  from issue_manifest_issued [OF tree this m'(1)] m'(2) show ?thesis by blast
qed

text \<open>The types of the columns in the schema: INT, JSONB and TEXT, none of them NULL.\<close>

definition column_typed :: "string \<Rightarrow> pyval \<Rightarrow> bool" where
  "column_typed f v \<longleftrightarrow>
     (if f = ''shard'' then (case v of PInt n \<Rightarrow> 0 \<le> n | _ \<Rightarrow> False)
      else if f = ''absence_proof'' then (case v of PDict d \<Rightarrow> d \<noteq> [] | _ \<Rightarrow> False)
      else (case v of PStr s \<Rightarrow> True | _ \<Rightarrow> False))"

lemma issued_row:
  assumes "issued ref m"
  shows "\<exists>row. manifest_row_of now i m = Inr row \<and> map fst (m_columns row) = manifest_columns
     \<and> (\<forall>(f, v)\<in>set (m_columns row). column_typed f v)"
  using assms by (auto simp: issued_def manifest_row_of_def manifest_columns_def manifest_build_def column_typed_def proof_of_siblings_def)

section \<open>Rounding\<close>

lemma bitlen_le: "n < 2 ^ k \<Longrightarrow> bitlen n \<le> k"
proof (induction k arbitrary: n)
  case (Suc k)
  then have "bitlen (n div 2) \<le> k" by (simp add: less_mult_imp_div_less mult.commute)
  then show ?case by (subst bitlen.simps) simp
qed (simp add: bitlen.simps)

lemma less_bitlen: "2 ^ k \<le> n \<Longrightarrow> k < bitlen n"
proof (induction k arbitrary: n)
  case (Suc k)
  then have "2 ^ k \<le> n div 2" by (simp add: less_eq_div_iff_mult_less_eq mult.commute)
  from Suc.IH [OF this] have "k < bitlen (n div 2)" .
  moreover have "n \<noteq> 0" using Suc.prems by (metis le_zero_eq power_not_zero zero_neq_numeral)
  ultimately show ?case by (subst bitlen.simps) simp
qed (subst bitlen.simps, simp)

lemma round_off_near: "2 * n \<le> 2 * round_off k n + 2 ^ k \<and> 2 * round_off k n \<le> 2 * n + 2 ^ k"
proof -
  have n: "n = n div 2 ^ k * 2 ^ k + n mod 2 ^ k" by (simp only: div_mult_mod_eq)
  have m: "n mod 2 ^ k < 2 ^ k" by simp
  have "round_off k n = n div 2 ^ k * 2 ^ k \<and> 2 * (n mod 2 ^ k) \<le> 2 ^ k
      \<or> round_off k n = n div 2 ^ k * 2 ^ k + 2 ^ k \<and> 2 ^ k \<le> 2 * (n mod 2 ^ k)"
    by (auto simp: round_off_def Let_def)
  with n m show ?thesis by linarith
qed

lemma to_double_near:
  assumes "n < 2 ^ 64"
  shows "n \<le> to_double n + 2 ^ 10" "to_double n \<le> n + 2 ^ 10"
proof -
  have "bitlen n - 53 \<le> 11" using bitlen_le [OF assms] by simp
  then have "(2 :: nat) ^ (bitlen n - 53) \<le> 2 ^ 11" by (rule power_increasing) simp
  with round_off_near [of n "bitlen n - 53"] show "n \<le> to_double n + 2 ^ 10" "to_double n \<le> n + 2 ^ 10"
    by (simp_all add: to_double_def)
qed

lemma to_double_top:
  assumes "n < 2 ^ 64" "2 ^ 64 \<le> n + 2 ^ 10"
  shows "to_double n = 2 ^ 64"
proof -
  have "63 < bitlen n" by (rule less_bitlen) (use assms(2) in simp)
  with bitlen_le [OF assms(1)] have k: "bitlen n - 53 = 11" by simp
  have n: "n = n div 2 ^ 11 * 2 ^ 11 + n mod 2 ^ 11" "n mod 2 ^ 11 < 2 ^ 11" by (simp_all only: div_mult_mod_eq) simp
  have q: "n div 2 ^ 11 = 2 ^ 53 - 1"
  proof (rule div_nat_eqI)
    show "2 ^ 11 * (2 ^ 53 - 1) \<le> n" using assms(2) by simp
    show "n < 2 ^ 11 * Suc (2 ^ 53 - 1)" using assms(1) by simp
  qed
  have "2 ^ 11 \<le> 2 * (n mod 2 ^ 11)" using n(1) assms(2) unfolding q by simp
  moreover have "odd (n div 2 ^ 11)" unfolding q by simp
  ultimately have "2 * (n mod 2 ^ 11) > 2 ^ 11 \<or> 2 * (n mod 2 ^ 11) = 2 ^ 11 \<and> odd (n div 2 ^ 11)" by linarith
  then have "round_off 11 n = (n div 2 ^ 11 + 1) * 2 ^ 11" by (simp only: round_off_def Let_def if_True)
  then have "round_off 11 n = (2 ^ 53 - 1 + 1) * 2 ^ 11" unfolding q .
  then show ?thesis by (simp add: to_double_def k)
qed

lemma be_nat_less: "be_nat b < 256 ^ length b"
proof -
  have "foldl (\<lambda>n x. 256 * n + unat x) m b < 256 ^ length b * Suc m" for m
  proof (induction b arbitrary: m)
    case (Cons x b)
    have "256 * m + unat x < 256 * Suc m" unfolding mult_Suc_right using unat_byte_less [of x] by linarith
    from mult_le_mono2 [OF Suc_leI [OF this], of "256 ^ length b"]
    have "256 ^ length b * Suc (256 * m + unat x) \<le> 256 ^ length b * (256 * Suc m)" .
    from less_le_trans [OF Cons.IH this]
    have "foldl (\<lambda>n x. 256 * n + unat x) m (x # b) < 256 ^ length b * (256 * Suc m)" by simp
    also have "\<dots> = 256 ^ length (x # b) * Suc m" by (simp only: length_Cons power_Suc mult_ac)
    finally show ?case .
  qed simp
  from this [of 0] show ?thesis by (simp add: be_nat_def)
qed

section \<open>What a promotion writes\<close>

lemma map_of_dict_set: "map_of (dict_set k v d) = (map_of d)(k \<mapsto> v)"
  by (induction d) auto

lemma record_eval_writes:
  assumes "record_eval wk now version cps w = (Inr s, w')"
  shows "model_versions (w_db w') = model_versions (w_db w)" "checkpoints (w_db w') = checkpoints (w_db w)"
    "version \<in> e_version ` set (eval_results (w_db w'))"
  using assms by (auto simp: record_eval_def io_simps insert_new_def)

lemma promote_writes:
  assumes "promote wk now k w world = (Inr (), world')" "''v-'' @ take 12 w \<notin> v_name ` set (model_versions (w_db world))"
  defines "v \<equiv> next_version now k w (newest (pick_version wk) v_promoted (model_versions (w_db world)))"
  shows "model_versions (w_db world') = model_versions (w_db world) @ [v]"
    "w \<in> k_hash ` set (checkpoints (w_db world'))" "v_name v \<in> e_version ` set (eval_results (w_db world'))"
  using assms(1,2) unfolding v_def
  by (auto simp: promote_def io_simps Let_def add_checkpoint_def add_version_def insert_new_def next_version_def
      record_eval_writes dest: record_eval_writes)

text \<open>Newest rows: \<open>pick\<close> chooses one of its arguments.\<close>

lemma newest_last:
  assumes "\<forall>u\<in>set vs. time u < now" "\<forall>u\<in>set us. time u = now" "us \<noteq> []"
  shows "newest pick time (vs @ us) = Some (pick us)"
proof -
  have "Max (time ` set (vs @ us)) = now"
    using assms by (intro Max_eqI) (auto simp: less_imp_le neq_Nil_conv)
  moreover have "filter (\<lambda>u. time u = now) (vs @ us) = us" using assms(1,2) by (auto simp: filter_empty_conv filter_id_conv)
  ultimately show ?thesis using assms(3) by (simp add: newest_def)
qed

text \<open>When a promotion of the tree engine returns; nothing is said about the scores here.\<close>

definition boosters_ready :: "('f, 't) world \<Rightarrow> bool" where
  "boosters_ready w \<longleftrightarrow> \<not> w_failed w
     \<and> (\<forall>row\<in>set (checkpoints (w_db w)). \<exists>b. cas_file (w_disk w) (k_path row) = Some (Booster_File b))
     \<and> (\<forall>p a. cas_file (w_disk w) p = Some a \<longrightarrow> (\<exists>b. a = Booster_File b))
     \<and> (\<forall>k e. w_cache w k = Some e \<longrightarrow> (\<exists>bs. e = Gbdt_Ensemble bs))"

lemma set_dict_of: "set (dict_of ps) \<subseteq> set ps"
proof -
  have 1: "set (dict_set k v d) \<subseteq> insert (k, v) (set d)" for k :: 'a and v :: 'b and d by (induction d) auto
  have "set (foldl (\<lambda>d p. dict_set (fst p) (snd p) d) d ps) \<subseteq> set d \<union> set ps" for d
  proof (induction ps arbitrary: d)
    case (Cons p ps)
    from Cons.IH [of "dict_set (fst p) (snd p) d"] 1 [of "fst p" "snd p" d] show ?case by auto
  qed simp
  then show ?thesis by (simp add: dict_of_def) (metis Un_empty_left list.set(1))
qed

lemma snd_dict_set: "v \<in> snd ` set (dict_set k v d)"
  by (induction d) auto

lemma dict_of_Cons: "dict_of (p # ps) \<noteq> []"
proof -
  have "dict_set k v d \<noteq> []" for k :: 'a and v :: 'b and d by (cases d) auto
  then have "foldl (\<lambda>d p. dict_set (fst p) (snd p) d) d ps \<noteq> []" if "d \<noteq> []" for d
    using that by (induction ps arbitrary: d) auto
  then show ?thesis by (simp add: dict_of_def)
qed

lemma boosters_load:
  assumes "boosters_ready w" "rt_engine rt = ENGINE_GBDT" "checkpoint_files hs (w_db w) \<noteq> []"
  shows "\<exists>bs c. load_ensemble rt g (checkpoint_files hs (w_db w)) (w_disk w, w_cache w) = (Inr (Gbdt_Ensemble bs), (w_disk w, c))
     \<and> (\<forall>k e. c k = Some e \<longrightarrow> (\<exists>bs. e = Gbdt_Ensemble bs))"
proof -
  let ?ps = "checkpoint_files hs (w_db w)"
  have "\<exists>b. read_booster (w_disk w) (snd p) = Inr b" if "p \<in> set ?ps" for p
  proof -
    from that set_dict_of obtain row where "row \<in> set (checkpoints (w_db w))" "snd p = k_path row"
      unfolding checkpoint_files_def by fastforce
    with assms(1) show ?thesis by (fastforce simp: boosters_ready_def read_booster_def)
  qed
  then have "\<exists>bs. map_res (\<lambda>(k, path). read_booster (w_disk w) path) (sort_key fst ?ps) = Inr bs"
    by (intro map_res_total) (auto simp: case_prod_beta)
  then obtain bs where bs: "map_res (\<lambda>(k, path). read_booster (w_disk w) path) (sort_key fst ?ps) = Inr bs" by blast
  then have "bs \<noteq> []" using assms(3) by (metis length_0_conv length_sort map_res_dest)
  with bs have load: "load_files rt g ?ps (w_disk w) = Inr (Gbdt_Ensemble bs)" by (simp add: load_files_defs assms(2))
  show ?thesis
  proof (cases "w_cache w (ensemble_key (rt_engine rt) ?ps)")
    case None
    with load assms(1) show ?thesis by (auto simp: load_ensemble_def Let_def boosters_ready_def)
  next
    case (Some e)
    with assms(1) obtain bs' where "e = Gbdt_Ensemble bs'" unfolding boosters_ready_def by blast
    with Some assms(1) show ?thesis by (auto simp: load_ensemble_def Let_def boosters_ready_def)
  qed
qed

lemma promote_returns:
  assumes ready: "boosters_ready w" and wk: "rt_engine (wk_rt wk) = ENGINE_GBDT" "eval_rows wk = []" "eval_labels wk = []"
    and live: "live_model (wk_rt wk) k (w_disk w) = Some (Booster_File b)"
  shows "\<exists>w'. promote wk now k h w = (Inr (), w') \<and> boosters_ready w' \<and> erasure_jobs (w_db w') = erasure_jobs (w_db w)
     \<and> erasure_manifests (w_db w') = erasure_manifests (w_db w) \<and> gbdt_json (w_disk w') = gbdt_json (w_disk w)"
proof -
  let ?p = "cas_path (rt_env (wk_rt wk)) h (live_suffix (rt_engine (wk_rt wk)))"
  define d1 where "d1 = (if cas_file (w_disk w) ?p = None then (w_disk w)\<lparr>cas_file := (cas_file (w_disk w))(?p \<mapsto> Booster_File b)\<rparr> else w_disk w)"
  have art: "promote_artifact (wk_rt wk) k h (w_disk w) = (Inr ?p, d1)"
    by (simp add: promote_artifact_def Let_def io_bind_def io_get_def io_return_def io_read_def live io_modify_def d1_def)
  define row where "row = \<lparr>k_hash = h, k_shard = k, k_slice = int (NUM_SLICES (rt_env (wk_rt wk))) - 1, k_path = ?p,
          k_code = CODE_DIGEST (rt_env (wk_rt wk))\<rparr>"
  define v where "v = next_version now k h (newest (pick_version wk) v_promoted (model_versions (add_checkpoint row (w_db w))))"
  define w1 where "w1 = w\<lparr>w_disk := d1, w_db := add_version v (add_checkpoint row (w_db w))\<rparr>"
  have new: "\<exists>b. cas_file d1 ?p = Some (Booster_File b)"
  proof (cases "cas_file (w_disk w) ?p")
    case (Some a)
    with ready show ?thesis by (auto simp: d1_def boosters_ready_def)
  qed (simp add: d1_def)
  have kept: "cas_file d1 q = Some a" if "cas_file (w_disk w) q = Some a" for q a using that by (auto simp: d1_def)
  have all: "\<exists>b. a = Booster_File b" if "cas_file d1 q = Some a" for q a
  proof (cases "q = ?p")
    case True
    with new that show ?thesis by auto
  next
    case False
    with that have "cas_file (w_disk w) q = Some a" by (simp add: d1_def split: if_splits)
    with ready show ?thesis by (simp add: boosters_ready_def)
  qed
  have rows: "set (checkpoints (w_db w1)) \<subseteq> insert row (set (checkpoints (w_db w)))"
    by (auto simp: w1_def add_version_def add_checkpoint_def insert_new_def)
  have ready1: "boosters_ready w1"
    unfolding boosters_ready_def
  proof (intro conjI ballI)
    fix q assume "q \<in> set (checkpoints (w_db w1))"
    with rows have "q = row \<or> q \<in> set (checkpoints (w_db w))" by blast
    then show "\<exists>b. cas_file (w_disk w1) (k_path q) = Some (Booster_File b)"
    proof
      assume "q = row"
      with new show ?thesis by (simp add: w1_def row_def)
    next
      assume "q \<in> set (checkpoints (w_db w))"
      with ready obtain b' where "cas_file (w_disk w) (k_path q) = Some (Booster_File b')" unfolding boosters_ready_def by blast
      from kept [OF this] show ?thesis by (simp add: w1_def)
    qed
  qed (use ready all in \<open>simp_all add: w1_def boosters_ready_def\<close>)
  have "h \<in> k_hash ` set (checkpoints (w_db w1))"
    by (auto simp: w1_def add_version_def add_checkpoint_def insert_new_def row_def)
  moreover have "h \<in> set (map snd (v_checkpoints v))"
    by (simp add: v_def next_version_def snd_dict_set)
  ultimately obtain q where "q \<in> set (checkpoints (w_db w1))" "k_hash q \<in> set (map snd (v_checkpoints v))" by auto
  then have "filter (\<lambda>r. k_hash r \<in> set (map snd (v_checkpoints v))) (checkpoints (w_db w1)) \<noteq> []" by (auto simp: filter_empty_conv)
  then have ne: "checkpoint_files (map snd (v_checkpoints v)) (w_db w1) \<noteq> []"
    unfolding checkpoint_files_def using dict_of_Cons by (metis (no_types, lifting) list.map_disc_iff neq_Nil_conv)
  from boosters_load [OF ready1 wk(1) ne, of "wk_gen wk"] obtain bs c where
      load: "load_ensemble (wk_rt wk) (wk_gen wk) (checkpoint_files (map snd (v_checkpoints v)) (w_db w1)) (w_disk w1, w_cache w1)
        = (Inr (Gbdt_Ensemble bs), (w_disk w1, c))" "\<forall>k e. c k = Some e \<longrightarrow> (\<exists>bs. e = Gbdt_Ensemble bs)"
    by blast
  define w2 where "w2 = w1\<lparr>w_cache := c, w_db := (w_db w1)\<lparr>eval_results := insert_new e_version
      \<lparr>e_version = v_name v, e_auc = 1 / 2, e_n = 0, e_computed = now\<rparr> (eval_results (w_db w1))\<rparr>\<rparr>"
  have nf: "\<not> w_failed w" "\<not> w_failed w1" using ready ready1 by (simp_all add: boosters_ready_def)
  have probs: "predict_proba (wk_rt wk) (Gbdt_Ensemble bs) (eval_rows wk) = Inr []"
    by (simp add: predict_proba_def probabilities_defs wk features_def)
  have score: "auc (eval_labels wk) ([] :: 'a list) = Inr (1 / 2)" by (simp add: auc_def wk)
  have "record_eval wk now (v_name v) (v_checkpoints v) w1 = (Inr (1 / 2), w2)"
    using nf(2) load(1) probs score
    by (simp add: record_eval_def io_bind_def select_def execute_def on_models_def io_lift_def update_def io_return_def w2_def wk)
  then have "promote wk now k h w = (Inr (), w2)"
    using nf(1) art
    by (simp add: promote_def io_bind_def on_disk_def update_def select_def execute_def Let_def io_return_def w1_def v_def row_def)
  moreover have "boosters_ready w2" using ready1 load(2) by (simp add: boosters_ready_def w2_def)
  moreover have "erasure_jobs (w_db w2) = erasure_jobs (w_db w)" "erasure_manifests (w_db w2) = erasure_manifests (w_db w)"
      "gbdt_json (w_disk w2) = gbdt_json (w_disk w)"
    by (simp_all add: w2_def w1_def add_version_def add_checkpoint_def d1_def)
  ultimately show ?thesis by blast
qed

end
