(* ===== verification/System.thy ===== *)
theory System
  imports Jobs
begin

text \<open>
  The gateway's intake and the workers over one database and one set of files: what every
  interleaving of requests, claims, work and crashes keeps, and what goes wrong.
\<close>

section \<open>The invariant of the whole system\<close>

text \<open>Every stored certificate is a manifest that verifies and names the subject of its job.\<close>

definition tables_ok :: "(bytes \<Rightarrow> bytes \<Rightarrow> bytes \<Rightarrow> bool) \<Rightarrow> bytes \<Rightarrow> db \<Rightarrow> bool" where
  "tables_ok ed_verify pk db \<longleftrightarrow> db_ok db
     \<and> (\<forall>row\<in>set (erasure_manifests db). \<exists>j\<in>set (erasure_jobs db). \<exists>m.
          j_id j = m_id row \<and> m_json row = reload (PDict m) \<and> certifies ed_verify pk (j_ref j) m)"

definition held_ok :: "claimed list \<Rightarrow> db \<Rightarrow> bool" where
  "held_ok H db \<longleftrightarrow> (\<forall>c\<in>set H. \<exists>j\<in>set (erasure_jobs db). j_id j = c_id c \<and> j_ref j = c_ref c)"

definition done_refs :: "db \<Rightarrow> string set" where
  "done_refs db = j_ref ` {j \<in> set (erasure_jobs db). j_status j = Done}"

text \<open>The same request; and tables that have grown out of others: nothing has been forgotten.\<close>

definition same_request :: "job \<Rightarrow> job \<Rightarrow> bool" where
  "same_request j j' \<longleftrightarrow> j_id j' = j_id j \<and> j_ref j' = j_ref j \<and> j_reason j' = j_reason j \<and> j_shard j' = j_shard j
     \<and> j_key j' = j_key j \<and> j_by j' = j_by j \<and> j_deadline j' = j_deadline j \<and> j_created j' = j_created j
     \<and> j_attempts j \<le> j_attempts j'"

definition grown :: "db \<Rightarrow> db \<Rightarrow> bool" where
  "grown G db \<longleftrightarrow> (\<forall>j\<in>set (erasure_jobs G). \<exists>j'\<in>set (erasure_jobs db). same_request j j')
     \<and> set (erasure_manifests G) \<subseteq> set (erasure_manifests db)"

definition sys_inv ::
  "(bytes \<Rightarrow> bytes \<Rightarrow> bytes \<Rightarrow> bool) \<Rightarrow> bytes \<Rightarrow> db \<Rightarrow> claimed list \<Rightarrow> string set \<Rightarrow> ('f, 't) disk \<Rightarrow> db \<Rightarrow> bool" where
  "sys_inv ed_verify pk G H X d db \<longleftrightarrow> tables_ok ed_verify pk db \<and> held_ok H db \<and> grown G db \<and> files_ok (X \<union> done_refs db) d"

lemma same_request_refl: "same_request j j"
  by (simp add: same_request_def)

lemma same_request_trans: "same_request i j \<Longrightarrow> same_request j k \<Longrightarrow> same_request i k"
  by (auto simp: same_request_def)

lemma grown_refl: "grown G G"
  using same_request_refl by (auto simp: grown_def)

lemma files_ok_mono: "files_ok X d \<Longrightarrow> Y \<subseteq> X \<Longrightarrow> files_ok Y d"
  unfolding files_ok_def gone_def by (meson disjoint_iff subsetD)

lemma gone_iff:
  "gone X d \<longleftrightarrow> (\<forall>x\<in>X. (\<forall>k rows. shard_npz d k = Some rows \<longrightarrow> x \<notin> row_ref ` set rows)
     \<and> (\<forall>R. routing_json d = Some R \<longrightarrow> x \<notin> fst ` set R))"
  by (simp add: gone_def disjoint_iff) blast

lemma files_ok_union: "files_ok (X \<union> Y) d \<longleftrightarrow> files_ok X d \<and> files_ok Y d"
  unfolding files_ok_def gone_iff by (simp add: ball_Un) blast

lemma sys_inv_other:
  "sys_inv ed_verify pk G H X d db \<Longrightarrow> erasure_jobs db' = erasure_jobs db \<Longrightarrow> erasure_manifests db' = erasure_manifests db
    \<Longrightarrow> sys_inv ed_verify pk G H X d db'"
  by (simp add: sys_inv_def tables_ok_def held_ok_def done_refs_def db_ok_def grown_def)

lemma sys_inv_map:
  assumes "sys_inv ed_verify pk G H X d db"
    and same: "\<And>j. same_request j (f j)"
    and "\<And>j. j \<in> set (erasure_jobs db) \<Longrightarrow> job_ok (erasure_manifests db) j \<Longrightarrow> job_ok (erasure_manifests db) (f j)"
    and "\<And>j. j \<in> set (erasure_jobs db) \<Longrightarrow> j_status (f j) = Done \<Longrightarrow> j_status j = Done \<or> j_ref j \<in> X"
  shows "sys_inv ed_verify pk G H X d (db\<lparr>erasure_jobs := map f (erasure_jobs db)\<rparr>)"
proof -
  let ?db = "db\<lparr>erasure_jobs := map f (erasure_jobs db)\<rparr>"
  have f: "j_id (f j) = j_id j" "j_by (f j) = j_by j" "j_key (f j) = j_key j" "j_ref (f j) = j_ref j" for j
    using same [of j] by (simp_all add: same_request_def)
  have "db_ok (db\<lparr>erasure_jobs := map f (erasure_jobs db)\<rparr>)"
    by (rule db_ok_map) (use assms(1,3) f in \<open>simp_all add: sys_inv_def tables_ok_def\<close>)
  moreover have "grown G ?db"
    unfolding grown_def
  proof (intro conjI ballI)
    fix j assume "j \<in> set (erasure_jobs G)"
    then obtain j' where "j' \<in> set (erasure_jobs db)" "same_request j j'" using assms(1) by (auto simp: sys_inv_def grown_def)
    then show "\<exists>j'\<in>set (erasure_jobs ?db). same_request j j'" using same_request_trans [OF _ same [of j']] by auto
  qed (use assms(1) in \<open>simp add: sys_inv_def grown_def\<close>)
  moreover have "X \<union> done_refs (db\<lparr>erasure_jobs := map f (erasure_jobs db)\<rparr>) \<subseteq> X \<union> done_refs db"
  proof
    fix x assume x: "x \<in> X \<union> done_refs (db\<lparr>erasure_jobs := map f (erasure_jobs db)\<rparr>)"
    show "x \<in> X \<union> done_refs db"
    proof (cases "x \<in> X")
      case False
      with x obtain j where j: "j \<in> set (erasure_jobs db)" "j_status (f j) = Done" "x = j_ref j"
        using f by (auto simp: done_refs_def)
      with assms(4) [OF j(1,2)] show ?thesis by (auto simp: done_refs_def)
    qed simp
  qed
  ultimately show ?thesis
    using assms(1) f files_ok_mono [of "X \<union> done_refs db" d] by (simp add: sys_inv_def tables_ok_def held_ok_def)
qed

lemma keeps_disk_step:
  assumes "\<And>X. keeps (files_ok X) m"
  shows "keeps (wpred (sys_inv ed_verify pk G H X)) (on_disk m)"
  using assms by (intro keeps_on_disk) (simp add: keeps_def sys_inv_def)

lemma keeps_models_step: "keeps (wpred A) (on_models (load_ensemble rt g paths))"
  by (rule keeps_on_models) (simp add: load_ensemble_def Let_def split: option.split sum.split)

section \<open>Each step keeps it\<close>

lemma keeps_promote_artifact: "keeps (files_ok X) (promote_artifact rt k w)"
  unfolding promote_artifact_def Let_def
  by (intro keeps_intros keeps_modify) (erule files_ok_other, simp_all)

lemma keeps_in_scratch:
  fixes m :: "(('f, 't) disk, 'a) io"
  assumes "keeps (files_ok X) m"
  shows "keeps (files_ok X) (in_scratch dir m)"
  unfolding keeps_def
proof (intro allI impI)
  fix d :: "('f, 't) disk" assume "files_ok X d"
  with assms have "files_ok X (snd (m d))" by (simp add: keeps_def)
  then show "files_ok X (snd (in_scratch dir m d))"
    by (simp add: in_scratch_def case_prod_beta) (erule files_ok_other, simp_all add: remove_dir_def)
qed

lemma keeps_replay: "keeps (files_ok X) (active_replay_digest rt scratch k payload)"
  unfolding active_replay_digest_def
  by (cases "rt_engine rt"; cases payload) (auto intro!: keeps_intros keeps_in_scratch keeps_train_shard)

lemma keeps_record_eval: "keeps (wpred (sys_inv ed_verify pk G H X)) (record_eval wk now version cps)"
  unfolding record_eval_def
  by (intro keeps_intros keeps_models_step keeps_update) (erule sys_inv_other, simp_all)

lemma keeps_promote: "keeps (wpred (sys_inv ed_verify pk G H X)) (promote wk now k w)"
  unfolding promote_def Let_def add_checkpoint_def add_version_def
  by (intro keeps_intros keeps_disk_step keeps_promote_artifact keeps_record_eval keeps_update; (erule sys_inv_other)?; simp)

lemma keeps_set_failed: "keeps (wpred (sys_inv ed_verify pk G H X)) (update (set_failed err ids))"
  unfolding set_failed_def
  by (rule keeps_update, erule sys_inv_map) (auto simp: job_ok_def same_request_def split: if_splits)

lemma keeps_spot_check: "keeps (wpred (sys_inv ed_verify pk G H X)) (run_spot_check wk i k payload w)"
  unfolding run_spot_check_def insert_check_def
  by (intro keeps_intros keeps_disk_step keeps_replay keeps_execute) (auto split: if_splits elim!: sys_inv_other)

lemma insert_manifest_inv:
  assumes inv: "sys_inv ed_verify pk G H X d db" and ins: "insert_manifest row db = Inr (u, db')"
    and c: "c \<in> set H" "m_id row = c_id c" "m_json row = reload (PDict m)" "certifies ed_verify pk (c_ref c) m"
  shows "sys_inv ed_verify pk G H X d db' \<and> c_id c \<in> m_id ` set (erasure_manifests db')"
proof -
  have db': "db' = db\<lparr>erasure_manifests := erasure_manifests db @ [row]\<rparr>"
    using ins by (auto simp: insert_manifest_def insert_row_def res_simps split: if_splits)
  obtain j where j: "j \<in> set (erasure_jobs db)" "j_id j = c_id c" "j_ref j = c_ref c"
    using inv c(1) by (auto simp: sys_inv_def held_ok_def)
  have "db_ok db'" unfolding db' by (rule db_ok_manifest) (use inv in \<open>auto simp: sys_inv_def tables_ok_def\<close>)
  moreover have "\<exists>j\<in>set (erasure_jobs db). \<exists>m. j_id j = m_id r \<and> m_json r = reload (PDict m) \<and> certifies ed_verify pk (j_ref j) m"
    if "r \<in> set (erasure_manifests db')" for r
  proof (cases "r = row")
    case True
    with j c show ?thesis by metis
  next
    case False
    with that have "r \<in> set (erasure_manifests db)" by (simp add: db')
    with inv show ?thesis by (simp add: sys_inv_def tables_ok_def)
  qed
  ultimately show ?thesis
    using inv c(2) by (auto simp: db' sys_inv_def tables_ok_def held_ok_def done_refs_def grown_def)
qed

lemma set_done_inv:
  assumes inv: "sys_inv ed_verify pk G H X d db" and c: "c \<in> set H" "c_ref c \<in> X" "c_id c \<in> m_id ` set (erasure_manifests db)"
  shows "sys_inv ed_verify pk G H X d (set_done now (c_id c) db)"
  unfolding set_done_def
proof (rule sys_inv_map [OF inv])
  obtain j0 where j0: "j0 \<in> set (erasure_jobs db)" "j_id j0 = c_id c" "j_ref j0 = c_ref c"
    using inv c(1) by (auto simp: sys_inv_def held_ok_def)
  have inj: "inj_on j_id (set (erasure_jobs db))" using inv by (simp add: sys_inv_def tables_ok_def db_ok_def distinct_map)
  fix j assume j: "j \<in> set (erasure_jobs db)"
    "j_status (if j_id j = c_id c then j\<lparr>j_status := Done, j_completed := Some now, j_worker := None, j_lease := None\<rparr> else j) = Done"
  show "j_status j = Done \<or> j_ref j \<in> X"
  proof (cases "j_id j = c_id c")
    case True
    with j0 j(1) inj have "j = j0" by (simp add: inj_onD)
    with j0 c(2) show ?thesis by simp
  qed (use j(2) in simp)
qed (use c(3) in \<open>auto simp: job_ok_def same_request_def\<close>)

lemma keeps_finish_job:
  assumes "c \<in> set H" "c_ref c \<in> X" "map_of ms (c_ref c) = Some m" "certifies ed_verify pk (c_ref c) m"
  shows "keeps (wpred (sys_inv ed_verify pk G H X)) (finish_job now ms c)"
  unfolding hoare_keeps [symmetric] finish_job_def assms(3) option.case
proof (rule hoare_bind_lift, assumption)
  fix row assume "manifest_row_of now (c_id c) m = Inr row"
  then have row: "m_id row = c_id c" "m_json row = reload (PDict m)" by (auto simp: manifest_row_of_def res_simps)
  let ?I = "sys_inv ed_verify pk G H X"
  have "hoare (wpred ?I) (execute (insert_manifest row))
      (\<lambda>_. wpred (\<lambda>d db. ?I d db \<and> c_id c \<in> m_id ` set (erasure_manifests db))) (wpred ?I)"
    by (rule hoare_execute) (auto dest: insert_manifest_inv [OF _ _ assms(1) row assms(4)])
  moreover have "hoare (wpred (\<lambda>d db. ?I d db \<and> c_id c \<in> m_id ` set (erasure_manifests db))) (update (set_done now (c_id c)))
      (\<lambda>_. wpred ?I) (wpred ?I)"
    by (rule hoare_update) (auto intro: set_done_inv [OF _ assms(1,2)])
  ultimately show "hoare (wpred ?I) (io_bind (execute (insert_manifest row)) (\<lambda>_. update (set_done now (c_id c)))) (\<lambda>_. wpred ?I) (wpred ?I)"
    by (rule hoare_bind)
qed

lemma rebuild_step:
  assumes "signs (wk_rt wk) ed_verify pk"
  shows "hoare (wpred (sys_inv ed_verify pk G H X)) (on_disk (active_rebuild (wk_rt wk) pa ca refs))
    (\<lambda>r. wpred (\<lambda>d db. sys_inv ed_verify pk G H (X \<union> set refs) d db
        \<and> (\<forall>ref\<in>set refs. \<exists>m. map_of (manifests r) ref = Some m \<and> certifies ed_verify pk ref m)))
    (wpred (sys_inv ed_verify pk G H X))"
proof (rule hoare_on_disk, rule hoareI)
  fix db d r d' assume d: "sys_inv ed_verify pk G H X d db" "active_rebuild (wk_rt wk) pa ca refs d = (Inr r, d')"
  then have ok: "files_ok (X \<union> done_refs db) d" by (simp add: sys_inv_def)
  have "files_ok ((X \<union> done_refs db) \<union> set refs) d'" by (rule active_returns [OF ok d(2)])
  then have "files_ok ((X \<union> set refs) \<union> done_refs db) d'" by (simp add: Un_ac)
  with d(1) active_certifies [OF ok d(2) assms]
  show "sys_inv ed_verify pk G H (X \<union> set refs) d' db \<and> (\<forall>ref\<in>set refs. \<exists>m. map_of (manifests r) ref = Some m \<and> certifies ed_verify pk ref m)"
    by (simp add: sys_inv_def)
next
  fix db d e d' assume d: "sys_inv ed_verify pk G H X d db" "active_rebuild (wk_rt wk) pa ca refs d = (Inl e, d')"
  then show "sys_inv ed_verify pk G H X d' db" using active_raises [OF _ d(2)] by (simp add: sys_inv_def)
qed

lemma sys_inv_mono: "sys_inv ed_verify pk G H X d db \<Longrightarrow> Y \<subseteq> X \<Longrightarrow> sys_inv ed_verify pk G H Y d db"
  unfolding sys_inv_def using files_ok_mono [of "X \<union> done_refs db" d "Y \<union> done_refs db"] by blast

lemma keeps_process_group:
  fixes wk :: "('f::linorder, 'o, 'g, 't) worker"
  assumes "signs (wk_rt wk) ed_verify pk" "set (snd g) \<subseteq> set H"
  shows "keeps (wpred (sys_inv ed_verify pk G H X)) (process_group wk now stamp g)"
proof -
  obtain k group where g: "g = (k, group)" by (cases g)
  let ?refs = "map c_ref group" and ?I = "\<lambda>Y. wpred (sys_inv ed_verify pk G H Y)" and ?ids = "set (map c_id group)"
  let ?good = "\<lambda>r. \<forall>ref\<in>set ?refs. \<exists>m. map_of (manifests r) ref = Some m \<and> certifies ed_verify pk ref m"
  define rest :: "('f, 't) payload rebuild_result res \<Rightarrow> (('f, 't) world, unit) io" where "rest = (\<lambda>rebuilt. case rebuilt of
       Inl e \<Rightarrow> update (set_failed (Rebuild_Failed e) ?ids)
     | Inr result \<Rightarrow>
         io_bind (io_attempt
           (io_bind (promote wk now k (result_weights result)) (\<lambda>_.
            io_fold (\<lambda>c _. finish_job now (manifests result) c) group ()))) (\<lambda>recorded.
         case recorded of
           Inl e \<Rightarrow> update (set_failed (Bookkeeping_Failed e k) ?ids)
         | Inr _ \<Rightarrow>
             io_fold (\<lambda>c _. if should_spot_check wk (c_id c)
                            then io_bind (io_attempt (run_spot_check wk (c_id c) k (replay result) (result_weights result)))
                                   (\<lambda>_. io_return ())
                            else io_return ()) group ()))"
  have ok: "keeps (?I (X \<union> set ?refs)) (rest (Inr r))" if good: "?good r" for r
  proof -
    have finish: "keeps (?I (X \<union> set ?refs)) (finish_job now (manifests r) c)" if c: "c \<in> set group" for c
    proof -
      obtain m where "map_of (manifests r) (c_ref c) = Some m" "certifies ed_verify pk (c_ref c) m" using good c by auto
      then show ?thesis using c assms(2) by (intro keeps_finish_job) (auto simp: g)
    qed
    have book: "keeps (?I (X \<union> set ?refs)) (io_attempt (io_bind (promote wk now k (result_weights r)) (\<lambda>_.
          io_fold (\<lambda>c _. finish_job now (manifests r) c) group ())))"
      by (intro keeps_intros keeps_promote finish)
    have spot: "keeps (?I (X \<union> set ?refs)) (io_fold (\<lambda>c _. if should_spot_check wk (c_id c)
          then io_bind (io_attempt (run_spot_check wk (c_id c) k (replay r) (result_weights r))) (\<lambda>_. io_return ())
          else io_return ()) group ())"
      by (intro keeps_intros keeps_spot_check)
    show ?thesis
      unfolding rest_def sum.case by (rule keeps_bind [OF book]) (use spot in \<open>simp split: sum.split add: keeps_set_failed\<close>)
  qed
  have "hoare (?I X) (io_bind (io_attempt (on_disk (active_rebuild (wk_rt wk) (fst (stamp k)) (snd (stamp k)) ?refs))) rest)
      (\<lambda>_. ?I X) (?I X)"
  proof (rule hoare_bind [OF hoare_attempt [OF rebuild_step [OF assms(1)]]])
    fix x :: "('f, 't) payload rebuild_result res"
    show "hoare (\<lambda>w. case x of Inl e \<Rightarrow> ?I X w
        | Inr r \<Rightarrow> wpred (\<lambda>d db. sys_inv ed_verify pk G H (X \<union> set ?refs) d db \<and> ?good r) w) (rest x) (\<lambda>_. ?I X) (?I X)"
    proof (cases x)
      case (Inl e)
      then show ?thesis by (simp add: rest_def hoare_keeps keeps_set_failed)
    next
      case (Inr r)
      show ?thesis
        unfolding Inr sum.case
      proof (rule hoare_pure [where A = "?good r"])
        assume "?good r"
        then have "hoare (?I (X \<union> set ?refs)) (rest (Inr r)) (\<lambda>_. ?I (X \<union> set ?refs)) (?I (X \<union> set ?refs))"
          unfolding hoare_keeps by (rule ok)
        then show "hoare (wpred (\<lambda>d db. sys_inv ed_verify pk G H (X \<union> set ?refs) d db \<and> ?good r)) (rest (Inr r)) (\<lambda>_. ?I X) (?I X)"
          by (rule hoare_weaken) (auto simp: wpred_def intro: sys_inv_mono)
      qed (simp add: wpred_def)
    qed
  qed
  then show ?thesis by (simp only: hoare_keeps process_group_def g Let_def prod.case rest_def)
qed

lemma keeps_process_claimed:
  assumes "signs (wk_rt wk) ed_verify pk" "set jobs \<subseteq> set H"
  shows "keeps (wpred (sys_inv ed_verify pk G H X)) (process_claimed wk now stamp jobs)"
  unfolding process_claimed_def
proof (intro keeps_intros keeps_process_group assms(1))
  fix g assume "g \<in> set (groupby c_shard (sort_key c_shard jobs))"
  then have "set (snd g) \<subseteq> set (concat (map snd (groupby c_shard (sort_key c_shard jobs))))" by auto
  then show "set (snd g) \<subseteq> set H" using assms(2) by (simp add: groupby_concat)
qed

section \<open>Claims\<close>

lemma reap_inv:
  "sys_inv ed_verify pk G H X d db \<Longrightarrow> sys_inv ed_verify pk G H X d (snd (reap_expired_leases now db))"
  unfolding reap_expired_leases_def snd_conv
  by (erule sys_inv_map) (auto simp: requeue_def job_ok_def same_request_def split: if_splits)

lemma claim_inv:
  assumes "sys_inv ed_verify pk G H X d db" "claim_batch worker now secs locked limit db = (jobs, db')"
  shows "sys_inv ed_verify pk G (jobs @ H) X d db'"
proof -
  have ok: "db_ok db" using assms(1) by (simp add: sys_inv_def tables_ok_def)
  note claim = claim_batch_facts [OF ok assms(2)]
  have "sys_inv ed_verify pk G H X d (snd (claim_batch worker now secs locked limit db))"
    unfolding claim_batch_def Let_def snd_conv
    by (rule sys_inv_map [OF assms(1)]) (auto simp: lease_job_def job_ok_def same_request_def split: if_splits)
  then have inv: "sys_inv ed_verify pk G H X d db'" using assms(2) by simp
  have "\<exists>j\<in>set (erasure_jobs db'). j_id j = c_id c \<and> j_ref j = c_ref c" if c: "c \<in> set jobs" for c
  proof -
    from claim c obtain j where j: "j \<in> set (erasure_jobs db)" "c = \<lparr>c_id = j_id j, c_ref = j_ref j, c_shard = j_shard j\<rparr>" by blast
    have "erasure_jobs db' = map (\<lambda>j. if j_id j \<in> c_id ` set jobs then lease_job worker (now + secs) j else j) (erasure_jobs db)"
      using claim by blast
    with j(1) have "(if j_id j \<in> c_id ` set jobs then lease_job worker (now + secs) j else j) \<in> set (erasure_jobs db')"
      by (simp only: set_map image_eqI)
    then show ?thesis by (rule rev_bexI) (use j(2) in \<open>simp add: lease_job_def\<close>)
  qed
  with inv show ?thesis by (auto simp: sys_inv_def held_ok_def)
qed

lemma claim_step_inv:
  assumes "wpred (sys_inv ed_verify pk G H X) w" "claim_step wk now locked w = (Inr jobs, w')"
  shows "wpred (sys_inv ed_verify pk G (jobs @ H) X) w'"
proof -
  let ?db1 = "snd (reap_expired_leases now (w_db w))"
  obtain db2 where claim: "claim_batch (WORKER_ID wk) now (LEASE_SECONDS wk) locked (POLL_BATCH_SIZE wk) ?db1 = (jobs, db2)"
    and w': "w_disk w' = w_disk w" "w_db w' = db2"
    using assms(2) by (auto simp: claim_step_def transaction_def io_bind_def execute_def split: prod.splits)
  have "sys_inv ed_verify pk G H X (w_disk w) ?db1" by (rule reap_inv) (use assms(1) in \<open>simp add: wpred_def\<close>)
  from claim_inv [OF this claim] show ?thesis by (simp add: wpred_def w')
qed

section \<open>The system\<close>

text \<open>
  Requests, workers that claim, workers that process what they claimed, a worker that dies
  at the end of the work before its transaction commits (or before it starts), and
  processes with caches of their own. \<open>held\<close> are the batches that have been claimed and not
  finished; a worker whose lease has expired still holds its batch. Other ways to die, in
  the middle of writing files, are not steps.
\<close>

type_synonym ('f, 't) sys = "('f, 't) world \<times> claimed list list"

inductive sys_step :: "('f::linorder, 'o, 'g, 't) runtime \<Rightarrow> ('f, 't) sys \<Rightarrow> ('f, 't) sys \<Rightarrow> bool" for rt where
  submit: "map_of (subject_shard_map (w_db w)) ref = Some en
    \<Longrightarrow> insert_or_get new_id now ref reason (e_shard en) key deadline caller (w_db w) = Inr (x, db')
    \<Longrightarrow> sys_step rt (w, held) (w\<lparr>w_db := db'\<rparr>, held)"
| claim: "wk_rt wk = rt \<Longrightarrow> claim_step wk now locked w = (Inr jobs, w') \<Longrightarrow> sys_step rt (w, held) (w', jobs # held)"
| work: "wk_rt wk = rt \<Longrightarrow> jobs \<in> set held \<Longrightarrow> transaction (process_claimed wk now stamp jobs) w = (r, w')
    \<Longrightarrow> sys_step rt (w, held) (w', remove1 jobs held)"
| crash: "wk_rt wk = rt \<Longrightarrow> jobs \<in> set held \<Longrightarrow> process_claimed wk now stamp jobs (w\<lparr>w_failed := False\<rparr>) = (r, w')
    \<Longrightarrow> sys_step rt (w, held) (w'\<lparr>w_db := w_db w, w_failed := False\<rparr>, remove1 jobs held)"
| lose: "jobs \<in> set held \<Longrightarrow> sys_step rt (w, held) (w, remove1 jobs held)"
| other_process: "(\<And>k t. caches k = Some t \<Longrightarrow> tree_ok t)
    \<Longrightarrow> sys_step rt (w, held) (w\<lparr>w_disk := (w_disk w)\<lparr>tree_caches := caches\<rparr>, w_cache := models\<rparr>, held)"

lemma held_ok_sub: "held_ok H db \<Longrightarrow> set H' \<subseteq> set H \<Longrightarrow> held_ok H' db"
  by (auto simp: held_ok_def)

lemma sys_inv_held: "sys_inv ed_verify pk G H X d db \<Longrightarrow> set H' \<subseteq> set H \<Longrightarrow> sys_inv ed_verify pk G H' X d db"
  by (auto simp: sys_inv_def intro: held_ok_sub)

lemma insert_or_get_inv:
  assumes inv: "sys_inv ed_verify pk G H X d db" and ins: "insert_or_get new_id now ref reason shard key deadline caller db = Inr (x, db')"
  shows "sys_inv ed_verify pk G H X d db'"
proof -
  have "db_ok db" using inv by (simp add: sys_inv_def tables_ok_def)
  then have ok: "db_ok db'" using ins by (rule db_ok_insert)
  consider "db' = db" | j where "j_status j = Queued" "db' = db\<lparr>erasure_jobs := erasure_jobs db @ [j]\<rparr>"
  proof (cases "job_with_key caller key (erasure_jobs db)")
    case None
    with ins have "db' = db\<lparr>erasure_jobs := erasure_jobs db @ [new_job new_id ref reason shard key deadline caller now]\<rparr>"
      by (auto simp: insert_or_get_def insert_row_def res_simps split: if_splits)
    then show thesis by (rule that(2) [rotated]) (simp add: new_job_def)
  next
    case (Some j)
    with ins have "db' = db" by (simp add: insert_or_get_def split: if_splits)
    then show thesis by (rule that(1))
  qed
  then show ?thesis
  proof cases
    case 2
    then have "done_refs db' = done_refs db" by (auto simp: done_refs_def)
    with inv ok 2 show ?thesis by (fastforce simp: sys_inv_def tables_ok_def held_ok_def grown_def)
  qed (use inv in simp)
qed

lemma work_inv:
  assumes "signs (wk_rt wk) ed_verify pk" "jobs \<in> set held" "wpred (sys_inv ed_verify pk G (concat held) {}) w"
    and "process_claimed wk now stamp jobs (w\<lparr>w_failed := False\<rparr>) = (r, w')"
  shows "sys_inv ed_verify pk G (concat held) {} (w_disk w') (w_db w')" "sys_inv ed_verify pk G (concat held) {} (w_disk w') (w_db w)"
proof -
  have sub: "set jobs \<subseteq> set (concat held)" using assms(2) by auto
  have start: "wpred (sys_inv ed_verify pk G (concat held) (done_refs (w_db w))) (w\<lparr>w_failed := False\<rparr>)"
    using assms(3) by (simp add: wpred_def sys_inv_def)
  have fin: "sys_inv ed_verify pk G (concat held) (done_refs (w_db w)) (w_disk w') (w_db w')"
    using keepsD [OF keeps_process_claimed [OF assms(1) sub] start assms(4)] by (simp add: wpred_def)
  then show "sys_inv ed_verify pk G (concat held) {} (w_disk w') (w_db w')" by (rule sys_inv_mono) simp
  show "sys_inv ed_verify pk G (concat held) {} (w_disk w') (w_db w)"
    using fin assms(3) files_ok_mono by (fastforce simp: wpred_def sys_inv_def)
qed

lemma remove1_sub: "set (concat (remove1 jobs held)) \<subseteq> set (concat held)"
  using set_remove1_subset [of jobs held] by auto

lemmas sys_inv_finish = sys_inv_held [OF _ remove1_sub]

lemma sys_step_inv:
  assumes "signs rt ed_verify pk" "sys_step rt s s'" "wpred (sys_inv ed_verify pk G (concat (snd s)) {}) (fst s)"
  shows "wpred (sys_inv ed_verify pk G (concat (snd s')) {}) (fst s')"
  using assms(2,3)
proof (cases rule: sys_step.cases)
  case (submit w ref en new_id now reason key deadline caller x db' held)
  with assms(3) show ?thesis by (auto simp: wpred_def intro: insert_or_get_inv)
next
  case (claim wk now locked w jobs w' held)
  with assms(3) claim_step_inv [OF _ claim(4)] show ?thesis by simp
next
  case (work wk jobs held now stamp w r w')
  obtain r0 w0 where run: "process_claimed wk now stamp jobs (w\<lparr>w_failed := False\<rparr>) = (r0, w0)"
    by (cases "process_claimed wk now stamp jobs (w\<lparr>w_failed := False\<rparr>)")
  have "wpred (sys_inv ed_verify pk G (concat held) {}) w" using assms(3) work(1) by simp
  with work(3,4) assms(1) have inv: "sys_inv ed_verify pk G (concat held) {} (w_disk w0) (w_db w0)"
      "sys_inv ed_verify pk G (concat held) {} (w_disk w0) (w_db w)"
    using work_inv [OF _ _ _ run] by blast+
  have "w_disk w' = w_disk w0 \<and> (w_db w' = w_db w0 \<or> w_db w' = w_db w)"
    using work(5) run by (auto simp: transaction_def split: sum.splits if_splits)
  with inv have "sys_inv ed_verify pk G (concat held) {} (w_disk w') (w_db w')" by auto
  then show ?thesis using work(2) by (simp add: wpred_def sys_inv_finish)
next
  case (crash wk jobs held now stamp w r w')
  have "wpred (sys_inv ed_verify pk G (concat held) {}) w" using assms(3) crash(1) by simp
  with crash(3,4) assms(1) have "sys_inv ed_verify pk G (concat held) {} (w_disk w') (w_db w)"
    using work_inv(2) [OF _ _ _ crash(5)] by blast
  then show ?thesis using crash(2) by (simp add: wpred_def sys_inv_finish)
next
  case (lose jobs held w)
  with assms(3) show ?thesis by (simp add: wpred_def sys_inv_finish)
next
  case (other_process caches w held models)
  have "files_ok X d \<Longrightarrow> files_ok X (d\<lparr>tree_caches := caches\<rparr>)" for X and d :: "('a, 'd) disk"
    using other_process(3) by (simp add: files_ok_def disk_ok_def gone_def caches_ok_def aligned_def split: option.split)
  with assms(3) other_process show ?thesis by (simp add: wpred_def sys_inv_def)
qed

lemma sys_reach_inv:
  assumes "(sys_step rt)\<^sup>*\<^sup>* s s'" "signs rt ed_verify pk" "wpred (sys_inv ed_verify pk G (concat (snd s)) {}) (fst s)"
  shows "wpred (sys_inv ed_verify pk G (concat (snd s')) {}) (fst s')"
  using assms(1,3) by (induction rule: rtranclp_induct) (blast intro: sys_step_inv [OF assms(2)])+

text \<open>The system starts with no job and with files in good order.\<close>

definition sys_start :: "('f, 't) world \<Rightarrow> bool" where
  "sys_start w \<longleftrightarrow> disk_ok (w_disk w) \<and> erasure_jobs (w_db w) = [] \<and> erasure_manifests (w_db w) = []"

lemma sys_start_inv: "sys_start w \<Longrightarrow> wpred (sys_inv ed_verify pk (w_db w) [] {}) w"
  by (simp add: sys_start_def wpred_def sys_inv_def tables_ok_def db_ok_def held_ok_def done_refs_def grown_def
      files_ok_def gone_def)

lemma routed_gone:
  assumes "gone {ref} d" "routing_json d = Some R" "ref \<in> set refs"
  shows "active_rebuild rt pa ca refs d = (Inl KeyError, d)"
proof -
  have "map_of R ref = None" using assms(1,2) by (auto simp: gone_def map_of_eq_None_iff)
  with assms(3) have "batch_target R refs = Inl KeyError" by (auto simp: batch_target_def)
  moreover have "refs \<noteq> []" using assms(3) by auto
  ultimately show ?thesis
    using assms(2) by (cases "rt_engine rt")
      (simp_all add: active_rebuild_def rebuild_batch_by_ref_def gbdt_rebuild_batch_by_ref_def io_bind_def io_when_def
        io_return_def load_routing_def io_read_def io_lift_def)
qed

lemma active_routing:
  assumes "active_rebuild rt pa ca refs d = (Inr r, d')"
  shows "\<exists>R. routing_json d' = Some R"
proof (cases "rt_engine rt")
  case ENGINE_MLP
  with assms show ?thesis by (auto simp: active_mlp rebuild_iff mlp_writes_def)
next
  case ENGINE_GBDT
  with assms show ?thesis by (auto simp: active_gbdt gbdt_rebuild_iff gbdt_writes_def)
qed

lemma process_gone:
  assumes "gone {c_ref c} (w_disk w)" "routing_json (w_disk w) = Some R"
  shows "transaction (process_claimed wk now stamp [c]) w
    = (Inr (), w\<lparr>w_db := set_failed (Rebuild_Failed KeyError) {c_id c} (w_db w), w_failed := False\<rparr>)"
proof -
  have "active_rebuild (wk_rt wk) (fst (stamp (c_shard c))) (snd (stamp (c_shard c))) [c_ref c] (w_disk w) = (Inl KeyError, w_disk w)"
    by (rule routed_gone [OF assms]) simp
  then show ?thesis
    by (simp add: transaction_def process_claimed_def process_group_def Let_def io_bind_def io_attempt_def on_disk_def
        update_def execute_def io_return_def)
qed

section \<open>A deployment of two subjects\<close>

text \<open>It runs the tree engine; the worker samples nothing.\<close>

definition small_worker :: "(int, unit, nat, int) worker" where
  "small_worker = \<lparr>wk_rt = small_runtime ENGINE_GBDT, wk_gen = 0, eval_rows = [], eval_labels = [], pick_version = hd,
     AUDIT_KEY = [], SPOT_CHECK_RATE = 0, LEASE_SECONDS = 30, POLL_BATCH_SIZE = 5, WORKER_ID = ''w'', scratch_dir = ''tmp''\<rparr>"

definition small_world :: "(int, int) world" where
  "small_world = \<lparr>w_disk = small_disk 3, w_cache = Map.empty, w_db = \<lparr>subject_shard_map = small_routing, erasure_jobs = [],
     erasure_manifests = [], reproducibility_checks = [], model_versions = [], checkpoints = [], eval_results = []\<rparr>,
     w_failed = False\<rparr>"

definition small_claim :: claimed where
  "small_claim = \<lparr>c_id = ''e'', c_ref = erin, c_shard = 0\<rparr>"

lemma small_disk_ok: "disk_ok (small_disk v)"
proof -
  have "caches_ok (small_disk v)" by (simp add: caches_ok_def small_disk_def)
  then show ?thesis using small_aligned by (auto simp: disk_ok_def small_rows_def small_routing_def split: if_splits)
qed

lemma small_signs: "signs (small_runtime k) (\<lambda>pk b s. s = pk) (replicate 32 9)"
proof -
  have "signing_key (SIGNING_KEY small_env) = Inr (replicate 32 9)"
    unfolding small_env_def by (simp add: signing_key_hex)
  then show ?thesis by (simp add: signs_def small_runtime_def)
qed

lemma never_sampled: "\<not> should_spot_check small_worker i"
  by (simp add: should_spot_check_def Let_def small_worker_def not_less)

text \<open>The work on a claimed job of the deployment.\<close>

lemma small_started:
  assumes run: "active_rebuild (small_runtime ENGINE_GBDT) [] [] [erin] (small_disk 3) = (Inr r, d')"
    and w: "w_disk w = d'" "\<not> w_failed w" "w_cache w = Map.empty" "checkpoints (w_db w) = []"
  obtains w1 where "promote small_worker now 0 (result_weights r) w = (Inr (), w1)" "boosters_ready w1"
    "erasure_jobs (w_db w1) = erasure_jobs (w_db w)" "erasure_manifests (w_db w1) = erasure_manifests (w_db w)"
proof -
  from run have "res_shard r = 0"
    by (auto simp: active_gbdt small_runtime_def gbdt_rebuild_iff gbdt_reads_def gbdt_plan_def small_target)
  with rebuilt_live [OF run] obtain art where live: "live_model (small_runtime ENGINE_GBDT) 0 d' = Some art" "cas_file d' = (\<lambda>_. None)"
    by (auto simp: small_disk_def)
  then obtain b where "art = Booster_File b" by (auto simp: live_model_def small_runtime_def)
  with live have live: "live_model (wk_rt small_worker) 0 (w_disk w) = Some (Booster_File b)" "cas_file d' = (\<lambda>_. None)"
    by (simp_all add: small_worker_def w)
  have "boosters_ready w" by (simp add: boosters_ready_def w live)
  then show thesis
    using promote_returns [of w small_worker 0 b now "result_weights r"] live(1) that
    by (auto simp: small_worker_def small_runtime_def)
qed

lemma small_finish:
  assumes "\<not> w_failed w" "map_of ms erin = Some m" "issued erin m" "erasure_jobs (w_db w) = [j]" "j_id j = ''e''"
    "erasure_manifests (w_db w) = []"
  shows "\<exists>w'. finish_job now ms small_claim w = (Inr (), w') \<and> \<not> w_failed w'
    \<and> erasure_jobs (w_db w') = [j\<lparr>j_status := Done, j_completed := Some now, j_worker := None, j_lease := None\<rparr>]"
proof -
  obtain row where row: "manifest_row_of now ''e'' m = Inr row" using issued_row [OF assms(3)] by blast
  then have "m_id row = ''e''" by (auto simp: manifest_row_of_def res_simps)
  with row assms show ?thesis
    by (simp add: finish_job_def small_claim_def io_bind_def io_lift_def execute_def insert_manifest_def insert_row_def
        update_def set_done_def)
qed

lemma small_process:
  assumes "erasure_jobs (w_db w) = [j]" "j_id j = ''e''" "erasure_manifests (w_db w) = []" "w_disk w = small_disk 3"
    "w_cache w = Map.empty" "checkpoints (w_db w) = []"
  shows "\<exists>w'. transaction (process_claimed small_worker now (\<lambda>_. ([], [])) [small_claim]) w = (Inr (), w')
    \<and> erasure_jobs (w_db w') = [j\<lparr>j_status := Done, j_completed := Some now, j_worker := None, j_lease := None\<rparr>]"
proof -
  obtain r d' where run: "active_rebuild (small_runtime ENGINE_GBDT) [] [] [erin] (small_disk 3) = (Inr r, d')"
    using small_active by blast
  have "files_ok {} (small_disk 3)" using small_disk_ok by (simp add: files_ok_def gone_def)
  from active_issued [OF this run, of erin] obtain m where m: "map_of (manifests r) erin = Some m" "issued erin m" by auto
  define w0 where "w0 = w\<lparr>w_failed := False, w_disk := d'\<rparr>"
  obtain w1 where w1: "promote small_worker now 0 (result_weights r) w0 = (Inr (), w1)" "boosters_ready w1"
      "erasure_jobs (w_db w1) = [j]" "erasure_manifests (w_db w1) = []"
    using small_started [OF run, of w0 now] assms by (auto simp: w0_def)
  then obtain w2 where w2: "finish_job now (manifests r) small_claim w1 = (Inr (), w2)" "\<not> w_failed w2"
      "erasure_jobs (w_db w2) = [j\<lparr>j_status := Done, j_completed := Some now, j_worker := None, j_lease := None\<rparr>]"
    using small_finish [OF _ m w1(3) assms(2) w1(4), of now] by (auto simp: boosters_ready_def)
  have rebuild: "on_disk (active_rebuild (wk_rt small_worker) [] [] [erin]) (w\<lparr>w_failed := False\<rparr>) = (Inr r, w0)"
    using run by (simp add: on_disk_def small_worker_def assms(4) w0_def)
  have "process_claimed small_worker now (\<lambda>_. ([], [])) [small_claim] (w\<lparr>w_failed := False\<rparr>) = (Inr (), w2)"
    using rebuild w1(1) w2(1)
    by (simp add: process_claimed_def process_group_def Let_def io_bind_def io_attempt_def io_return_def never_sampled
        small_claim_def)
  with w2 show ?thesis by (simp add: transaction_def)
qed

lemma small_start: "sys_start small_world"
  using small_disk_ok [of 3] by (simp add: sys_start_def small_world_def)

lemma small_ready_world:
  "boosters_ready small_world" "rt_engine (wk_rt small_worker) = ENGINE_GBDT" "eval_rows small_worker = []"
  "eval_labels small_worker = []" "live_model (wk_rt small_worker) 0 (w_disk small_world) = Some (Booster_File [1, 3])"
  by (simp_all add: boosters_ready_def small_world_def small_worker_def small_runtime_def live_model_def small_disk_def)

definition two_boosters :: "(int, int) world" where
  "two_boosters = small_world\<lparr>w_disk := (small_disk 3)\<lparr>gbdt_json := (\<lambda>_. Some [1, 3])\<rparr>\<rparr>"

lemma two_boosters_ready:
  "boosters_ready two_boosters" "live_model (wk_rt small_worker) 0 (w_disk two_boosters) = Some (Booster_File [1, 3])"
  by (simp_all add: boosters_ready_def two_boosters_def small_world_def small_worker_def small_runtime_def live_model_def small_disk_def)

definition small_new_job :: job where
  "small_new_job = new_job ''e'' erin ''consent_revocation'' 0 ''key'' 720 ''bank'' 0"

lemma small_run:
  "\<exists>w. (sys_step (small_runtime ENGINE_GBDT))\<^sup>*\<^sup>* (small_world, []) (w, []) \<and> (\<exists>j\<in>set (erasure_jobs (w_db w)). j_status j = Done \<and> j_ref j = erin)"
proof -
  let ?rt = "small_runtime ENGINE_GBDT" and ?db = "w_db small_world"
  let ?w1 = "small_world\<lparr>w_db := ?db\<lparr>erasure_jobs := [small_new_job]\<rparr>\<rparr>"
  let ?j2 = "lease_job ''w'' 30 small_new_job"
  let ?w2 = "small_world\<lparr>w_db := ?db\<lparr>erasure_jobs := [?j2]\<rparr>, w_failed := False\<rparr>"
  have "insert_or_get ''e'' 0 erin ''consent_revocation'' 0 ''key'' 720 ''bank'' ?db
      = Inr ((''e'', True), ?db\<lparr>erasure_jobs := [small_new_job]\<rparr>)"
    by (simp add: insert_or_get_def reasons_def job_with_key_def small_world_def insert_row_def small_new_job_def)
  then have 1: "sys_step ?rt (small_world, []) (?w1, [])"
    using submit [of small_world erin "small_entry 1" "''e''" 0 "''consent_revocation''" "''key''" 720 "''bank''" _ _ ?rt "[]"]
    by (simp add: small_world_def small_routing_def small_entry_def)
  have "claim_step small_worker 0 {} ?w1 = (Inr [small_claim], ?w2)"
    by (simp add: claim_step_def transaction_def io_bind_def execute_def small_world_def reap_expired_leases_def expired_def
        small_new_job_def new_job_def claim_batch_def Let_def claimable_def lease_job_def small_worker_def small_claim_def)
  then have 2: "sys_step ?rt (?w1, []) (?w2, [[small_claim]])"
    by (intro claim [of small_worker]) (simp_all add: small_worker_def)
  obtain w3 where w3: "transaction (process_claimed small_worker 1 (\<lambda>_. ([], [])) [small_claim]) ?w2 = (Inr (), w3)"
      "erasure_jobs (w_db w3) = [?j2\<lparr>j_status := Done, j_completed := Some 1, j_worker := None, j_lease := None\<rparr>]"
    using small_process [of ?w2 ?j2 1] by (auto simp: small_world_def small_new_job_def new_job_def lease_job_def)
  then have 3: "sys_step ?rt (?w2, [[small_claim]]) (w3, [])"
    using work [of small_worker ?rt "[small_claim]" "[[small_claim]]"] by (simp add: small_worker_def)
  from 1 2 3 have "(sys_step ?rt)\<^sup>*\<^sup>* (small_world, []) (w3, [])" by (meson rtranclp.rtrancl_into_rtrancl rtranclp.rtrancl_refl)
  with w3(2) show ?thesis by (auto simp: lease_job_def small_new_job_def new_job_def)
qed

section \<open>Properties\<close>



text \<open>
  C21 Nothing is forgotten. From one reachable state to any later one, every job is still
  there with the same identifier, subject, reason, caller, key and deadline, no two jobs
  share an identifier or a caller's key, a lease exists exactly while a job is processed,
  and every certificate is still stored unchanged.
\<close>

theorem nothing_is_lost:
  assumes "(sys_step rt)\<^sup>*\<^sup>* (w0, []) (w, held)" "(sys_step rt)\<^sup>*\<^sup>* (w, held) (w', held')" "sys_start w0" "signs rt ed_verify pk"
  shows "grown (w_db w) (w_db w') \<and> db_ok (w_db w')"
proof -
  have "sys_inv ed_verify pk (w_db w0) (concat held) {} (w_disk w) (w_db w)"
    using sys_reach_inv [OF assms(1,4)] sys_start_inv [OF assms(3)] by (simp add: wpred_def)
  then have "wpred (sys_inv ed_verify pk (w_db w) (concat held) {}) w"
    by (simp add: wpred_def sys_inv_def grown_refl)
  with sys_reach_inv [OF assms(2,4), where G = "w_db w"] have "sys_inv ed_verify pk (w_db w) (concat held') {} (w_disk w') (w_db w')"
    by (simp add: wpred_def)
  then show ?thesis unfolding sys_inv_def tables_ok_def by blast
qed

theorem nothing_is_lost_witness:
  "\<exists>w :: (int, int) world. erasure_jobs (w_db w) \<noteq> [] \<and> grown (w_db small_world) (w_db w) \<and> db_ok (w_db w)"
proof -
  obtain w j where w: "(sys_step (small_runtime ENGINE_GBDT))\<^sup>*\<^sup>* (small_world, []) (w, [])" "j \<in> set (erasure_jobs (w_db w))"
    using small_run by blast
  have "erasure_jobs (w_db w) \<noteq> []" using w(2) by auto
  with nothing_is_lost [OF rtranclp.rtrancl_refl w(1) small_start small_signs] show ?thesis by blast
qed

text \<open>
  C22 A crash after the rebuild loses the certificate. Once a rebuild of a subject has
  returned, any further attempt on a job of the subject - after a crash before the commit,
  or by a second worker that claimed the job when the lease ran out - ends with the job
  failed by KeyError, also when the job was done, and writes no certificate.
\<close>

theorem second_attempt_fails:
  assumes "active_rebuild rt pa ca [c_ref c] d = (Inr r, d')" "disk_ok d" "w_disk w = d'"
  shows "transaction (process_claimed wk now stamp [c]) w
      = (Inr (), w\<lparr>w_db := set_failed (Rebuild_Failed KeyError) {c_id c} (w_db w), w_failed := False\<rparr>)
     \<and> erasure_manifests (set_failed (Rebuild_Failed KeyError) {c_id c} (w_db w)) = erasure_manifests (w_db w)
     \<and> (\<forall>j\<in>set (erasure_jobs (set_failed (Rebuild_Failed KeyError) {c_id c} (w_db w))). j_id j = c_id c \<longrightarrow> j_status j = Failed)"
proof -
  have "files_ok {} d" using assms(2) by (simp add: files_ok_def gone_def)
  from active_returns [OF this assms(1)] have gone: "gone {c_ref c} d'" by (simp add: files_ok_def)
  obtain R where "routing_json d' = Some R" using active_routing [OF assms(1)] by blast
  from process_gone [of c w R wk now stamp] gone this show ?thesis by (auto simp: assms(3) set_failed_def)
qed

theorem second_attempt_fails_witness:
  "\<exists>w w'. transaction (process_claimed small_worker 1 (\<lambda>_. ([], [])) [small_claim]) w = (Inr (), w')
     \<and> map j_status (erasure_jobs (w_db w)) = [Done] \<and> map j_status (erasure_jobs (w_db w')) = [Failed]"
proof -
  obtain r d' where run: "active_rebuild (small_runtime ENGINE_GBDT) [] [] [c_ref small_claim] (small_disk 3) = (Inr r, d')"
    unfolding small_claim_def claimed.select_convs using small_active by blast
  let ?w = "small_world\<lparr>w_disk := d', w_db := (w_db small_world)\<lparr>erasure_jobs := [small_new_job\<lparr>j_status := Done\<rparr>]\<rparr>\<rparr>"
  have "w_disk ?w = d'" by simp
  from second_attempt_fails [OF run small_disk_ok this, of small_worker 1 "\<lambda>_. ([], [])"]
  show ?thesis by (intro exI conjI) (auto simp: set_failed_def small_claim_def small_new_job_def new_job_def)
qed

text \<open>
  Promotion carries the other shards forward. A promotion whose version is new appends
  one version: the newest one before it with the shard's hash replaced and every other
  shard's hash kept. If all versions are older, the new one is the current version.
\<close>

theorem promotion_carries_forward:
  assumes "promote wk now k w world = (Inr (), world')" "''v-'' @ take 12 w \<notin> v_name ` set (model_versions (w_db world))"
    and "newest (pick_version wk) v_promoted (model_versions (w_db world)) = old" "\<forall>v. pick [v] = v"
  shows "\<exists>v. model_versions (w_db world') = model_versions (w_db world) @ [v]
     \<and> map_of (v_checkpoints v) = (case old of None \<Rightarrow> Map.empty | Some u \<Rightarrow> map_of (v_checkpoints u))(k \<mapsto> w)
     \<and> w \<in> k_hash ` set (checkpoints (w_db world')) \<and> v_name v \<in> e_version ` set (eval_results (w_db world'))
     \<and> ((\<forall>u\<in>set (model_versions (w_db world)). v_promoted u < now)
        \<longrightarrow> newest pick v_promoted (model_versions (w_db world')) = Some v)"
proof -
  let ?v = "next_version now k w old"
  note p = promote_writes [OF assms(1,2), unfolded assms(3)]
  have "map_of (v_checkpoints ?v) = (case old of None \<Rightarrow> Map.empty | Some u \<Rightarrow> map_of (v_checkpoints u))(k \<mapsto> w)"
    by (simp add: next_version_def map_of_dict_set split: option.split)
  moreover have "newest pick v_promoted (model_versions (w_db world')) = Some ?v"
    if "\<forall>u\<in>set (model_versions (w_db world)). v_promoted u < now"
    unfolding p(1) using newest_last [OF that, of "[?v]" pick] assms(4) by (simp add: next_version_def)
  ultimately show ?thesis using p by blast
qed

theorem promotion_carries_forward_witness:
  "\<exists>w'. promote small_worker 5 0 ''abc'' small_world = (Inr (), w') \<and> (\<exists>v. newest hd v_promoted (model_versions (w_db w')) = Some v
     \<and> map_of (v_checkpoints v) 0 = Some ''abc'')"
proof -
  obtain w' where w': "promote small_worker 5 0 ''abc'' small_world = (Inr (), w')"
    using promote_returns [OF small_ready_world(1), of small_worker 0 "[1, 3]"] small_ready_world by blast
  have "newest (pick_version small_worker) v_promoted (model_versions (w_db small_world)) = None"
    by (simp add: newest_def small_world_def)
  from promotion_carries_forward [OF w' _ this, of hd] w' show ?thesis by (auto simp: small_world_def)
qed

text \<open>
  C23 Two promotions of one transaction tie. They have the same \<open>promoted_at\<close>, so which of
  the two versions is current is open, and the first does not have the second shard's new
  model: if the database chooses it, the second shard is served as before its erasure.
\<close>

theorem promotions_tie:
  assumes "promote wk now k1 w1 world = (Inr (), world1)" "promote wk now k2 w2 world1 = (Inr (), world2)" "k1 \<noteq> k2"
    and "''v-'' @ take 12 w1 \<notin> v_name ` set (model_versions (w_db world))" "''v-'' @ take 12 w2 \<notin> v_name ` set (model_versions (w_db world1))"
    and "\<forall>u\<in>set (model_versions (w_db world)). v_promoted u < now" "\<forall>v. pick_version wk [v] = v"
    and "newest (pick_version wk) v_promoted (model_versions (w_db world)) = old"
  shows "\<exists>v1 v2. (\<forall>pick. newest pick v_promoted (model_versions (w_db world2)) = Some (pick [v1, v2]))
     \<and> map_of (v_checkpoints v1) k2 = (case old of None \<Rightarrow> None | Some u \<Rightarrow> map_of (v_checkpoints u) k2)
     \<and> map_of (v_checkpoints v2) k1 = Some w1 \<and> map_of (v_checkpoints v2) k2 = Some w2"
proof -
  let ?v1 = "next_version now k1 w1 old" and ?v2 = "next_version now k2 w2 (Some (next_version now k1 w1 old))"
  have 1: "model_versions (w_db world1) = model_versions (w_db world) @ [?v1]"
    using promote_writes(1) [OF assms(1,4)] assms(8) by simp
  have "newest (pick_version wk) v_promoted (model_versions (w_db world1)) = Some ?v1"
    unfolding 1 using newest_last [OF assms(6), of "[?v1]" "pick_version wk"] assms(7) by (simp add: next_version_def)
  with promote_writes(1) [OF assms(2,5)] 1 have "model_versions (w_db world2) = model_versions (w_db world) @ [?v1, ?v2]" by simp
  then have "newest pick v_promoted (model_versions (w_db world2)) = Some (pick [?v1, ?v2])" for pick
    using newest_last [OF assms(6), of "[?v1, ?v2]" pick] by (simp add: next_version_def)
  moreover have "map_of (v_checkpoints ?v1) k2 = (case old of None \<Rightarrow> None | Some u \<Rightarrow> map_of (v_checkpoints u) k2)"
    using assms(3) by (simp add: next_version_def map_of_dict_set split: option.split)
  moreover have "map_of (v_checkpoints ?v2) k1 = Some w1" "map_of (v_checkpoints ?v2) k2 = Some w2"
    using assms(3) by (simp_all add: next_version_def map_of_dict_set)
  ultimately show ?thesis by blast
qed

theorem promotions_tie_witness:
  "\<exists>w1 w2 v1 v2. promote small_worker 5 0 ''aa'' two_boosters = (Inr (), w1) \<and> promote small_worker 5 1 ''bb'' w1 = (Inr (), w2)
     \<and> newest hd v_promoted (model_versions (w_db w2)) = Some v1 \<and> newest last v_promoted (model_versions (w_db w2)) = Some v2
     \<and> map_of (v_checkpoints v1) 1 = None \<and> map_of (v_checkpoints v2) 1 = Some ''bb''"
proof -
  obtain w1 where w1: "promote small_worker 5 0 ''aa'' two_boosters = (Inr (), w1)" "boosters_ready w1"
      "gbdt_json (w_disk w1) = gbdt_json (w_disk two_boosters)"
    using promote_returns [OF two_boosters_ready(1), of small_worker 0 "[1, 3]"] small_ready_world(2-4) two_boosters_ready(2) by blast
  have "live_model (wk_rt small_worker) 1 (w_disk w1) = Some (Booster_File [1, 3])"
    by (simp add: live_model_def small_worker_def small_runtime_def w1(3) two_boosters_def)
  then obtain w2 where w2: "promote small_worker 5 1 ''bb'' w1 = (Inr (), w2)"
    using promote_returns [OF w1(2), of small_worker 1 "[1, 3]"] small_ready_world(2-4) by blast
  have none: "newest (pick_version small_worker) v_promoted (model_versions (w_db two_boosters)) = None"
    by (simp add: newest_def two_boosters_def small_world_def)
  have "model_versions (w_db w1) = [next_version 5 0 ''aa'' None]"
    using promote_writes(1) [OF w1(1)] none by (simp add: two_boosters_def small_world_def)
  then have "''v-'' @ take 12 ''bb'' \<notin> v_name ` set (model_versions (w_db w1))" by (simp add: next_version_def)
  from promotions_tie [OF w1(1) w2 _ _ this _ _ none] obtain v1 v2 where
      "\<forall>pick. newest pick v_promoted (model_versions (w_db w2)) = Some (pick [v1, v2])"
      "map_of (v_checkpoints v1) 1 = None" "map_of (v_checkpoints v2) 1 = Some ''bb''"
    by (auto simp: two_boosters_def small_world_def small_worker_def)
  then have "newest hd v_promoted (model_versions (w_db w2)) = Some v1" "newest last v_promoted (model_versions (w_db w2)) = Some v2"
      "map_of (v_checkpoints v1) 1 = None" "map_of (v_checkpoints v2) 1 = Some ''bb''"
    by simp_all
  with w1(1) w2 show ?thesis by blast
qed

text \<open>
  C24 A certificate fits its table. Each manifest that a rebuild returns gives a row with all
  the columns of the table, each with a value of the column's type.
\<close>

theorem manifest_row_typed:
  assumes "active_rebuild rt pa ca refs d = (Inr r, d')" "disk_ok d" "ref \<in> set refs"
  shows "\<exists>m row. map_of (manifests r) ref = Some m \<and> manifest_row_of now i m = Inr row
     \<and> map fst (m_columns row) = manifest_columns \<and> (\<forall>(f, v)\<in>set (m_columns row). column_typed f v)"
proof -
  have "files_ok {} d" using assms(2) by (simp add: files_ok_def gone_def)
  from active_issued [OF this assms(1,3)] issued_row show ?thesis by blast
qed

theorem manifest_row_typed_witness:
  "\<exists>r d' m row. active_rebuild (small_runtime ENGINE_MLP) [] [] [erin] (small_disk 3) = (Inr r, d')
     \<and> map_of (manifests r) erin = Some m \<and> manifest_row_of 7 ''e'' m = Inr row \<and> length (m_columns row) = 9"
proof -
  obtain r d' where run: "active_rebuild (small_runtime ENGINE_MLP) [] [] [erin] (small_disk 3) = (Inr r, d')"
    using small_active by blast
  from manifest_row_typed [OF run small_disk_ok, of erin 7 "''e''"] obtain m row where
      "map_of (manifests r) erin = Some m" "manifest_row_of 7 ''e'' m = Inr row" "map fst (m_columns row) = manifest_columns"
    by auto
  moreover from this(3) have "length (map fst (m_columns row)) = 9" by (simp add: manifest_columns_def)
  then have "length (m_columns row) = 9" by simp
  ultimately show ?thesis using run by blast
qed

text \<open>
  C25 The sample of the spot check. With \<open>n\<close> the first 64 bits of the HMAC of the job, a job
  is sampled if \<open>n / 2^64\<close> is below the rate, up to the rounding of the division: below by
  more than \<open>2^-54\<close> it is, above by more than that it is not. The largest values round to 1,
  so that not even a rate of 1 samples them.
\<close>

theorem spot_check_sample:
  defines "n \<equiv> \<lambda>wk i. be_nat (take 8 (hmac_sha256 (AUDIT_KEY wk) (utf8 i)))"
  shows "((of_nat (n wk i) + 2 ^ 10) / 2 ^ 64 < SPOT_CHECK_RATE wk \<longrightarrow> should_spot_check wk i)
     \<and> (should_spot_check wk i \<longrightarrow> (of_nat (n wk i) - 2 ^ 10) / 2 ^ 64 < SPOT_CHECK_RATE wk)
     \<and> (2 ^ 64 \<le> n wk i + 2 ^ 10 \<longrightarrow> SPOT_CHECK_RATE wk \<le> 1 \<longrightarrow> \<not> should_spot_check wk i)"
proof -
  let ?n = "n wk i"
  have "?n < 256 ^ length (take 8 (hmac_sha256 (AUDIT_KEY wk) (utf8 i)))" unfolding n_def by (rule be_nat_less)
  also have "\<dots> \<le> 256 ^ 8" by (rule power_increasing) simp_all
  finally have n: "?n < 2 ^ 64" by simp
  have s: "should_spot_check wk i \<longleftrightarrow> of_nat (to_double ?n) / 2 ^ 64 < SPOT_CHECK_RATE wk"
    by (simp add: should_spot_check_def n_def Let_def)
  have near: "of_nat ?n \<le> (of_nat (to_double ?n) + 2 ^ 10 :: rat)" "of_nat (to_double ?n) \<le> (of_nat ?n + 2 ^ 10 :: rat)"
    using to_double_near [OF n, THEN of_nat_mono, where 'a = rat] by simp_all
  have "should_spot_check wk i" if "(of_nat ?n + 2 ^ 10) / 2 ^ 64 < SPOT_CHECK_RATE wk"
    unfolding s by (rule le_less_trans [OF divide_right_mono that]) (use near(2) in simp_all)
  moreover have "(of_nat ?n - 2 ^ 10) / 2 ^ 64 < SPOT_CHECK_RATE wk" if "should_spot_check wk i"
    by (rule le_less_trans [OF divide_right_mono that [unfolded s]]) (use near(1) in simp_all)
  moreover have "\<not> should_spot_check wk i" if "2 ^ 64 \<le> ?n + 2 ^ 10" "SPOT_CHECK_RATE wk \<le> 1"
    unfolding s to_double_top [OF n that(1)] using that(2) by simp
  ultimately show ?thesis by blast
qed

theorem spot_check_sample_witness:
  "\<not> should_spot_check small_worker ''e'' \<and> should_spot_check (small_worker\<lparr>SPOT_CHECK_RATE := 2\<rparr>) ''e''"
proof -
  have n: "be_nat (take 8 (hmac_sha256 (AUDIT_KEY (small_worker\<lparr>SPOT_CHECK_RATE := 2\<rparr>)) (utf8 ''e''))) < 256 ^ 8"
    by (rule less_le_trans [OF be_nat_less power_increasing]) simp_all
  have "(of_nat (be_nat (take 8 (hmac_sha256 (AUDIT_KEY (small_worker\<lparr>SPOT_CHECK_RATE := 2\<rparr>)) (utf8 ''e'')))) + 2 ^ 10) / 2 ^ 64 < (2 :: rat)"
    using n [THEN of_nat_less_iff [where 'a = rat, THEN iffD2]] by simp
  with spot_check_sample [of "small_worker\<lparr>SPOT_CHECK_RATE := 2\<rparr>" "''e''"] never_sampled show ?thesis by simp
qed

text \<open>
  C26 A failed statement loses the batch. If a statement of the bookkeeping of a shard raises,
  the transaction is aborted, so the handler that should mark the jobs as failed raises
  too: the worker's cycle ends with an exception and the tables are as before it, with the
  jobs still leased, while the rows are gone from the files and the model is replaced.
\<close>

theorem failed_statement_loses_batch:
  fixes wk :: "('f::linorder, 'o, 'g, 't) worker"
  assumes "jobs \<noteq> []" "\<forall>c\<in>set jobs. c_shard c = k"
    and "active_rebuild (wk_rt wk) (fst (stamp k)) (snd (stamp k)) (map c_ref jobs) (w_disk w) = (Inr r, d')"
    and "io_bind (promote wk now k (result_weights r)) (\<lambda>_. io_fold (\<lambda>c _. finish_job now (manifests r) c) jobs ())
           (w\<lparr>w_failed := False, w_disk := d'\<rparr>) = (Inl e, w')" "w_failed w'"
  shows "transaction (process_claimed wk now stamp jobs) w = (Inl DatabaseError, w'\<lparr>w_db := w_db w, w_failed := False\<rparr>)"
proof -
  have rebuild: "on_disk (active_rebuild (wk_rt wk) (fst (stamp k)) (snd (stamp k)) (map c_ref jobs)) (w\<lparr>w_failed := False\<rparr>)
      = (Inr r, w\<lparr>w_failed := False, w_disk := d'\<rparr>)"
    by (simp add: on_disk_def assms(3))
  define book where "book result = io_bind (promote wk now k (result_weights result)) (\<lambda>_.
      io_fold (\<lambda>c _. finish_job now (manifests result) c) jobs ())" for result :: "('f, 't) payload rebuild_result"
  have book: "book r (w\<lparr>w_failed := False, w_disk := d'\<rparr>) = (Inl e, w')" using assms(4) by (simp add: book_def)
  have "update f w' = (Inl DatabaseError, w')" for f :: "db \<Rightarrow> db" by (simp add: update_def execute_def assms(5))
  then have "process_group wk now stamp (k, jobs) (w\<lparr>w_failed := False\<rparr>) = (Inl DatabaseError, w')"
    unfolding process_group_def Let_def prod.case book_def [symmetric]
    by (simp add: io_bind_def io_attempt_def rebuild book)
  then have "process_claimed wk now stamp jobs (w\<lparr>w_failed := False\<rparr>) = (Inl DatabaseError, w')"
    by (simp add: process_claimed_def groupby_one [OF assms(1,2)] io_bind_def)
  then show ?thesis by (simp add: transaction_def)
qed

text \<open>A job whose certificate has been stored already.\<close>

definition certified_world :: "(int, int) world" where
  "certified_world = small_world\<lparr>w_db := (w_db small_world)\<lparr>erasure_jobs := [small_new_job],
     erasure_manifests := [\<lparr>m_id = ''e'', m_columns = [], m_json = PNone, m_created = 0\<rparr>]\<rparr>\<rparr>"

theorem failed_statement_loses_batch_witness:
  "\<exists>r d' w'. active_rebuild (small_runtime ENGINE_GBDT) [] [] [erin] (w_disk certified_world) = (Inr r, d')
     \<and> transaction (process_claimed small_worker 1 (\<lambda>_. ([], [])) [small_claim]) certified_world = (Inl DatabaseError, w')
     \<and> w_db w' = w_db certified_world"
proof -
  obtain r d' where run: "active_rebuild (small_runtime ENGINE_GBDT) [] [] [erin] (small_disk 3) = (Inr r, d')"
    using small_active by blast
  define w0 where "w0 = certified_world\<lparr>w_failed := False, w_disk := d'\<rparr>"
  have w0: "w_disk w0 = d'" "\<not> w_failed w0" "w_cache w0 = Map.empty" "checkpoints (w_db w0) = []"
      "erasure_jobs (w_db w0) = [small_new_job]" "m_id ` set (erasure_manifests (w_db w0)) = {''e''}"
    by (simp_all add: w0_def certified_world_def small_world_def)
  obtain w1 where w1: "promote small_worker 1 0 (result_weights r) w0 = (Inr (), w1)" "boosters_ready w1"
      "erasure_jobs (w_db w1) = erasure_jobs (w_db w0)" "erasure_manifests (w_db w1) = erasure_manifests (w_db w0)"
    by (rule small_started [OF run w0(1-4)])
  have ok: "files_ok {} (small_disk 3)" using small_disk_ok by (simp add: files_ok_def gone_def)
  from active_issued [OF ok run, of erin] obtain m where m: "map_of (manifests r) erin = Some m" "issued erin m" by auto
  obtain row where row: "manifest_row_of 1 ''e'' m = Inr row" using issued_row [OF m(2)] by blast
  then have "m_id row = ''e''" by (auto simp: manifest_row_of_def res_simps)
  then have "finish_job 1 (manifests r) small_claim w1 = (Inl DatabaseError, w1\<lparr>w_failed := True\<rparr>)"
    using row m(1) w1(2-4) w0(5,6)
    by (simp add: finish_job_def small_claim_def io_bind_def io_lift_def execute_def insert_manifest_def insert_row_def
        boosters_ready_def small_new_job_def new_job_def)
  then have book: "io_bind (promote small_worker 1 0 (result_weights r)) (\<lambda>_. io_fold (\<lambda>c _. finish_job 1 (manifests r) c) [small_claim] ())
      (certified_world\<lparr>w_failed := False, w_disk := d'\<rparr>) = (Inl DatabaseError, w1\<lparr>w_failed := True\<rparr>)"
    using w1(1) by (simp add: io_bind_def w0_def)
  have rebuild: "active_rebuild (wk_rt small_worker) (fst ([], [])) (snd ([], [])) (map c_ref [small_claim]) (w_disk certified_world) = (Inr r, d')"
    using run by (simp add: small_worker_def small_claim_def certified_world_def small_world_def)
  have "transaction (process_claimed small_worker 1 (\<lambda>_. ([], [])) [small_claim]) certified_world
      = (Inl DatabaseError, w1\<lparr>w_failed := True, w_db := w_db certified_world, w_failed := False\<rparr>)"
    by (rule failed_statement_loses_batch [where k = 0 and stamp = "\<lambda>_. ([], [])", OF _ _ rebuild book]) (simp_all add: small_claim_def)
  moreover have "w_disk certified_world = small_disk 3" by (simp add: certified_world_def small_world_def)
  ultimately show ?thesis using run by simp
qed

end
