(* ===== verification/Gateway.thy ===== *)
theory Gateway
  imports System
begin

text \<open>
  The request handlers of \<open>gateway\<close>: tokens and scopes, the intake, status and attestation of
  erasures. FastAPI hands a handler the
  bearer token of the request and a body of the declared types; a value outside an
  enumeration is refused with 422, after the scope has been checked.
\<close>

section \<open>Answers and connections\<close>

text \<open>What a handler ends with; an exception of another kind becomes a 500.\<close>

datatype 'a answer = Answer 'a | HTTPException nat

text \<open>
  \<open>pooled()\<close>: a connection for one request. Beside the state of the process there are the
  tables as last committed, to which the connection is rolled back when it is returned.
\<close>

type_synonym ('f, 't) conn = "('f, 't) world \<times> db"

definition on_conn :: "(('f, 't) world, 'a) io \<Rightarrow> (('f, 't) conn, 'a) io" where
  "on_conn m = (\<lambda>(w, saved). let (r, w') = m w in (r, (w', saved)))"

definition commit_conn :: "(('f, 't) conn, unit) io" where
  "commit_conn = (\<lambda>(w, saved).
     (Inr (), if w_failed w then (w\<lparr>w_db := saved, w_failed := False\<rparr>, saved) else (w, w_db w)))"

definition pooled :: "(('f, 't) conn, 'a) io \<Rightarrow> (('f, 't) world, 'a) io" where
  "pooled m w =
     (let (r, (w', saved)) = m (w\<lparr>w_failed := False\<rparr>, w_db w) in (r, w'\<lparr>w_db := saved, w_failed := False\<rparr>))"

section \<open>Tokens\<close>

record token =
  token_principal :: pyval
  token_scopes :: "pyval list"

text \<open>\<open>set(v)\<close>: the elements of a list, the characters of a text, the keys of a dict.\<close>

fun iter_val :: "pyval \<Rightarrow> pyval list res" where
  "iter_val (PList vs) = Inr vs"
| "iter_val (PStr s) = Inr (map (\<lambda>c. PStr [c]) s)"
| "iter_val (PDict d) = Inr (map (\<lambda>(k, _). case k of KStr s \<Rightarrow> PStr s | KInt i \<Rightarrow> PInt i) d)"
| "iter_val _ = Inl TypeError"

fun hashable :: "pyval \<Rightarrow> bool" where
  "hashable (PList _) = False"
| "hashable (PDict _) = False"
| "hashable _ = True"

definition set_of_val :: "pyval \<Rightarrow> pyval list res" where
  "set_of_val v = bind_res (iter_val v) (\<lambda>vs. if list_all hashable vs then Inr vs else Inl TypeError)"

definition parse_token :: "pykey \<times> pyval \<Rightarrow> (string \<times> token) res" where
  "parse_token = (\<lambda>(tok, v).
     bind_res (getitem v ''principal'') (\<lambda>p.
     bind_res (getitem v ''scopes'') (\<lambda>s.
     bind_res (set_of_val s) (\<lambda>scopes. Inr (key_text tok, \<lparr>token_principal = p, token_scopes = scopes\<rparr>)))))"

definition dev_tokens :: "(string \<times> token) list" where
  "dev_tokens = [(''dev-token'', \<lparr>token_principal = PStr ''dev'',
     token_scopes = [PStr ''predict:invoke'', PStr ''erasure:write'', PStr ''erasure:attest'']\<rparr>)]"

definition auth_tokens :: "string option \<Rightarrow> (string \<times> token) list res" where
  "auth_tokens raw =
     (if raw = None \<or> raw = Some [] then Inr dev_tokens
      else bind_res (loads (the raw)) (\<lambda>parsed.
        case dict_items parsed of None \<Rightarrow> Inl AttributeError | Some d \<Rightarrow> map_res parse_token d))"

definition require_scope :: "string option \<Rightarrow> string \<Rightarrow> string option \<Rightarrow> pyval answer res" where
  "require_scope raw scope creds =
     (case creds of
        None \<Rightarrow> Inr (HTTPException 401)
      | Some tok \<Rightarrow>
          bind_res (auth_tokens raw) (\<lambda>toks. Inr
            (case map_of toks tok of
               None \<Rightarrow> HTTPException 401
             | Some t \<Rightarrow> if PStr scope \<in> set (token_scopes t) then Answer (token_principal t) else HTTPException 403)))"

definition guarded ::
  "string option \<Rightarrow> string \<Rightarrow> string option \<Rightarrow> (pyval \<Rightarrow> ('w, 'a answer) io) \<Rightarrow> ('w, 'a answer) io" where
  "guarded raw scope creds handler =
     io_bind (io_lift (require_scope raw scope creds)) (\<lambda>a.
       case a of HTTPException code \<Rightarrow> io_return (HTTPException code) | Answer p \<Rightarrow> handler p)"

section \<open>The gateway's configuration\<close>

text \<open>
  The settings, the choices of Postgres among equal rows, how Postgres reads the text of a
  UUID, and its answer to the insertion of a review.
\<close>

record 'f review =
  q_version :: string
  q_scores :: "'f list"
  q_mean :: 'f
  q_spread :: 'f
  q_threshold :: 'f

record ('f, 'o, 'g, 't) gateway =
  gw_rt :: "('f, 'o, 'g, 't) runtime"
  gw_gen :: 'g
  gw_pick_version :: "version_row list \<Rightarrow> version_row"
  gw_pick_manifest :: "manifest_row list \<Rightarrow> manifest_row"
  gw_uuid :: "string \<Rightarrow> string option"
  gw_insert_review :: "'f review \<Rightarrow> 'f review list \<Rightarrow> 'f review list res"
  AUTH_TOKENS :: "string option"
  SLA_HOURS :: int
  DISAGREEMENT_THRESHOLD :: 'f

section \<open>Erasures\<close>

text \<open>
  The principal as a text column of Postgres takes it. A list, which would be stored as
  the text of an array, is refused here like a dict.
\<close>

fun text_param :: "pyval \<Rightarrow> string res" where
  "text_param (PStr s) = Inr s"
| "text_param (PInt i) = Inr (int_dec i)"
| "text_param (PBool b) = Inr (if b then ''true'' else ''false'')"
| "text_param _ = Inl DatabaseError"

record accepted =
  a_id :: string
  a_deadline :: int

text \<open>
  \<open>clock\<close> is the time of the process, \<open>now\<close> that of the transaction and \<open>new_id\<close> the fresh
  UUID. The status in the reply is the constant \<open>queued\<close>.
\<close>

definition create_erasure ::
  "('f, 'o, 'g, 't) gateway \<Rightarrow> int \<Rightarrow> int \<Rightarrow> string \<Rightarrow> string option \<Rightarrow> string option \<Rightarrow> string \<Rightarrow> string
    \<Rightarrow> (('f, 't) world, accepted answer) io" where
  "create_erasure gw now clock new_id creds idempotency_key subject_id reason =
     guarded (AUTH_TOKENS gw) ''erasure:write'' creds (\<lambda>principal.
       case idempotency_key of None \<Rightarrow> io_return (HTTPException 422) | Some key \<Rightarrow>
       if reason \<notin> set reasons then io_return (HTTPException 422)
       else
         let ref = subject_ref (settings.truncate (rt_env (gw_rt gw))) subject_id in
         pooled
           (io_bind (on_conn (select (\<lambda>db. map_of (subject_shard_map db) ref))) (\<lambda>row.
            case row of
              None \<Rightarrow> io_return (HTTPException 404)
            | Some en \<Rightarrow>
                io_bind (io_lift (text_param principal)) (\<lambda>caller.
                io_bind (on_conn (execute (insert_or_get new_id now ref reason (e_shard en) key
                                             (clock + 3600 * SLA_HOURS gw) caller))) (\<lambda>(erasure_id, _).
                io_bind commit_conn (\<lambda>_.
                io_bind (on_conn (select (\<lambda>db. List.find (\<lambda>j. j_id j = erasure_id) (erasure_jobs db)))) (\<lambda>job.
                io_bind (io_lift (case job of None \<Rightarrow> Inl TypeError | Some j \<Rightarrow> Inr (j_deadline j))) (\<lambda>deadline.
                io_return (Answer \<lparr>a_id = erasure_id, a_deadline = deadline\<rparr>)))))))))"

text \<open>A parameter for a UUID column.\<close>

definition uuid_param :: "('f, 'o, 'g, 't) gateway \<Rightarrow> string \<Rightarrow> string res" where
  "uuid_param gw s = (case gw_uuid gw s of None \<Rightarrow> Inl DatabaseError | Some i \<Rightarrow> Inr i)"

definition row_with_id :: "(string \<Rightarrow> db \<Rightarrow> 'r option) \<Rightarrow> ('f, 'o, 'g, 't) gateway \<Rightarrow> string \<Rightarrow> (('f, 't) world, 'r option) io" where
  "row_with_id find_row gw s = execute (\<lambda>db. bind_res (uuid_param gw s) (\<lambda>i. Inr (find_row i db, db)))"

record erasure_status =
  s_id :: string
  s_status :: job_status
  s_reason :: string
  s_created :: int
  s_completed :: "int option"
  s_error :: "job_error option"

definition get_erasure ::
  "('f, 'o, 'g, 't) gateway \<Rightarrow> string option \<Rightarrow> string \<Rightarrow> (('f, 't) world, erasure_status answer) io" where
  "get_erasure gw creds erasure_id =
     guarded (AUTH_TOKENS gw) ''erasure:attest'' creds (\<lambda>_.
       io_bind (pooled (on_conn (row_with_id (\<lambda>i db. List.find (\<lambda>j. j_id j = i) (erasure_jobs db)) gw erasure_id))) (\<lambda>row.
       io_return (case row of
         None \<Rightarrow> HTTPException 404
       | Some j \<Rightarrow> Answer \<lparr>s_id = j_id j, s_status = j_status j, s_reason = j_reason j, s_created = j_created j,
                          s_completed = j_completed j, s_error = j_error j\<rparr>)))"

definition get_certificate ::
  "('f, 'o, 'g, 't) gateway \<Rightarrow> string option \<Rightarrow> string \<Rightarrow> (('f, 't) world, pyval answer) io" where
  "get_certificate gw creds erasure_id =
     guarded (AUTH_TOKENS gw) ''erasure:attest'' creds (\<lambda>_.
       io_bind (pooled (on_conn (row_with_id (\<lambda>i db. List.find (\<lambda>m. m_id m = i) (erasure_manifests db)) gw erasure_id))) (\<lambda>row.
       io_return (case row of None \<Rightarrow> HTTPException 404 | Some m \<Rightarrow> Answer (m_json m))))"

definition manifests_of :: "string \<Rightarrow> db \<Rightarrow> manifest_row list" where
  "manifests_of ref db =
     filter (\<lambda>m. list_ex (\<lambda>j. j_id j = m_id m \<and> j_ref j = ref) (erasure_jobs db)) (erasure_manifests db)"

definition attest ::
  "('f, 'o, 'g, 't) gateway \<Rightarrow> string option \<Rightarrow> string \<Rightarrow> (('f, 't) world, pyval answer) io" where
  "attest gw creds subject_id =
     guarded (AUTH_TOKENS gw) ''erasure:attest'' creds (\<lambda>_.
       let ref = subject_ref (settings.truncate (rt_env (gw_rt gw))) subject_id in
       io_bind (pooled (on_conn (select (\<lambda>db. newest (gw_pick_manifest gw) m_created (manifests_of ref db))))) (\<lambda>row.
       io_return (case row of None \<Rightarrow> HTTPException 404 | Some m \<Rightarrow> Answer (m_json m))))"

section \<open>Connections\<close>

text \<open>A handler that only reads leaves the tables alone, and the connection usable.\<close>

lemma pooled_select:
  "pooled (on_conn (select f)) w = (Inr (f (w_db w)), w\<lparr>w_failed := False\<rparr>)"
  by (simp add: pooled_def on_conn_def select_def execute_def)

lemma pooled_row:
  "pooled (on_conn (row_with_id f gw s)) w
     = (case gw_uuid gw s of None \<Rightarrow> Inl DatabaseError | Some i \<Rightarrow> Inr (f i (w_db w)), w\<lparr>w_failed := False\<rparr>)"
  by (simp add: pooled_def on_conn_def row_with_id_def execute_def uuid_param_def split: option.split)

lemma newest_member:
  assumes "newest pick time rows = Some r" "\<And>rs. rs \<noteq> [] \<Longrightarrow> pick rs \<in> set rs"
  shows "r \<in> set rows"
proof -
  let ?new = "filter (\<lambda>r. time r = Max (time ` set rows)) rows"
  have rows: "rows \<noteq> []" "r = pick ?new" using assms(1) by (simp_all add: newest_def split: if_splits)
  have "Max (time ` set rows) \<in> time ` set rows" by (rule Max_in) (use rows(1) in auto)
  then have "?new \<noteq> []" by (auto simp: filter_empty_conv)
  from assms(2) [OF this] rows(2) show ?thesis by simp
qed

section \<open>Scopes\<close>

text \<open>The principal of a bearer token that has the scope.\<close>

definition allowed :: "('f, 'o, 'g, 't) gateway \<Rightarrow> string \<Rightarrow> string option \<Rightarrow> pyval \<Rightarrow> bool" where
  "allowed gw scope creds p \<longleftrightarrow> (\<exists>tok toks t. creds = Some tok \<and> auth_tokens (AUTH_TOKENS gw) = Inr toks
     \<and> map_of toks tok = Some t \<and> PStr scope \<in> set (token_scopes t) \<and> token_principal t = p)"

definition refused :: "('f, 'o, 'g, 't) gateway \<Rightarrow> 'a answer res \<Rightarrow> bool" where
  "refused gw r \<longleftrightarrow> r \<in> {Inr (HTTPException 401), Inr (HTTPException 403)}
     \<or> (\<exists>e. auth_tokens (AUTH_TOKENS gw) = Inl e \<and> r = Inl e)"

lemma require_scope_cases:
  "(\<exists>p. allowed gw scope creds p \<and> require_scope (AUTH_TOKENS gw) scope creds = Inr (Answer p))
   \<or> (\<forall>p. \<not> allowed gw scope creds p) \<and> refused gw (require_scope (AUTH_TOKENS gw) scope creds)"
proof (cases creds)
  case (Some tok)
  show ?thesis
  proof (cases "auth_tokens (AUTH_TOKENS gw)")
    case (Inr toks)
    with Some show ?thesis by (cases "map_of toks tok") (auto simp: require_scope_def allowed_def refused_def)
  qed (use Some in \<open>auto simp: require_scope_def allowed_def refused_def\<close>)
qed (auto simp: require_scope_def allowed_def refused_def)

lemma guarded_allowed:
  assumes "allowed gw scope creds p"
  shows "guarded (AUTH_TOKENS gw) scope creds h = h p"
proof -
  have "require_scope (AUTH_TOKENS gw) scope creds = Inr (Answer p)"
    using assms by (auto simp: allowed_def require_scope_def)
  then show ?thesis by (simp add: fun_eq_iff guarded_def io_bind_def io_lift_def)
qed

lemma guarded_refused:
  assumes "\<forall>p. \<not> allowed gw scope creds p"
  shows "\<exists>r. guarded (AUTH_TOKENS gw) scope creds h w = (r, w) \<and> refused gw r"
proof -
  have "refused gw (require_scope (AUTH_TOKENS gw) scope creds)" using assms require_scope_cases [of gw scope creds] by blast
  then show ?thesis by (auto simp: refused_def guarded_def io_bind_def io_lift_def io_return_def)
qed

section \<open>The intake\<close>

lemma insert_or_get_job:
  assumes "insert_or_get new_id now ref reason shard key deadline caller db = Inr ((i, created), db')"
  obtains j where "j \<in> set (erasure_jobs db')" "j_id j = i" "j_by j = caller" "j_key j = key"
    "if created then j = new_job new_id ref reason shard key deadline caller now else db' = db \<and> j \<in> set (erasure_jobs db)"
proof (cases "job_with_key caller key (erasure_jobs db)")
  case None
  with assms show thesis
    by (intro that [of "new_job new_id ref reason shard key deadline caller now"])
      (auto simp: insert_or_get_def insert_row_def res_simps new_job_def split: if_splits)
next
  case (Some j)
  from job_with_key_Some [OF this] Some assms show thesis
    by (intro that [of j]) (auto simp: insert_or_get_def split: if_splits)
qed

lemma find_job:
  assumes "db_ok db" "j \<in> set (erasure_jobs db)"
  shows "List.find (\<lambda>k. j_id k = j_id j) (erasure_jobs db) = Some j"
proof (cases "List.find (\<lambda>k. j_id k = j_id j) (erasure_jobs db)")
  case None
  with assms(2) show ?thesis by (auto simp: find_None_iff)
next
  case (Some k)
  then have "k \<in> set (erasure_jobs db)" "j_id k = j_id j" by (auto simp: find_Some_iff)
  with assms have "k = j" by (auto simp: db_ok_def distinct_map dest: inj_onD)
  with Some show ?thesis by simp
qed

abbreviation ref_of :: "('f, 'o, 'g, 't) gateway \<Rightarrow> string \<Rightarrow> string" where
  "ref_of gw subject_id \<equiv> subject_ref (settings.truncate (rt_env (gw_rt gw))) subject_id"

text \<open>A request of an authorised caller for a subject in the routing table, step by step.\<close>

lemma create_erasure_run:
  assumes "allowed gw ''erasure:write'' creds p" "text_param p = Inr caller" "reason \<in> set reasons" "db_ok (w_db w)"
    and "map_of (subject_shard_map (w_db w)) (ref_of gw subject_id) = Some en"
    and "insert_or_get new_id now (ref_of gw subject_id) reason (e_shard en) key (clock + 3600 * SLA_HOURS gw) caller (w_db w) = Inr ((i, created), db')"
    and "j \<in> set (erasure_jobs db')" "j_id j = i"
  shows "create_erasure gw now clock new_id creds (Some key) subject_id reason w
    = (Inr (Answer \<lparr>a_id = i, a_deadline = j_deadline j\<rparr>), w\<lparr>w_db := db', w_failed := False\<rparr>)"
proof -
  have "db_ok db'" by (rule db_ok_insert [OF assms(4,6)])
  from find_job [OF this assms(7)] show ?thesis
    by (simp add: create_erasure_def guarded_allowed [OF assms(1)] assms Let_def pooled_def io_bind_def on_conn_def select_def
        execute_def io_lift_def commit_conn_def io_return_def)
qed

lemma create_erasure_cases:
  assumes "db_ok (w_db w)"
  obtains (accepted) p caller k en i created db' j
    where "allowed gw ''erasure:write'' creds p" "text_param p = Inr caller" "key = Some k" "reason \<in> set reasons"
      "map_of (subject_shard_map (w_db w)) (ref_of gw subject_id) = Some en"
      "insert_or_get new_id now (ref_of gw subject_id) reason (e_shard en) k (clock + 3600 * SLA_HOURS gw) caller (w_db w) = Inr ((i, created), db')"
      "j \<in> set (erasure_jobs db')" "j_id j = i" "j_by j = caller" "j_key j = k"
      "if created then j = new_job new_id (ref_of gw subject_id) reason (e_shard en) k (clock + 3600 * SLA_HOURS gw) caller now
       else db' = w_db w \<and> j \<in> set (erasure_jobs (w_db w))"
      "create_erasure gw now clock new_id creds key subject_id reason w
        = (Inr (Answer \<lparr>a_id = i, a_deadline = j_deadline j\<rparr>), w\<lparr>w_db := db', w_failed := False\<rparr>)"
  | (rejected) r where "create_erasure gw now clock new_id creds key subject_id reason w = (r, w\<lparr>w_failed := False\<rparr>)
      \<or> create_erasure gw now clock new_id creds key subject_id reason w = (r, w)" "\<forall>a. r \<noteq> Inr (Answer a)"
proof (cases "\<exists>p. allowed gw ''erasure:write'' creds p")
  case True
  then obtain p where p: "allowed gw ''erasure:write'' creds p" by blast
  note run = create_erasure_def guarded_allowed [OF p] Let_def pooled_def io_bind_def on_conn_def select_def execute_def
    io_lift_def commit_conn_def io_return_def
  show thesis
  proof (cases "key = None \<or> reason \<notin> set reasons")
    case True
    then show thesis by (intro rejected [of "Inr (HTTPException 422)"]) (auto simp: run split: option.split)
  next
    case False
    then obtain k where k: "key = Some k" "reason \<in> set reasons" by auto
    show thesis
    proof (cases "map_of (subject_shard_map (w_db w)) (ref_of gw subject_id)")
      case None
      with k show thesis by (intro rejected [of "Inr (HTTPException 404)"]) (auto simp: run)
    next
      case (Some en)
      show thesis
      proof (cases "text_param p")
        case (Inl e)
        with k Some show thesis by (intro rejected [of "Inl e"]) (auto simp: run)
      next
        case (Inr caller)
        let ?ins = "insert_or_get new_id now (ref_of gw subject_id) reason (e_shard en) k (clock + 3600 * SLA_HOURS gw) caller (w_db w)"
        show thesis
        proof (cases ?ins)
          case (Inl e)
          with k Some Inr show thesis by (intro rejected [of "Inl e"]) (auto simp: run)
        next
          case ins: (Inr x)
          obtain i created db' where x: "x = ((i, created), db')" by (metis prod.exhaust)
          from insert_or_get_job [OF ins [unfolded x]] obtain j
            where j: "j \<in> set (erasure_jobs db')" "j_id j = i" "j_by j = caller" "j_key j = k"
              "if created then j = new_job new_id (ref_of gw subject_id) reason (e_shard en) k (clock + 3600 * SLA_HOURS gw) caller now
               else db' = w_db w \<and> j \<in> set (erasure_jobs (w_db w))" .
          from create_erasure_run [OF p Inr k(2) assms Some ins [unfolded x] j(1,2)]
          show thesis unfolding k(1) [symmetric] by (rule accepted [OF p Inr k Some ins [unfolded x] j])
        qed
      qed
    qed
  qed
next
  case False
  then have none: "\<forall>p. \<not> allowed gw ''erasure:write'' creds p" by blast
  have "\<exists>r. create_erasure gw now clock new_id creds key subject_id reason w = (r, w) \<and> refused gw r"
    unfolding create_erasure_def by (rule guarded_refused [OF none])
  then obtain r where "create_erasure gw now clock new_id creds key subject_id reason w = (r, w)" "refused gw r" by blast
  then show thesis by (intro rejected [of r]) (auto simp: refused_def)
qed

section \<open>Properties of the intake\<close>

text \<open>
  C27 An accepted request is a step of the system. A reply with 202 was made for a token with
  the scope and a subject that is routed, gives the identifier and the deadline of a stored
  job of the token's principal with the request's key, and is a \<open>submit\<close> step; the job is
  the request's own unless the principal had used the key before. Any other outcome leaves
  tables, files and models as they were.
\<close>

theorem create_erasure_refines:
  assumes "create_erasure gw now clock new_id creds key subject_id reason w = (r, w')" "db_ok (w_db w)" "\<not> w_failed w"
  shows "case r of
      Inr (Answer a) \<Rightarrow> sys_step rt (w, held) (w', held)
        \<and> (\<exists>p j. allowed gw ''erasure:write'' creds p \<and> j \<in> set (erasure_jobs (w_db w')) \<and> j_id j = a_id a
            \<and> text_param p = Inr (j_by j) \<and> key = Some (j_key j) \<and> j_deadline j = a_deadline a
            \<and> (j \<in> set (erasure_jobs (w_db w)) \<or> j_ref j = ref_of gw subject_id \<and> j_reason j = reason
                 \<and> j_status j = Queued \<and> j_deadline j = clock + 3600 * SLA_HOURS gw))
    | _ \<Rightarrow> w' = w"
  using assms(2)
proof (rule create_erasure_cases [where gw = gw and now = now and clock = clock and new_id = new_id and creds = creds
      and key = key and subject_id = subject_id and reason = reason])
  fix p caller k en i created db' j
  assume a: "allowed gw ''erasure:write'' creds p" "text_param p = Inr caller" "key = Some k"
    "map_of (subject_shard_map (w_db w)) (ref_of gw subject_id) = Some en"
    "insert_or_get new_id now (ref_of gw subject_id) reason (e_shard en) k (clock + 3600 * SLA_HOURS gw) caller (w_db w) = Inr ((i, created), db')"
    "j \<in> set (erasure_jobs db')" "j_id j = i" "j_by j = caller" "j_key j = k"
    and j: "if created then j = new_job new_id (ref_of gw subject_id) reason (e_shard en) k (clock + 3600 * SLA_HOURS gw) caller now
       else db' = w_db w \<and> j \<in> set (erasure_jobs (w_db w))"
    and run: "create_erasure gw now clock new_id creds key subject_id reason w
        = (Inr (Answer \<lparr>a_id = i, a_deadline = j_deadline j\<rparr>), w\<lparr>w_db := db', w_failed := False\<rparr>)"
  have r: "r = Inr (Answer \<lparr>a_id = i, a_deadline = j_deadline j\<rparr>)" and w': "w' = w\<lparr>w_db := db'\<rparr>"
    using run assms(1,3) by simp_all
  have "sys_step rt (w, held) (w', held)" unfolding w' by (rule submit [OF a(4,5)])
  moreover have "j \<in> set (erasure_jobs (w_db w)) \<or> j_ref j = ref_of gw subject_id \<and> j_reason j = reason
      \<and> j_status j = Queued \<and> j_deadline j = clock + 3600 * SLA_HOURS gw"
    using j by (cases created) (simp_all add: new_job_def)
  ultimately show ?thesis using a by (simp add: r w') blast
next
  fix r0
  assume run: "create_erasure gw now clock new_id creds key subject_id reason w = (r0, w\<lparr>w_failed := False\<rparr>)
      \<or> create_erasure gw now clock new_id creds key subject_id reason w = (r0, w)" and no: "\<forall>a. r0 \<noteq> Inr (Answer a)"
  have "w\<lparr>w_failed := False\<rparr> = w" using assms(3) by simp
  with run assms(1) have "r = r0" "w' = w" by auto
  with no show ?thesis by (auto split: sum.split answer.split)
qed

definition small_gateway :: "(int, unit, nat, int) gateway" where
  "small_gateway = \<lparr>gw_rt = small_runtime ENGINE_GBDT, gw_gen = 0, gw_pick_version = hd, gw_pick_manifest = hd, gw_uuid = Some,
     gw_insert_review = (\<lambda>q qs. Inr (qs @ [q])), AUTH_TOKENS = None, SLA_HOURS = 720, DISAGREEMENT_THRESHOLD = 0\<rparr>"

abbreviation dev :: "string option" where
  "dev \<equiv> Some ''dev-token''"

lemma dev_allowed:
  "scope \<in> {''predict:invoke'', ''erasure:write'', ''erasure:attest''} \<Longrightarrow> allowed small_gateway scope dev (PStr ''dev'')"
  by (auto simp: allowed_def small_gateway_def auth_tokens_def dev_tokens_def)

definition routed_world :: "(int, int) world" where
  "routed_world = small_world\<lparr>w_db := (w_db small_world)\<lparr>subject_shard_map := [(ref_of small_gateway ''C1'', small_entry 1)]\<rparr>\<rparr>"

lemma routed_facts:
  "map_of (subject_shard_map (w_db routed_world)) (ref_of small_gateway ''C1'') = Some (small_entry 1)"
  "erasure_jobs (w_db routed_world) = []" "db_ok (w_db routed_world)" "\<not> w_failed routed_world"
  by (simp_all add: routed_world_def db_ok_def small_world_def)

lemma routed_insert:
  "insert_or_get ''e'' 0 (ref_of small_gateway ''C1'') ''fraud_excision'' 0 ''k'' 2592000 ''dev'' (w_db routed_world)
    = Inr ((''e'', True), (w_db routed_world)\<lparr>erasure_jobs :=
        [new_job ''e'' (ref_of small_gateway ''C1'') ''fraud_excision'' 0 ''k'' 2592000 ''dev'' 0]\<rparr>)"
  by (simp add: insert_or_get_def reasons_def job_with_key_def routed_facts insert_row_def)

lemma routed_run:
  "create_erasure small_gateway 0 0 ''e'' dev (Some ''k'') ''C1'' ''fraud_excision'' routed_world
    = (Inr (Answer \<lparr>a_id = ''e'', a_deadline = 2592000\<rparr>), routed_world\<lparr>w_db := (w_db routed_world)\<lparr>erasure_jobs :=
        [new_job ''e'' (ref_of small_gateway ''C1'') ''fraud_excision'' 0 ''k'' 2592000 ''dev'' 0]\<rparr>\<rparr>)"
proof -
  let ?j = "new_job ''e'' (ref_of small_gateway ''C1'') ''fraud_excision'' 0 ''k'' 2592000 ''dev'' 0"
  have "create_erasure small_gateway 0 0 ''e'' dev (Some ''k'') ''C1'' ''fraud_excision'' routed_world
      = (Inr (Answer \<lparr>a_id = ''e'', a_deadline = j_deadline ?j\<rparr>),
         routed_world\<lparr>w_db := (w_db routed_world)\<lparr>erasure_jobs := [?j]\<rparr>, w_failed := False\<rparr>)"
  proof (rule create_erasure_run [OF dev_allowed _ _ routed_facts(3,1)])
    have "e_shard (small_entry 1) = 0" "0 + 3600 * SLA_HOURS small_gateway = 2592000"
      by (simp_all add: small_entry_def small_gateway_def)
    then show "insert_or_get ''e'' 0 (ref_of small_gateway ''C1'') ''fraud_excision'' (e_shard (small_entry 1)) ''k''
        (0 + 3600 * SLA_HOURS small_gateway) ''dev'' (w_db routed_world)
      = Inr ((''e'', True), (w_db routed_world)\<lparr>erasure_jobs := [?j]\<rparr>)"
      using routed_insert by (simp only:)
  qed (simp_all add: reasons_def new_job_def)
  moreover have "world.w_failed_update (\<lambda>_. False) w = w" if "\<not> w_failed w" for w :: "(int, int) world"
    using that by simp
  ultimately show ?thesis using routed_facts(4) by (simp add: new_job_def)
qed

theorem create_erasure_refines_witness:
  "\<exists>w'. create_erasure small_gateway 0 0 ''e'' dev (Some ''k'') ''C1'' ''fraud_excision'' routed_world
       = (Inr (Answer \<lparr>a_id = ''e'', a_deadline = 2592000\<rparr>), w')
     \<and> sys_step (small_runtime ENGINE_GBDT) (routed_world, []) (w', [])"
  using create_erasure_refines [OF routed_run routed_facts(3,4), of "small_runtime ENGINE_GBDT" "[]"] routed_run by simp

lemma insert_or_get_again:
  assumes "db_ok db" "j \<in> set (erasure_jobs db)" "reason \<in> set reasons"
  shows "insert_or_get new_id now ref reason shard (j_key j) deadline (j_by j) db = Inr ((j_id j, False), db)"
proof -
  have "job_with_key (j_by j) (j_key j) (erasure_jobs db) = Some j"
  proof (cases "job_with_key (j_by j) (j_key j) (erasure_jobs db)")
    case None
    with assms(2) show ?thesis by (auto simp: job_with_key_None)
  next
    case (Some k)
    from job_with_key_Some [OF this] assms(1,2) have "k = j" unfolding db_ok_def distinct_map by (auto dest: inj_onD)
    with Some show ?thesis by simp
  qed
  with assms(3) show ?thesis by (simp add: insert_or_get_def)
qed

text \<open>
  A reused key drops the request. When a principal sends a key that it has used before,
  for whatever other subject or reason, the reply is 202 with the old job's identifier, and
  nothing is stored: if the subject had no job, it has none afterwards.
\<close>

theorem reused_key_drops_request:
  assumes "db_ok (w_db w)" "j \<in> set (erasure_jobs (w_db w))" "allowed gw ''erasure:write'' creds p" "text_param p = Inr (j_by j)"
    and "reason \<in> set reasons" "map_of (subject_shard_map (w_db w)) (ref_of gw subject_id) = Some en"
  shows "\<exists>w'. create_erasure gw now clock new_id creds (Some (j_key j)) subject_id reason w
      = (Inr (Answer \<lparr>a_id = j_id j, a_deadline = j_deadline j\<rparr>), w') \<and> w_db w' = w_db w \<and> w_disk w' = w_disk w"
  using create_erasure_run [OF assms(3,4,5,1,6) insert_or_get_again [OF assms(1,2,5)] assms(2) refl] by simp

theorem reused_key_drops_request_witness:
  "\<exists>w'. create_erasure small_gateway 9 9 ''f'' dev (Some ''k'') ''C1'' ''consent_revocation''
       (routed_world\<lparr>w_db := (w_db routed_world)\<lparr>erasure_jobs := [new_job ''a'' ''other'' ''fraud_excision'' 3 ''k'' 5 ''dev'' 0]\<rparr>\<rparr>)
     = (Inr (Answer \<lparr>a_id = ''a'', a_deadline = 5\<rparr>), w')
     \<and> map j_ref (erasure_jobs (w_db w')) = [''other'']"
proof -
  let ?j = "new_job ''a'' ''other'' ''fraud_excision'' 3 ''k'' 5 ''dev'' 0"
  let ?w = "routed_world\<lparr>w_db := (w_db routed_world)\<lparr>erasure_jobs := [?j]\<rparr>\<rparr>"
  have "db_ok (w_db ?w)" "?j \<in> set (erasure_jobs (w_db ?w))" "text_param (PStr ''dev'') = Inr (j_by ?j)" "''consent_revocation'' \<in> set reasons"
      "map_of (subject_shard_map (w_db ?w)) (ref_of small_gateway ''C1'') = Some (small_entry 1)"
    by (simp_all add: db_ok_def job_ok_def reasons_def new_job_def routed_facts)
  from reused_key_drops_request [OF this(1,2) dev_allowed this(3-5), of 9 9 "''f''"] show ?thesis by (auto simp: new_job_def)
qed

text \<open>
  C28 An erased subject is accepted again and fails. Nothing removes a subject from
  \<open>subject_shard_map\<close>: once the files have nothing of the subject any more, a new request
  is answered with 202 and queued, and whoever claims the job ends it as failed, with no
  certificate.
\<close>

theorem erased_subject_fails_again:
  assumes "gone {ref_of gw subject_id} (w_disk w)" "routing_json (w_disk w) = Some R"
    and "allowed gw ''erasure:write'' creds p" "text_param p = Inr caller" "reason \<in> set reasons" "db_ok (w_db w)"
    and "map_of (subject_shard_map (w_db w)) (ref_of gw subject_id) = Some en"
    and "job_with_key caller key (erasure_jobs (w_db w)) = None" "new_id \<notin> j_id ` set (erasure_jobs (w_db w))"
  shows "\<exists>w'. create_erasure gw now clock new_id creds (Some key) subject_id reason w
        = (Inr (Answer \<lparr>a_id = new_id, a_deadline = clock + 3600 * SLA_HOURS gw\<rparr>), w')
      \<and> (\<exists>w''. transaction (process_claimed wk later stamp [\<lparr>c_id = new_id, c_ref = ref_of gw subject_id, c_shard = e_shard en\<rparr>]) w' = (Inr (), w'')
          \<and> (\<exists>j\<in>set (erasure_jobs (w_db w'')). j_id j = new_id \<and> j_status j = Failed \<and> j_error j = Some (Rebuild_Failed KeyError))
          \<and> erasure_manifests (w_db w'') = erasure_manifests (w_db w))"
proof -
  let ?j = "new_job new_id (ref_of gw subject_id) reason (e_shard en) key (clock + 3600 * SLA_HOURS gw) caller now"
  let ?db = "(w_db w)\<lparr>erasure_jobs := erasure_jobs (w_db w) @ [?j]\<rparr>"
  let ?w = "w\<lparr>w_db := ?db, w_failed := False\<rparr>"
  have ins: "insert_or_get new_id now (ref_of gw subject_id) reason (e_shard en) key (clock + 3600 * SLA_HOURS gw) caller (w_db w)
      = Inr ((new_id, True), ?db)"
    using assms(5,8,9) by (simp add: insert_or_get_def insert_row_def new_job_def)
  let ?v = "?w\<lparr>w_db := set_failed (Rebuild_Failed KeyError) {new_id} ?db, w_failed := False\<rparr>"
  have deadline: "j_deadline ?j = clock + 3600 * SLA_HOURS gw" by (simp add: new_job_def)
  have "create_erasure gw now clock new_id creds (Some key) subject_id reason w
      = (Inr (Answer \<lparr>a_id = new_id, a_deadline = j_deadline ?j\<rparr>), ?w)"
    by (rule create_erasure_run [OF assms(3-7) ins]) (simp_all add: new_job_def)
  then have run: "create_erasure gw now clock new_id creds (Some key) subject_id reason w
      = (Inr (Answer \<lparr>a_id = new_id, a_deadline = clock + 3600 * SLA_HOURS gw\<rparr>), ?w)"
    by (simp only: deadline)
  have work: "transaction (process_claimed wk later stamp [\<lparr>c_id = new_id, c_ref = ref_of gw subject_id, c_shard = e_shard en\<rparr>]) ?w
      = (Inr (), ?v)"
    by (subst process_gone [where R = R]) (use assms(1,2) in simp_all)
  have failed: "\<exists>j\<in>set (erasure_jobs (w_db ?v)). j_id j = new_id \<and> j_status j = Failed \<and> j_error j = Some (Rebuild_Failed KeyError)"
    by (simp add: set_failed_def new_job_def)
  have same: "erasure_manifests (w_db ?v) = erasure_manifests (w_db w)"
    by (simp add: set_failed_def)
  show ?thesis
    by (rule exI [of _ ?w], rule conjI, rule run, rule exI [of _ ?v], intro conjI, rule work, rule failed, rule same)
qed

theorem erased_subject_fails_again_witness:
  "\<exists>w w' w'' :: (int, int) world. create_erasure small_gateway 0 0 ''e'' dev (Some ''k'') ''C1'' ''fraud_excision'' w
       = (Inr (Answer \<lparr>a_id = ''e'', a_deadline = 2592000\<rparr>), w')
     \<and> transaction (process_claimed small_worker 1 (\<lambda>_. ([], [])) [\<lparr>c_id = ''e'', c_ref = ref_of small_gateway ''C1'', c_shard = 0\<rparr>]) w' = (Inr (), w'')
     \<and> (\<exists>j\<in>set (erasure_jobs (w_db w'')). j_id j = ''e'' \<and> j_status j = Failed)"
proof -
  let ?w = "routed_world\<lparr>w_disk := (small_disk 3)\<lparr>routing_json := Some [], shard_npz := (\<lambda>_. None)\<rparr>\<rparr>"
  have "gone {ref_of small_gateway ''C1''} (w_disk ?w)" "routing_json (w_disk ?w) = Some []" by (simp_all add: gone_def)
  moreover have "text_param (PStr ''dev'') = Inr ''dev''" "''fraud_excision'' \<in> set reasons" "db_ok (w_db ?w)"
      "map_of (subject_shard_map (w_db ?w)) (ref_of small_gateway ''C1'') = Some (small_entry 1)"
      "job_with_key ''dev'' ''k'' (erasure_jobs (w_db ?w)) = None" "''e'' \<notin> j_id ` set (erasure_jobs (w_db ?w))"
    by (simp_all add: reasons_def routed_facts job_with_key_def)
  moreover have "0 + 3600 * SLA_HOURS small_gateway = 2592000" "e_shard (small_entry 1) = 0"
    by (simp_all add: small_gateway_def small_entry_def)
  moreover have "allowed small_gateway ''erasure:write'' dev (PStr ''dev'')" by (rule dev_allowed) simp
  ultimately show ?thesis
    using erased_subject_fails_again [of small_gateway "''C1''" ?w "[]" dev "PStr ''dev''" "''dev''" "''fraud_excision''"
      "small_entry 1" "''k''" "''e''" 0 0 small_worker 1 "\<lambda>_. ([], [])"] by metis
qed

text \<open>
  A text that is no UUID is an internal error. The status and the certificate of such an
  identifier end with the exception of the database instead of 404; the connection goes
  back to the pool without a failed transaction, and the tables are unchanged.
\<close>

theorem malformed_id_raises:
  assumes "allowed gw ''erasure:attest'' creds p" "gw_uuid gw erasure_id = None"
  shows "get_erasure gw creds erasure_id w = (Inl DatabaseError, w\<lparr>w_failed := False\<rparr>)
     \<and> get_certificate gw creds erasure_id w = (Inl DatabaseError, w\<lparr>w_failed := False\<rparr>)"
  using assms(2)
  by (simp add: get_erasure_def get_certificate_def guarded_allowed [OF assms(1)] pooled_row io_bind_def)

theorem malformed_id_raises_witness:
  "get_erasure (small_gateway\<lparr>gw_uuid := (\<lambda>_. None)\<rparr>) dev ''x'' routed_world = (Inl DatabaseError, routed_world)"
proof -
  have "allowed (small_gateway\<lparr>gw_uuid := (\<lambda>_. None)\<rparr>) ''erasure:attest'' dev (PStr ''dev'')"
    using dev_allowed [of "''erasure:attest''"] by (simp add: allowed_def)
  from malformed_id_raises [OF this, of "''x''" routed_world] routed_facts(4) show ?thesis by simp
qed

section \<open>Properties of the attestation\<close>



end
