(* ===== verification/Serving.thy ===== *)
theory Serving
  imports Gateway
begin

text \<open>
  The handlers of \<open>gateway\<close> that serve models: version information, scoring with the
  current model, and the optional review of transactions on which the shards disagree.
\<close>

section \<open>Models\<close>

definition models_current ::
  "('f, 'o, 'g, 't) gateway \<Rightarrow> string option \<Rightarrow> (('f, 't) world, version_row answer) io" where
  "models_current gw creds =
     guarded (AUTH_TOKENS gw) ''predict:invoke'' creds (\<lambda>_.
       io_bind (pooled (on_conn (select (\<lambda>db. newest (gw_pick_version gw) v_promoted (model_versions db))))) (\<lambda>row.
       io_return (case row of None \<Rightarrow> HTTPException 404 | Some v \<Rightarrow> Answer v)))"

definition manifest_for_version ::
  "('f, 'o, 'g, 't) gateway \<Rightarrow> string option \<Rightarrow> string \<Rightarrow> (('f, 't) world, (string \<times> (nat \<times> string) list) answer) io" where
  "manifest_for_version gw creds version =
     guarded (AUTH_TOKENS gw) ''erasure:attest'' creds (\<lambda>_.
       io_bind (pooled (on_conn (select (\<lambda>db. List.find (\<lambda>v. v_name v = version) (model_versions db))))) (\<lambda>row.
       io_return (case row of None \<Rightarrow> HTTPException 404 | Some v \<Rightarrow> Answer (version, v_checkpoints v))))"

section \<open>Scores\<close>

definition current_model ::
  "('f, 'o, 'g, 't) gateway \<Rightarrow> (('f, 't) world, (string \<times> shard_paths) answer) io" where
  "current_model gw =
     io_bind (select (\<lambda>db. newest (gw_pick_version gw) v_promoted (model_versions db))) (\<lambda>row.
     case row of
       None \<Rightarrow> io_return (HTTPException 503)
     | Some v \<Rightarrow>
         io_bind (select (checkpoint_files (map snd (v_checkpoints v)))) (\<lambda>paths.
         io_return (if \<not> fst ` set (v_checkpoints v) \<subseteq> fst ` set paths then HTTPException 503
                    else Answer (v_name v, paths))))"

record 'f score_request =
  b_step :: 'f
  b_type :: string
  b_amount :: 'f
  b_oldbalanceOrg :: 'f
  b_newbalanceOrig :: 'f
  b_oldbalanceDest :: 'f
  b_newbalanceDest :: 'f

record 'f scored =
  fraud_probability :: 'f
  model_version :: string

text \<open>\<open>DISAGREEMENT_THRESHOLD > 0.0\<close>, and the population standard deviation of the scores.\<close>

definition review_enabled :: "('f, 'o, 'g, 't) gateway \<Rightarrow> bool" where
  "review_enabled gw = np_less (rt_np (gw_rt gw)) (np_lit (rt_np (gw_rt gw)) ''0.0'') (DISAGREEMENT_THRESHOLD gw)"

definition spread :: "('f, 'o, 'g, 't) gateway \<Rightarrow> 'f list \<Rightarrow> 'f" where
  "spread gw scores = np_std (rt_np (gw_rt gw)) scores"

definition type_index :: "string \<Rightarrow> string list \<Rightarrow> nat" where
  "type_index t ts = length (takeWhile (\<lambda>u. u \<noteq> t) ts)"

text \<open>The record that is scored; its label is never read.\<close>

definition scored_row :: "'f score_request \<Rightarrow> 'f txn" where
  "scored_row b =
     \<lparr>t_step = b_step b, t_amount = b_amount b, t_oldbalanceOrg = b_oldbalanceOrg b, t_newbalanceOrig = b_newbalanceOrig b,
      t_oldbalanceDest = b_oldbalanceDest b, t_newbalanceDest = b_newbalanceDest b,
      type_idx = type_index (b_type b) TYPES, isFraud = 0\<rparr>"

text \<open>The review that is added to the background tasks comes with the reply.\<close>

definition predict ::
  "('f, 'o, 'g, 't) gateway \<Rightarrow> string option \<Rightarrow> 'f score_request
    \<Rightarrow> (('f, 't) world, ('f scored \<times> 'f review option) answer) io" where
  "predict gw creds body =
     guarded (AUTH_TOKENS gw) ''predict:invoke'' creds (\<lambda>_.
       if b_type body \<notin> set TYPES then io_return (HTTPException 422)
       else
       io_bind (pooled (on_conn (current_model gw))) (\<lambda>current.
       case current of
         HTTPException code \<Rightarrow> io_return (HTTPException code)
       | Answer (version, paths) \<Rightarrow>
           io_bind (on_models (load_ensemble (gw_rt gw) (gw_gen gw) paths)) (\<lambda>ensemble.
           io_bind (io_lift (shard_probabilities (gw_rt gw) ensemble [scored_row body])) (\<lambda>probs.
           let shard_scores = map (\<lambda>p. p ! 0) probs;
               probability = np_mean (rt_np (gw_rt gw)) shard_scores;
               review = (if review_enabled gw
                            \<and> np_less (rt_np (gw_rt gw)) (DISAGREEMENT_THRESHOLD gw) (spread gw shard_scores)
                         then Some \<lparr>q_version = version, q_scores = shard_scores, q_mean = probability,
                                    q_spread = spread gw shard_scores, q_threshold = DISAGREEMENT_THRESHOLD gw\<rparr>
                         else None)
           in io_return (Answer (\<lparr>fraud_probability = probability, model_version = version\<rparr>, review))))))"

text \<open>The task runs after the reply; whatever it raises is swallowed.\<close>

definition record_review :: "('f, 'o, 'g, 't) gateway \<Rightarrow> 'f review \<Rightarrow> ('f review list, unit) io" where
  "record_review gw q =
     io_try (\<lambda>reviews. case gw_insert_review gw q reviews of
                         Inl e \<Rightarrow> (Inl e, reviews) | Inr reviews' \<Rightarrow> (Inr (), reviews'))
       (\<lambda>_. io_return ())"

definition healthz :: string where
  "healthz = ''ok''"

section \<open>Scopes\<close>

text \<open>
  C30 Every handler enforces its scope. Without a token that has the scope, the reply is 401
  or 403 (or an error because \<open>AUTH_TOKENS\<close> cannot be read), and nothing at all happens.
\<close>

theorem scopes_enforced:
  "((\<forall>p. \<not> allowed gw ''erasure:write'' creds p) \<longrightarrow>
       (\<exists>r. create_erasure gw now clock new_id creds key subject_id reason w = (r, w) \<and> refused gw r))
   \<and> ((\<forall>p. \<not> allowed gw ''erasure:attest'' creds p) \<longrightarrow>
       (\<exists>r. get_erasure gw creds erasure_id w = (r, w) \<and> refused gw r)
       \<and> (\<exists>r. get_certificate gw creds erasure_id w = (r, w) \<and> refused gw r)
       \<and> (\<exists>r. attest gw creds subject_id w = (r, w) \<and> refused gw r)
       \<and> (\<exists>r. manifest_for_version gw creds version w = (r, w) \<and> refused gw r))
   \<and> ((\<forall>p. \<not> allowed gw ''predict:invoke'' creds p) \<longrightarrow>
       (\<exists>r. models_current gw creds w = (r, w) \<and> refused gw r) \<and> (\<exists>r. predict gw creds body w = (r, w) \<and> refused gw r))"
  unfolding create_erasure_def get_erasure_def get_certificate_def attest_def manifest_for_version_def models_current_def predict_def
  by (blast intro: guarded_refused)

theorem scopes_enforced_witness:
  "\<exists>r. attest small_gateway None ''C1'' routed_world = (r, routed_world) \<and> refused small_gateway r"
proof -
  have "\<forall>p. \<not> allowed small_gateway ''erasure:attest'' None p" by (simp add: allowed_def)
  with scopes_enforced [where gw = small_gateway and creds = None and w = routed_world and subject_id = "''C1''"]
  show ?thesis by blast
qed

section \<open>The current model\<close>

lemma pooled_current:
  "pooled (on_conn (current_model gw)) w = (fst (current_model gw (w\<lparr>w_failed := False\<rparr>)), w\<lparr>w_failed := False\<rparr>)"
  by (simp add: pooled_def on_conn_def current_model_def io_bind_def select_def execute_def io_return_def split: option.split)

section \<open>Checkpoints and versions\<close>

text \<open>
  Every shard of every version has a checkpoint row of its own with the version's hash, and
  a hash has one row.
\<close>

definition versions_ok :: "db \<Rightarrow> bool" where
  "versions_ok db \<longleftrightarrow> distinct (map k_hash (checkpoints db))
     \<and> (\<forall>v\<in>set (model_versions db). distinct (map fst (v_checkpoints v))
          \<and> (\<forall>(k, h)\<in>set (v_checkpoints v). \<exists>row\<in>set (checkpoints db). k_hash row = h \<and> k_shard row = k))"

lemma map_of_dict_of: "map_of (dict_of ps) k = map_of (rev ps) k"
proof -
  have "map_of (foldl (\<lambda>d p. dict_set (fst p) (snd p) d) d ps) k = map_of (rev ps @ d) k" for d
    by (induction ps arbitrary: d) (auto simp: map_of_dict_set map_add_def split: option.split)
  from this [of "[]"] show ?thesis by (simp add: dict_of_def)
qed

lemma keys_dict_of: "fst ` set (dict_of ps) = fst ` set ps"
proof -
  have "map_of (dict_of ps) = map_of (rev ps)" by (rule ext) (rule map_of_dict_of)
  then have "dom (map_of (dict_of ps)) = dom (map_of (rev ps))" by simp
  then show ?thesis by (simp add: dom_map_of_conv_image_fst)
qed

lemma map_of_unique:
  assumes "(k, v) \<in> set ps" "\<And>u. (k, u) \<in> set ps \<Longrightarrow> u = v"
  shows "map_of ps k = Some v"
proof (cases "map_of ps k")
  case None
  with assms(1) show ?thesis by (force simp: map_of_eq_None_iff)
next
  case (Some u)
  with assms(2) [OF map_of_SomeD [OF Some]] show ?thesis by simp
qed

lemma version_row:
  assumes "versions_ok db" "v \<in> set (model_versions db)" "(k, h) \<in> set (v_checkpoints v)"
  obtains row where "row \<in> set (checkpoints db)" "k_hash row = h" "k_shard row = k"
proof -
  have "\<forall>(k, h)\<in>set (v_checkpoints v). \<exists>row\<in>set (checkpoints db). k_hash row = h \<and> k_shard row = k"
    using assms(1,2) by (simp add: versions_ok_def)
  from bspec [OF this assms(3)] obtain row where "row \<in> set (checkpoints db)" "k_hash row = h" "k_shard row = k" by auto
  then show thesis by (rule that)
qed

lemma checkpoint_files_exact:
  assumes "versions_ok db" "v \<in> set (model_versions db)" "(k, h) \<in> set (v_checkpoints v)"
    and "row \<in> set (checkpoints db)" "k_hash row = h" "k_shard row = k"
  shows "map_of (checkpoint_files (map snd (v_checkpoints v)) db) k = Some (k_path row)"
  unfolding checkpoint_files_def map_of_dict_of
proof (rule map_of_unique)
  have "h \<in> set (map snd (v_checkpoints v))" using assms(3) by force
  with assms(4-6) show "(k, k_path row) \<in> set (rev (map (\<lambda>r. (k_shard r, k_path r))
      (filter (\<lambda>r. k_hash r \<in> set (map snd (v_checkpoints v))) (checkpoints db))))" by force
next
  fix p
  assume "(k, p) \<in> set (rev (map (\<lambda>r. (k_shard r, k_path r)) (filter (\<lambda>r. k_hash r \<in> set (map snd (v_checkpoints v))) (checkpoints db))))"
  then obtain r where r: "r \<in> set (checkpoints db)" "k_shard r = k" "p = k_path r" "k_hash r \<in> set (map snd (v_checkpoints v))"
    by auto
  then obtain k' where k': "(k', k_hash r) \<in> set (v_checkpoints v)" by auto
  obtain r' where r': "r' \<in> set (checkpoints db)" "k_hash r' = k_hash r" "k_shard r' = k'"
    by (rule version_row [OF assms(1,2) k'])
  have inj: "inj_on k_hash (set (checkpoints db))" and keys: "distinct (map fst (v_checkpoints v))"
    using assms(1,2) by (auto simp: versions_ok_def distinct_map)
  have "r' = r" using inj_onD [OF inj r'(2,1) r(1)] .
  then have "k' = k" using r' r by simp
  then have "k_hash r = h" using k' assms(3) keys by (meson eq_key_imp_eq_value)
  then have "r = row" using inj_onD [OF inj _ r(1) assms(4)] assms(5) by simp
  then show "p = k_path row" using r(3) by simp
qed

lemma current_model_run:
  assumes "\<not> w_failed w"
  shows "current_model gw w = (Inr (case newest (gw_pick_version gw) v_promoted (model_versions (w_db w)) of
      None \<Rightarrow> HTTPException 503
    | Some v \<Rightarrow> let paths = checkpoint_files (map snd (v_checkpoints v)) (w_db w) in
        if \<not> fst ` set (v_checkpoints v) \<subseteq> fst ` set paths then HTTPException 503 else Answer (v_name v, paths)), w)"
  using assms by (simp add: current_model_def io_bind_def select_def execute_def io_return_def Let_def split: option.split)

lemma current_model_complete:
  assumes "versions_ok (w_db w)" "\<not> w_failed w" "newest (gw_pick_version gw) v_promoted (model_versions (w_db w)) = Some v"
    and "v \<in> set (model_versions (w_db w))"
  shows "\<exists>paths. current_model gw w = (Inr (Answer (v_name v, paths)), w)
     \<and> (\<forall>(k, h)\<in>set (v_checkpoints v). \<exists>row\<in>set (checkpoints (w_db w)). k_hash row = h \<and> k_shard row = k \<and> map_of paths k = Some (k_path row))"
proof -
  let ?paths = "checkpoint_files (map snd (v_checkpoints v)) (w_db w)"
  have exact: "\<exists>row\<in>set (checkpoints (w_db w)). k_hash row = h \<and> k_shard row = k \<and> map_of ?paths k = Some (k_path row)"
    if kh: "(k, h) \<in> set (v_checkpoints v)" for k h
  proof -
    obtain row where "row \<in> set (checkpoints (w_db w))" "k_hash row = h" "k_shard row = k"
      by (rule version_row [OF assms(1,4) kh])
    with checkpoint_files_exact [OF assms(1,4) kh] show ?thesis by blast
  qed
  have "k \<in> fst ` set ?paths" if "(k, h) \<in> set (v_checkpoints v)" for k h
    using exact [OF that] by (metis domI dom_map_of_conv_image_fst)
  then have "fst ` set (v_checkpoints v) \<subseteq> fst ` set ?paths" by auto
  with exact assms(2,3) show ?thesis by (auto simp: current_model_run)
qed

text \<open>What a promotion does to the two tables.\<close>

lemma promote_tables:
  assumes "promote wk now k h world = (Inr (), world')"
  obtains path where
    "checkpoints (w_db world') = insert_new k_hash \<lparr>k_hash = h, k_shard = k, k_slice = int (NUM_SLICES (rt_env (wk_rt wk))) - 1,
        k_path = path, k_code = CODE_DIGEST (rt_env (wk_rt wk))\<rparr> (checkpoints (w_db world))"
    "model_versions (w_db world') = insert_new v_name
        (next_version now k h (newest (pick_version wk) v_promoted (model_versions (w_db world)))) (model_versions (w_db world))"
    "\<not> w_failed world'"
proof -
  let ?v = "next_version now k h (newest (pick_version wk) v_promoted (model_versions (w_db world)))"
  obtain path d s where ok: "\<not> w_failed world" and ev: "record_eval wk now (v_name ?v) (v_checkpoints ?v)
      (world\<lparr>w_disk := d, w_db := add_version ?v (add_checkpoint \<lparr>k_hash = h, k_shard = k,
         k_slice = int (NUM_SLICES (rt_env (wk_rt wk))) - 1, k_path = path, k_code = CODE_DIGEST (rt_env (wk_rt wk))\<rparr> (w_db world))\<rparr>)
      = (Inr s, world')"
    using assms by (auto simp: promote_def io_simps Let_def add_checkpoint_def)
  have "\<not> w_failed world'" using ev by (auto simp: record_eval_def io_simps)
  with record_eval_writes(1,2) [OF ev] show thesis
    by (intro that [of path]) (simp_all add: add_version_def add_checkpoint_def)
qed

lemma set_dict_set: "set (dict_set k v d) \<subseteq> insert (k, v) (set d)"
  by (induction d) auto

lemma keys_dict_set: "fst ` set (dict_set k v d) = insert k (fst ` set d)"
  by (induction d) auto

lemma distinct_dict_set: "distinct (map fst d) \<Longrightarrow> distinct (map fst (dict_set k v d))"
  by (induction d) (auto dest!: subsetD [OF set_dict_set] intro: rev_image_eqI)

lemma distinct_dict_of: "distinct (map fst (dict_of ps))"
proof -
  have "distinct (map fst d) \<Longrightarrow> distinct (map fst (foldl (\<lambda>d p. dict_set (fst p) (snd p) d) d ps))" for d
    by (induction ps arbitrary: d) (auto intro: distinct_dict_set)
  from this [of "[]"] show ?thesis by (simp add: dict_of_def)
qed

text \<open>A promotion keeps the tables in order, unless another shard has the same weights.\<close>

lemma promote_versions_ok:
  assumes run: "promote wk now k h world = (Inr (), world')" and ok: "versions_ok (w_db world)"
    and own: "\<forall>row\<in>set (checkpoints (w_db world)). k_hash row = h \<longrightarrow> k_shard row = k"
    and pick: "\<And>vs. vs \<noteq> [] \<Longrightarrow> pick_version wk vs \<in> set vs"
  shows "versions_ok (w_db world')"
proof (rule promote_tables [OF run])
  fix path
  let ?row = "\<lparr>k_hash = h, k_shard = k, k_slice = int (NUM_SLICES (rt_env (wk_rt wk))) - 1, k_path = path,
    k_code = CODE_DIGEST (rt_env (wk_rt wk))\<rparr>"
  let ?old = "newest (pick_version wk) v_promoted (model_versions (w_db world))"
  let ?cps = "case ?old of Some v \<Rightarrow> v_checkpoints v | None \<Rightarrow> []"
  assume cps: "checkpoints (w_db world') = insert_new k_hash ?row (checkpoints (w_db world))"
    and vs: "model_versions (w_db world') = insert_new v_name (next_version now k h ?old) (model_versions (w_db world))"
  have grow: "set (checkpoints (w_db world)) \<subseteq> set (checkpoints (w_db world'))" by (auto simp: cps insert_new_def)
  have dist: "distinct (map k_hash (checkpoints (w_db world')))" using ok by (simp add: cps insert_new_def versions_ok_def)
  have new: "\<exists>row\<in>set (checkpoints (w_db world')). k_hash row = h \<and> k_shard row = k"
  proof (cases "h \<in> k_hash ` set (checkpoints (w_db world))")
    case True
    then obtain row where "row \<in> set (checkpoints (w_db world))" "k_hash row = h" by auto
    with own grow show ?thesis by blast
  qed (simp add: cps insert_new_def)
  define good where "good cps \<longleftrightarrow> distinct (map fst cps)
      \<and> (\<forall>(j, g)\<in>set cps. \<exists>row\<in>set (checkpoints (w_db world')). k_hash row = g \<and> k_shard row = j)" for cps :: "(nat \<times> string) list"
  have kept: "good (v_checkpoints v)" if v: "v \<in> set (model_versions (w_db world))" for v
    unfolding good_def
  proof
    show "distinct (map fst (v_checkpoints v))" using ok v by (simp add: versions_ok_def)
    show "\<forall>(j, g)\<in>set (v_checkpoints v). \<exists>row\<in>set (checkpoints (w_db world')). k_hash row = g \<and> k_shard row = j"
    proof (rule ballI, clarify)
      fix j g assume "(j, g) \<in> set (v_checkpoints v)"
      then obtain row where "row \<in> set (checkpoints (w_db world))" "k_hash row = g" "k_shard row = j"
        by (rule version_row [OF ok v])
      with grow show "\<exists>row\<in>set (checkpoints (w_db world')). k_hash row = g \<and> k_shard row = j" by blast
    qed
  qed
  have set: "good (dict_set k h cps)" if "good cps" for cps
  proof -
    have "distinct (map fst (dict_set k h cps))" using that distinct_dict_set [of cps k h] by (simp add: good_def)
    moreover have "\<exists>row\<in>set (checkpoints (w_db world')). k_hash row = g \<and> k_shard row = j" if "(j, g) \<in> set (dict_set k h cps)" for j g
    proof -
      from that set_dict_set [of k h cps] consider "j = k" "g = h" | "(j, g) \<in> set cps" by auto
      then show ?thesis using new \<open>good cps\<close> by cases (auto simp: good_def)
    qed
    ultimately show ?thesis by (auto simp: good_def)
  qed
  have "good ?cps"
  proof (cases ?old)
    case (Some v)
    have "v \<in> set (model_versions (w_db world))" by (rule newest_member [OF Some]) (rule pick)
    from kept [OF this] show ?thesis by (simp add: Some)
  qed (simp add: good_def)
  from set [OF this] have "good (v_checkpoints (next_version now k h ?old))" by (simp add: next_version_def)
  with kept have "\<forall>v\<in>set (model_versions (w_db world')). good (v_checkpoints v)"
    by (simp add: vs insert_new_def ball_Un)
  with dist show ?thesis by (simp add: versions_ok_def good_def)
qed

section \<open>Properties\<close>

text \<open>
  C31 What is promoted is served, whole. A promotion of weights that no other shard has keeps
  the tables in order; if all versions were older, the gateway's current model is the new
  version, with exactly the file recorded for the version's hash of every one of its
  shards, so that the promoted shard is served with its new weights and no shard is missing.
\<close>

theorem served_after_promotion:
  assumes "promote wk now k h world = (Inr (), world')" "versions_ok (w_db world)"
    and "\<forall>row\<in>set (checkpoints (w_db world)). k_hash row = h \<longrightarrow> k_shard row = k"
    and "''v-'' @ take 12 h \<notin> v_name ` set (model_versions (w_db world))" "\<forall>u\<in>set (model_versions (w_db world)). v_promoted u < now"
    and "\<forall>vs. vs \<noteq> [] \<longrightarrow> pick_version wk vs \<in> set vs" "\<forall>v. gw_pick_version gw [v] = v"
    and "newest (pick_version wk) v_promoted (model_versions (w_db world)) = old"
  shows "versions_ok (w_db world')
     \<and> (\<exists>paths. current_model gw world' = (Inr (Answer (''v-'' @ take 12 h, paths)), world')
          \<and> (\<forall>j g. ((case old of None \<Rightarrow> Map.empty | Some u \<Rightarrow> map_of (v_checkpoints u))(k \<mapsto> h)) j = Some g
               \<longrightarrow> (\<exists>row\<in>set (checkpoints (w_db world')). k_hash row = g \<and> k_shard row = j \<and> map_of paths j = Some (k_path row))))"
proof -
  let ?v = "next_version now k h old"
  let ?served = "\<lambda>paths j g. \<exists>row\<in>set (checkpoints (w_db world')). k_hash row = g \<and> k_shard row = j \<and> map_of paths j = Some (k_path row)"
  have vs: "model_versions (w_db world') = model_versions (w_db world) @ [?v]"
    unfolding assms(8) [symmetric] by (rule promote_writes(1) [OF assms(1,4)])
  have ok: "versions_ok (w_db world')" by (rule promote_versions_ok [OF assms(1-3)]) (use assms(6) in blast)
  have "newest (gw_pick_version gw) v_promoted (model_versions (w_db world')) = Some (gw_pick_version gw [?v])"
    unfolding vs by (rule newest_last [OF assms(5)]) (simp_all add: next_version_def)
  then have cur: "newest (gw_pick_version gw) v_promoted (model_versions (w_db world')) = Some ?v" using assms(7) by simp
  have run: "\<not> w_failed world'" by (rule promote_tables [OF assms(1)])
  have "?v \<in> set (model_versions (w_db world'))" by (simp add: vs)
  from current_model_complete [OF ok run cur this] obtain paths
    where paths: "current_model gw world' = (Inr (Answer (v_name ?v, paths)), world')"
      "\<forall>(j, g)\<in>set (v_checkpoints ?v). ?served paths j g" by blast
  have map: "map_of (v_checkpoints ?v) = (case old of None \<Rightarrow> Map.empty | Some u \<Rightarrow> map_of (v_checkpoints u))(k \<mapsto> h)"
    by (simp add: next_version_def map_of_dict_set split: option.split)
  have "?served paths j g" if "map_of (v_checkpoints ?v) j = Some g" for j g
    using bspec [OF paths(2) map_of_SomeD [OF that]] by simp
  moreover have "v_name ?v = ''v-'' @ take 12 h" by (simp add: next_version_def)
  ultimately show ?thesis using ok paths(1) unfolding map by metis
qed

theorem served_after_promotion_witness:
  "\<exists>w' paths. promote small_worker 5 0 ''abc'' small_world = (Inr (), w')
     \<and> current_model small_gateway w' = (Inr (Answer (''v-abc'', paths)), w') \<and> map_of paths 0 \<noteq> None"
proof -
  obtain w' where w': "promote small_worker 5 0 ''abc'' small_world = (Inr (), w')"
    using promote_returns [OF small_ready_world(1), of small_worker 0 "[1, 3]"] small_ready_world by blast
  have "versions_ok (w_db small_world)" "\<forall>row\<in>set (checkpoints (w_db small_world)). k_hash row = ''abc'' \<longrightarrow> k_shard row = 0"
      "''v-'' @ take 12 ''abc'' \<notin> v_name ` set (model_versions (w_db small_world))"
      "\<forall>u\<in>set (model_versions (w_db small_world)). v_promoted u < 5"
      "\<forall>vs. vs \<noteq> [] \<longrightarrow> pick_version small_worker vs \<in> set vs" "\<forall>v. gw_pick_version small_gateway [v] = v"
      "newest (pick_version small_worker) v_promoted (model_versions (w_db small_world)) = None"
    by (simp_all add: versions_ok_def small_world_def small_worker_def small_gateway_def newest_def)
  from served_after_promotion [OF w' this] obtain paths
    where paths: "current_model small_gateway w' = (Inr (Answer (''v-'' @ take 12 ''abc'', paths)), w')"
      "\<forall>j g. (Map.empty(0 \<mapsto> ''abc'')) j = Some g \<longrightarrow> (\<exists>row\<in>set (checkpoints (w_db w')).
         k_hash row = g \<and> k_shard row = j \<and> map_of paths j = Some (k_path row))"
    by auto
  have "(Map.empty(0 :: nat \<mapsto> ''abc'')) 0 = Some ''abc''" by simp
  with paths(2) have "map_of paths 0 \<noteq> None" by fastforce
  with w' paths(1) show ?thesis by auto
qed

text \<open>The steps of a scoring request after the scope.\<close>

definition serve :: "('f, 'o, 'g, 't) gateway \<Rightarrow> 'f score_request \<Rightarrow> (('f, 't) world, (string \<times> 'f list) answer) io" where
  "serve gw body =
     (if b_type body \<notin> set TYPES then io_return (HTTPException 422)
      else io_bind (pooled (on_conn (current_model gw))) (\<lambda>current.
        case current of
          HTTPException code \<Rightarrow> io_return (HTTPException code)
        | Answer (version, paths) \<Rightarrow>
            io_bind (on_models (load_ensemble (gw_rt gw) (gw_gen gw) paths)) (\<lambda>ensemble.
            io_bind (io_lift (shard_probabilities (gw_rt gw) ensemble [scored_row body])) (\<lambda>probs.
            io_return (Answer (version, map (\<lambda>p. p ! 0) probs))))))"

definition reply_to :: "('f, 'o, 'g, 't) gateway \<Rightarrow> string \<times> 'f list \<Rightarrow> 'f scored \<times> 'f review option" where
  "reply_to gw = (\<lambda>(version, scores).
     let probability = np_mean (rt_np (gw_rt gw)) scores in
     (\<lparr>fraud_probability = probability, model_version = version\<rparr>,
      if review_enabled gw \<and> np_less (rt_np (gw_rt gw)) (DISAGREEMENT_THRESHOLD gw) (spread gw scores)
      then Some \<lparr>q_version = version, q_scores = scores, q_mean = probability,
                 q_spread = spread gw scores, q_threshold = DISAGREEMENT_THRESHOLD gw\<rparr>
      else None))"

lemma predict_serve:
  "predict gw creds body = guarded (AUTH_TOKENS gw) ''predict:invoke'' creds (\<lambda>_ w.
     case serve gw body w of (r, w') \<Rightarrow> (map_sum id (map_answer (reply_to gw)) r, w'))"
  unfolding predict_def
proof (rule arg_cong [where f = "guarded (AUTH_TOKENS gw) ''predict:invoke'' creds"], rule ext, rule ext)
  show "(if b_type body \<notin> set TYPES then io_return (HTTPException 422)
      else io_bind (pooled (on_conn (current_model gw))) (\<lambda>current.
        case current of
          HTTPException code \<Rightarrow> io_return (HTTPException code)
        | Answer (version, paths) \<Rightarrow>
            io_bind (on_models (load_ensemble (gw_rt gw) (gw_gen gw) paths)) (\<lambda>ensemble.
            io_bind (io_lift (shard_probabilities (gw_rt gw) ensemble [scored_row body])) (\<lambda>probs.
            let shard_scores = map (\<lambda>p. p ! 0) probs;
                probability = np_mean (rt_np (gw_rt gw)) shard_scores;
                review = (if review_enabled gw
                             \<and> np_less (rt_np (gw_rt gw)) (DISAGREEMENT_THRESHOLD gw) (spread gw shard_scores)
                          then Some \<lparr>q_version = version, q_scores = shard_scores, q_mean = probability,
                                     q_spread = spread gw shard_scores, q_threshold = DISAGREEMENT_THRESHOLD gw\<rparr>
                          else None)
            in io_return (Answer (\<lparr>fraud_probability = probability, model_version = version\<rparr>, review)))))) w
      = (case serve gw body w of (r, w') \<Rightarrow> (map_sum id (map_answer (reply_to gw)) r, w'))" for w
    by (simp add: serve_def io_bind_def io_return_def io_lift_def reply_to_def Let_def split: prod.split sum.split answer.split)
qed

lemma serve_current:
  assumes "serve gw body w = (Inr (Answer (version, scores)), w')" "cache_ok (gw_rt gw) (gw_gen gw) (w_disk w) (w_cache w)"
  shows "\<exists>v paths ens probs. newest (gw_pick_version gw) v_promoted (model_versions (w_db w)) = Some v \<and> version = v_name v
     \<and> paths = checkpoint_files (map snd (v_checkpoints v)) (w_db w) \<and> fst ` set (v_checkpoints v) \<subseteq> fst ` set paths
     \<and> load_models (gw_rt gw) (gw_gen gw) paths (w_disk w) = Inr (models_of ens)
     \<and> shard_probabilities (gw_rt gw) ens [scored_row body] = Inr probs \<and> scores = map (\<lambda>p. p ! 0) probs
     \<and> w_disk w' = w_disk w \<and> w_db w' = w_db w \<and> cache_ok (gw_rt gw) (gw_gen gw) (w_disk w') (w_cache w')"
proof -
  let ?w = "w\<lparr>w_failed := False\<rparr>"
  have known: "b_type body \<in> set TYPES" using assms(1) by (auto simp: serve_def io_return_def split: if_splits)
  have cur: "pooled (on_conn (current_model gw)) w = (fst (current_model gw ?w), ?w)" by (rule pooled_current)
  obtain v where v: "newest (gw_pick_version gw) v_promoted (model_versions (w_db w)) = Some v"
    using assms(1) known cur current_model_run [of ?w gw]
    by (cases "newest (gw_pick_version gw) v_promoted (model_versions (w_db w))") (simp_all add: serve_def io_bind_def io_return_def)
  let ?paths = "checkpoint_files (map snd (v_checkpoints v)) (w_db w)"
  have all: "fst ` set (v_checkpoints v) \<subseteq> fst ` set ?paths"
    using assms(1) known cur current_model_run [of ?w gw] v
    by (cases "fst ` set (v_checkpoints v) \<subseteq> fst ` set ?paths") (simp_all add: serve_def io_bind_def io_return_def)
  have cur': "pooled (on_conn (current_model gw)) w = (Inr (Answer (v_name v, ?paths)), ?w)"
    using current_model_run [of ?w gw] v all by (simp add: pooled_current)
  with assms(1) known obtain ens d c probs where load: "load_ensemble (gw_rt gw) (gw_gen gw) ?paths (w_disk w, w_cache w) = (Inr ens, (d, c))"
      and probs: "shard_probabilities (gw_rt gw) ens [scored_row body] = Inr probs"
      and out: "version = v_name v" "scores = map (\<lambda>p. p ! 0) probs" "w' = ?w\<lparr>w_disk := d, w_cache := c\<rparr>"
    by (auto simp: serve_def io_simps cur')
  have "distinct (map fst ?paths)" by (simp add: checkpoint_files_def distinct_dict_of)
  from load_ensemble_current [OF assms(2) this load] have "d = w_disk w" "load_models (gw_rt gw) (gw_gen gw) ?paths (w_disk w) = Inr (models_of ens)"
      "cache_ok (gw_rt gw) (gw_gen gw) (w_disk w) c"
    by auto
  with v all probs out show ?thesis by auto
qed


definition serving_world :: "(int, int) world" where
  "serving_world = small_world\<lparr>w_disk := small_cas_disk, w_db := (w_db small_world)\<lparr>
     model_versions := [\<lparr>v_name = ''v1'', v_checkpoints = [(0, ''b'')], v_eval_set = ''v0'', v_promoted = 0\<rparr>],
     checkpoints := [\<lparr>k_hash = ''b'', k_shard = 0, k_slice = 1, k_path = ''cas/b.json'', k_code = ''dev''\<rparr>]\<rparr>\<rparr>"

definition small_request :: "int score_request" where
  "small_request = \<lparr>b_step = 1, b_type = ''DEBIT'', b_amount = 2, b_oldbalanceOrg = 3, b_newbalanceOrig = 4, b_oldbalanceDest = 5,
     b_newbalanceDest = 6\<rparr>"

lemma small_predict:
  "\<exists>s q w'. predict small_gateway dev small_request serving_world = (Inr (Answer (s, q)), w')"
proof -
  let ?w = "serving_world\<lparr>w_failed := False\<rparr>"
  have cur: "pooled (on_conn (current_model small_gateway)) serving_world = (Inr (Answer (''v1'', [(0, ''cas/b.json'')])), ?w)"
    by (simp add: pooled_current current_model_run serving_world_def small_world_def newest_def small_gateway_def
        checkpoint_files_def dict_of_def)
  have rt: "gw_rt small_gateway = small_runtime ENGINE_GBDT" by (simp add: small_gateway_def)
  have load: "load_ensemble (gw_rt small_gateway) (gw_gen small_gateway) [(0, ''cas/b.json'')] (w_disk ?w, w_cache ?w)
      = (Inr (Gbdt_Ensemble [[13, 22]]), (w_disk ?w, [ensemble_key ENGINE_GBDT [(0, ''cas/b.json'')] \<mapsto> Gbdt_Ensemble [[13, 22]]]))"
    by (simp add: load_ensemble_def load_files_defs rt small_runtime_def read_booster_def serving_world_def small_cas_disk_def small_world_def)
  obtain f where "feature_row (rt_np (gw_rt small_gateway)) (scored_row small_request) = Inr f"
    by (simp add: feature_row_def onehot_def scored_row_def small_request_def type_index_def TYPES_def)
  then obtain probs where probs: "shard_probabilities (gw_rt small_gateway) (Gbdt_Ensemble [[13, 22]]) [scored_row small_request] = Inr probs"
    by (simp add: probabilities_defs features_def)
  have "b_type small_request \<in> set TYPES" by (simp add: small_request_def TYPES_def)
  with cur load probs have "\<exists>x w'. serve small_gateway small_request serving_world = (Inr (Answer x), w')"
    by (simp add: serve_def io_bind_def on_models_def io_lift_def io_return_def)
  then obtain x w' where "serve small_gateway small_request serving_world = (Inr (Answer x), w')" by blast
  moreover have "allowed small_gateway ''predict:invoke'' dev (PStr ''dev'')" by (rule dev_allowed) simp
  ultimately show ?thesis by (cases "reply_to small_gateway x") (auto simp: predict_serve guarded_allowed)
qed


text \<open>
  Reviews never touch a reply. The reply to a scoring request, the files, the tables and
  the cached models do not depend on the threshold for reviews, and recording a review
  returns, whatever the database does.
\<close>

theorem reviews_are_separate:
  "map_sum id (map_answer fst) (fst (predict (gw\<lparr>DISAGREEMENT_THRESHOLD := t\<rparr>) creds body w))
      = map_sum id (map_answer fst) (fst (predict gw creds body w))
   \<and> snd (predict (gw\<lparr>DISAGREEMENT_THRESHOLD := t\<rparr>) creds body w) = snd (predict gw creds body w)
   \<and> fst (record_review gw q reviews) = Inr ()"
proof -
  let ?gw = "gw\<lparr>DISAGREEMENT_THRESHOLD := t\<rparr>"
  have serve: "serve ?gw body = serve gw body" by (simp add: serve_def current_model_def)
  have "fst (reply_to ?gw x) = fst (reply_to gw x)" for x by (simp add: reply_to_def Let_def case_prod_beta)
  then have same: "map_sum id (map_answer fst) (map_sum id (map_answer (reply_to ?gw)) r) = map_sum id (map_answer fst) (map_sum id (map_answer (reply_to gw)) r)"
    for r :: "(string \<times> 'a list) answer res"
    by (simp add: sum.map_comp answer.map_comp comp_def)
  have "fst (record_review gw q reviews) = Inr ()"
    by (simp add: record_review_def io_try_def io_return_def split: sum.split)
  then show ?thesis
    by (cases "require_scope (AUTH_TOKENS gw) ''predict:invoke'' creds")
      (auto simp: predict_serve guarded_def io_bind_def io_lift_def io_return_def serve same split: answer.split prod.split)
qed

end
