(* ===== verification/Bootstrap.thy ===== *)
theory Bootstrap
  imports Serving
begin

text \<open>
  \<open>scripts/load_routing.py\<close>: after a build, the routing table goes into the database and the
  live model of every shard becomes the first version.
\<close>

section \<open>Loading\<close>

text \<open>
  \<open>INSERT ... ON CONFLICT (subject_ref) DO UPDATE\<close>: an old row keeps its tenant. \<open>file_bytes\<close>
  gives the bytes of a model file, whose format belongs to PyTorch and XGBoost.
\<close>

definition upsert_entry :: "string \<times> entry \<Rightarrow> routing \<Rightarrow> routing" where
  "upsert_entry = (\<lambda>(ref, e) R.
     dict_set ref (case map_of R ref of None \<Rightarrow> e | Some old \<Rightarrow> e\<lparr>tenant_id := tenant_id old\<rparr>) R)"

definition load_subjects :: "routing \<Rightarrow> db \<Rightarrow> db" where
  "load_subjects R db = db\<lparr>subject_shard_map := fold upsert_entry R (subject_shard_map db)\<rparr>"

definition file_hash :: "('t artifact \<Rightarrow> bytes) \<Rightarrow> ('f, 'o, 'g, 't) runtime \<Rightarrow> nat \<Rightarrow> (('f, 't) disk, string) io" where
  "file_hash file_bytes rt shard =
     io_bind (io_read (live_model rt shard)) (\<lambda>art. io_return (to_hex (sha256 (file_bytes art))))"

definition baseline_shard ::
  "('t artifact \<Rightarrow> bytes) \<Rightarrow> ('f, 'o, 'g, 't) runtime \<Rightarrow> nat \<Rightarrow> (nat \<times> string) list \<Rightarrow> (('f, 't) world, (nat \<times> string) list) io" where
  "baseline_shard file_bytes rt shard shard_checkpoints =
     io_bind (on_disk (file_hash file_bytes rt shard)) (\<lambda>digest.
     io_bind (on_disk (promote_artifact rt shard digest)) (\<lambda>path.
     io_bind (update (add_checkpoint
         \<lparr>k_hash = digest, k_shard = shard, k_slice = int (NUM_SLICES (rt_env rt)) - 1, k_path = path,
          k_code = CODE_DIGEST (rt_env rt)\<rparr>)) (\<lambda>_.
     io_return (dict_set shard digest shard_checkpoints))))"

definition load_routing_main ::
  "('t artifact \<Rightarrow> bytes) \<Rightarrow> ('f::linorder, 'o, 'g, 't) worker \<Rightarrow> int \<Rightarrow> (('f, 't) world, rat) io" where
  "load_routing_main file_bytes wk now =
     io_bind (on_disk load_routing) (\<lambda>R.
     transaction
       (io_bind (update (load_subjects R)) (\<lambda>_.
        io_bind (io_fold (baseline_shard file_bytes (wk_rt wk)) [0..<nat (NUM_SHARDS (rt_env (wk_rt wk)))] []) (\<lambda>cps.
        io_bind (update (add_version
            \<lparr>v_name = ''v0-baseline'', v_checkpoints = cps, v_eval_set = ''v0'', v_promoted = now\<rparr>)) (\<lambda>_.
        record_eval wk now ''v0-baseline'' cps)))))"

section \<open>The subjects\<close>

lemma io_bind_intro: "m w = (Inr x, w') \<Longrightarrow> f x w' = r \<Longrightarrow> io_bind m f w = r"
  by (simp add: io_bind_def)


lemma upsert_other: "ref \<notin> fst ` set R \<Longrightarrow> map_of (fold upsert_entry R m) ref = map_of m ref"
  by (induction R arbitrary: m) (auto simp: upsert_entry_def map_of_dict_set)

lemma upsert_all:
  assumes "distinct (map fst R)" "map_of R ref = Some e"
  shows "map_of (fold upsert_entry R m) ref
    = Some (case map_of m ref of None \<Rightarrow> e | Some old \<Rightarrow> e\<lparr>tenant_id := tenant_id old\<rparr>)"
  using assms
proof (induction R arbitrary: m)
  case (Cons x R)
  obtain r e' where x: "x = (r, e')" by (cases x)
  show ?case
  proof (cases "r = ref")
    case True
    then have "ref \<notin> fst ` set R" "e' = e" using Cons.prems x by auto
    with upsert_other [of ref R "upsert_entry x m"] show ?thesis by (simp add: x True upsert_entry_def map_of_dict_set)
  next
    case False
    then have "map_of (upsert_entry x m) ref = map_of m ref" by (simp add: x upsert_entry_def map_of_dict_set)
    with False show ?thesis using Cons.IH [of "upsert_entry x m"] Cons.prems x by simp
  qed
qed simp

lemma upsert_empty:
  assumes "distinct (map fst R)"
  shows "map_of (fold upsert_entry R []) = map_of R"
proof
  fix ref
  show "map_of (fold upsert_entry R []) ref = map_of R ref"
  proof (cases "map_of R ref")
    case None
    then have "ref \<notin> fst ` set R" by (simp add: map_of_eq_None_iff)
    with None show ?thesis by (simp add: upsert_other)
  next
    case (Some e)
    from upsert_all [OF assms this, of "[]"] Some show ?thesis by simp
  qed
qed

section \<open>The models\<close>

definition live_hash :: "('t artifact \<Rightarrow> bytes) \<Rightarrow> ('f, 'o, 'g, 't) runtime \<Rightarrow> ('f, 't) disk \<Rightarrow> nat \<Rightarrow> string" where
  "live_hash file_bytes rt d k = (case live_model rt k d of None \<Rightarrow> [] | Some art \<Rightarrow> to_hex (sha256 (file_bytes art)))"

text \<open>What differs after some shards: the content-addressed files and the checkpoints.\<close>

definition only_models :: "('f, 't) world \<Rightarrow> ('f, 't) world \<Rightarrow> bool" where
  "only_models w w' \<longleftrightarrow> (\<exists>c. w_disk w' = (w_disk w)\<lparr>cas_file := c\<rparr>) \<and> w_failed w' = w_failed w
     \<and> (\<exists>rows. w_db w' = (w_db w)\<lparr>checkpoints := rows\<rparr>)"

lemma only_models_refl: "only_models w w"
  unfolding only_models_def by (intro conjI exI [of _ "cas_file (w_disk w)"] exI [of _ "checkpoints (w_db w)"]) simp_all

lemma only_models_trans: "only_models u v \<Longrightarrow> only_models v w \<Longrightarrow> only_models u w"
  by (auto simp: only_models_def)

lemma only_models_hash: "only_models w w' \<Longrightarrow> live_hash fb rt (w_disk w') k = live_hash fb rt (w_disk w) k"
  by (auto simp: only_models_def live_hash_def live_model_def split: engine_kind.split)

lemma baseline_shard_step:
  assumes "baseline_shard fb rt k cps w = (Inr cps', w')"
  shows "only_models w w' \<and> cps' = dict_set k (live_hash fb rt (w_disk w) k) cps
     \<and> (\<exists>path. checkpoints (w_db w') = insert_new k_hash \<lparr>k_hash = live_hash fb rt (w_disk w) k, k_shard = k,
          k_slice = int (NUM_SLICES (rt_env rt)) - 1, k_path = path, k_code = CODE_DIGEST (rt_env rt)\<rparr> (checkpoints (w_db w)))"
proof -
  have cas: "\<exists>c. d' = d\<lparr>cas_file := c\<rparr>" if "promote_artifact rt k h d = (Inr path, d')" for h d d' path
  proof -
    have "\<exists>c. d = d\<lparr>cas_file := c\<rparr>" by (rule exI [of _ "cas_file d"]) simp
    with that show ?thesis by (auto simp: promote_artifact_def Let_def io_simps split: if_splits)
  qed
  let ?h = "live_hash fb rt (w_disk w) k"
  let ?row = "\<lambda>path. \<lparr>k_hash = ?h, k_shard = k, k_slice = int (NUM_SLICES (rt_env rt)) - 1, k_path = path,
    k_code = CODE_DIGEST (rt_env rt)\<rparr>"
  have hash: "digest = ?h \<and> d = w_disk w" if "file_hash fb rt k (w_disk w) = (Inr digest, d)" for digest d
    using that by (auto simp: file_hash_def io_simps live_hash_def)
  obtain path d where path: "promote_artifact rt k ?h (w_disk w) = (Inr path, d)"
      and w': "w' = w\<lparr>w_disk := d, w_db := add_checkpoint (?row path) (w_db w)\<rparr>" and cps: "cps' = dict_set k ?h cps"
    using assms by (auto simp: baseline_shard_def io_simps dest!: hash)
  obtain c where "d = (w_disk w)\<lparr>cas_file := c\<rparr>" using cas [OF path] by blast
  then have "only_models w w'"
    unfolding only_models_def
    by (intro conjI exI [of _ c] exI [of _ "insert_new k_hash (?row path) (checkpoints (w_db w))"])
      (simp_all add: w' add_checkpoint_def)
  moreover have "checkpoints (w_db w') = insert_new k_hash (?row path) (checkpoints (w_db w))"
    by (simp add: w' add_checkpoint_def)
  ultimately show ?thesis using cps by blast
qed

lemma baseline_fold:
  assumes "io_fold (baseline_shard fb rt) [0..<n] [] w = (Inr cps, w')" "checkpoints (w_db w) = []"
    and "inj_on (live_hash fb rt (w_disk w)) {..<n}"
  shows "only_models w w' \<and> cps = map (\<lambda>k. (k, live_hash fb rt (w_disk w) k)) [0..<n]
     \<and> map (\<lambda>r. (k_shard r, k_hash r)) (checkpoints (w_db w')) = cps"
  using assms(1,3)
proof (induction n arbitrary: cps w')
  case 0
  then show ?case using assms(2) by (simp add: io_return_def only_models_refl)
next
  case (Suc n)
  let ?h = "live_hash fb rt (w_disk w)"
  from Suc.prems(1) obtain cps1 w1 where run: "io_fold (baseline_shard fb rt) [0..<n] [] w = (Inr cps1, w1)"
      "baseline_shard fb rt n cps1 w1 = (Inr cps, w')"
    by (auto simp: io_fold_append io_simps)
  have "inj_on ?h {..<n}" using Suc.prems(2) by (rule inj_on_subset) auto
  from Suc.IH [OF run(1) this] have IH: "only_models w w1" "cps1 = map (\<lambda>k. (k, ?h k)) [0..<n]"
      "map (\<lambda>r. (k_shard r, k_hash r)) (checkpoints (w_db w1)) = cps1" by auto
  from baseline_shard_step [OF run(2)] obtain path where step: "only_models w1 w'" "cps = dict_set n (?h n) cps1"
      "checkpoints (w_db w') = insert_new k_hash \<lparr>k_hash = ?h n, k_shard = n,
          k_slice = int (NUM_SLICES (rt_env rt)) - 1, k_path = path, k_code = CODE_DIGEST (rt_env rt)\<rparr> (checkpoints (w_db w1))"
    unfolding only_models_hash [OF IH(1)] by auto
  have "?h n \<notin> ?h ` {..<n}"
  proof
    assume "?h n \<in> ?h ` {..<n}"
    then obtain k where k: "k < n" "?h n = ?h k" by auto
    have "n = k" by (rule inj_onD [OF Suc.prems(2) k(2)]) (use k(1) in auto)
    with k(1) show False by simp
  qed
  moreover have "k_hash ` set (checkpoints (w_db w1)) = snd ` set cps1"
    unfolding IH(3) [symmetric] by (simp add: image_image)
  moreover have "snd ` set cps1 = ?h ` {..<n}" by (auto simp: IH(2) image_image)
  ultimately have new: "?h n \<notin> k_hash ` set (checkpoints (w_db w1))" by simp
  have "cps = cps1 @ [(n, ?h n)]" unfolding step(2) by (rule dict_set_new) (auto simp: IH(2))
  with step(1,3) IH new show ?case
    by (auto simp: insert_new_def intro: only_models_trans)
qed

lemma record_eval_frame:
  assumes "record_eval wk now version cps w = (Inr s, w')"
  shows "w_disk w' = w_disk w \<and> \<not> w_failed w' \<and> (\<exists>rows. w_db w' = (w_db w)\<lparr>eval_results := rows\<rparr>)"
proof -
  have same: "d' = d" if "load_ensemble rt g paths (d, c) = (r, (d', c'))" for rt g paths d d' c c' r
    using that by (auto simp: load_ensemble_def Let_def split: option.splits sum.splits)
  obtain ens d c rows where load: "load_ensemble (wk_rt wk) (wk_gen wk) (checkpoint_files (map snd cps) (w_db w)) (w_disk w, w_cache w)
        = (Inr ens, (d, c))"
      and w': "\<not> w_failed w" "w' = w\<lparr>w_disk := d, w_cache := c, w_db := (w_db w)\<lparr>eval_results := rows\<rparr>\<rparr>"
    using assms by (auto simp: record_eval_def io_simps)
  from same [OF load] show ?thesis by (simp add: w') (rule exI [of _ rows], simp)
qed

abbreviation baseline_row :: "(nat \<times> string) list \<Rightarrow> int \<Rightarrow> version_row" where
  "baseline_row cps now \<equiv> \<lparr>v_name = ''v0-baseline'', v_checkpoints = cps, v_eval_set = ''v0'', v_promoted = now\<rparr>"

text \<open>The transaction step by step; a failed commit would leave the tables as they were.\<close>

lemma load_main_run:
  fixes wk :: "('f::linorder, 'o, 'g, 't) worker"
  assumes "load_routing_main fb wk now w = (Inr score, w')" "routing_json (w_disk w) = Some R"
  obtains cps w1 w2 where
    "io_fold (baseline_shard fb (wk_rt wk)) [0..<nat (NUM_SHARDS (rt_env (wk_rt wk)))] []
       (w\<lparr>w_failed := False, w_db := load_subjects R (w_db w)\<rparr>) = (Inr cps, w1)"
    "record_eval wk now ''v0-baseline'' cps (w1\<lparr>w_db := add_version (baseline_row cps now) (w_db w1)\<rparr>) = (Inr score, w2)"
    "w' = (if w_failed w2 then w2\<lparr>w_db := w_db w, w_failed := False\<rparr> else w2)"
proof -
  let ?n = "nat (NUM_SHARDS (rt_env (wk_rt wk)))"
  have "load_routing (w_disk w) = (Inr R, w_disk w)" by (simp add: load_routing_def io_read_def assms(2))
  then have load: "on_disk load_routing w = (Inr R, w)" by (simp add: on_disk_def)
  let ?body = "io_bind (update (load_subjects R)) (\<lambda>_.
      io_bind (io_fold (baseline_shard fb (wk_rt wk)) [0..<?n] []) (\<lambda>cps.
      io_bind (update (add_version (baseline_row cps now))) (\<lambda>_.
      record_eval wk now ''v0-baseline'' cps)))"
  have "transaction ?body w = (Inr score, w')"
    using assms(1) unfolding load_routing_main_def io_bind_step [of "on_disk load_routing" w R w, OF load] .
  then obtain w2 where body: "?body (w\<lparr>w_failed := False\<rparr>) = (Inr score, w2)"
      "w' = (if w_failed w2 then w2\<lparr>w_db := w_db w, w_failed := False\<rparr> else w2)"
    by (auto simp: transaction_def split: prod.splits sum.splits)
  show thesis using body(1) by (auto simp: io_simps intro: that [OF _ _ body(2)])
qed

lemma baseline_versions_ok:
  assumes "map (\<lambda>r. (k_shard r, k_hash r)) (checkpoints db) = cps" "cps = map (\<lambda>k. (k, h k)) [0..<n]" "inj_on h {..<n}"
    and "model_versions db = [baseline_row cps now]"
  shows "versions_ok db"
proof -
  have "map k_hash (checkpoints db) = map h [0..<n]"
    using arg_cong [OF assms(1), of "map snd"] by (simp add: assms(2) comp_def)
  then have "distinct (map k_hash (checkpoints db))" using assms(3) by (simp add: distinct_map lessThan_atLeast0)
  moreover have "\<exists>row\<in>set (checkpoints db). k_hash row = g \<and> k_shard row = k" if "(k, g) \<in> set cps" for k g
  proof -
    have "(k, g) \<in> set (map (\<lambda>r. (k_shard r, k_hash r)) (checkpoints db))" using that assms(1) by simp
    then show ?thesis by auto
  qed
  moreover have "distinct (map fst cps)" by (simp add: assms(2) comp_def)
  ultimately show ?thesis by (auto simp: versions_ok_def assms(4))
qed

section \<open>Property\<close>

text \<open>
  C35 The bootstrap gives a system that can start. If loading into empty tables returns, and
  the shards' model files have different hashes, the result is a start state of the system:
  every routed subject, and hence every subject with a row in some shard, is in the table
  with its shard, and the gateway's current model is the baseline with a file for every
  shard.
\<close>

theorem bootstrap_ready:
  fixes wk :: "('f::linorder, 'o, 'g, 't) worker"
  assumes "load_routing_main fb wk now w = (Inr score, w')" "routing_json (w_disk w) = Some R" "distinct (map fst R)"
    and "disk_ok (w_disk w)" "erasure_jobs (w_db w) = []" "erasure_manifests (w_db w) = []" "subject_shard_map (w_db w) = []"
    and "checkpoints (w_db w) = []" "model_versions (w_db w) = []"
    and "inj_on (live_hash fb (wk_rt wk) (w_disk w)) {..<nat (NUM_SHARDS (rt_env (wk_rt wk)))}" "\<forall>v. gw_pick_version gw [v] = v"
  shows "sys_start w' \<and> map_of (subject_shard_map (w_db w')) = map_of R
     \<and> (\<forall>k rows r. shard_npz (w_disk w') k = Some rows \<longrightarrow> r \<in> set rows
          \<longrightarrow> (\<exists>en. map_of (subject_shard_map (w_db w')) (row_ref r) = Some en \<and> e_shard en = k))
     \<and> (\<exists>paths. current_model gw w' = (Inr (Answer (''v0-baseline'', paths)), w')
          \<and> (\<forall>k<nat (NUM_SHARDS (rt_env (wk_rt wk))). map_of paths k \<noteq> None))"
proof -
  let ?n = "nat (NUM_SHARDS (rt_env (wk_rt wk)))" and ?h = "live_hash fb (wk_rt wk) (w_disk w)"
  let ?w0 = "w\<lparr>w_failed := False, w_db := load_subjects R (w_db w)\<rparr>"
  obtain cps w1 w2 where run: "io_fold (baseline_shard fb (wk_rt wk)) [0..<?n] [] ?w0 = (Inr cps, w1)"
      and ev: "record_eval wk now ''v0-baseline'' cps (w1\<lparr>w_db := add_version (baseline_row cps now) (w_db w1)\<rparr>) = (Inr score, w2)"
      and w': "w' = (if w_failed w2 then w2\<lparr>w_db := w_db w, w_failed := False\<rparr> else w2)"
    by (rule load_main_run [OF assms(1,2)])
  have "only_models ?w0 w1 \<and> cps = map (\<lambda>k. (k, live_hash fb (wk_rt wk) (w_disk ?w0) k)) [0..<?n]
      \<and> map (\<lambda>r. (k_shard r, k_hash r)) (checkpoints (w_db w1)) = cps"
    by (rule baseline_fold [OF run]) (use assms(8,10) in \<open>simp_all add: load_subjects_def\<close>)
  then have w1: "only_models ?w0 w1" and cps: "cps = map (\<lambda>k. (k, ?h k)) [0..<?n]"
      and rows: "map (\<lambda>r. (k_shard r, k_hash r)) (checkpoints (w_db w1)) = cps" by auto
  obtain c ck where c: "w_disk w1 = (w_disk w)\<lparr>cas_file := c\<rparr>" "w_db w1 = (load_subjects R (w_db w))\<lparr>checkpoints := ck\<rparr>" "\<not> w_failed w1"
    using w1 by (auto simp: only_models_def)
  let ?v = "baseline_row cps now"
  from record_eval_frame [OF ev] obtain er where w2: "w_disk w2 = w_disk w1" "\<not> w_failed w2"
      "w_db w2 = (add_version ?v (w_db w1))\<lparr>eval_results := er\<rparr>" by auto
  then have w2': "w' = w2" using w' by simp
  have db: "erasure_jobs (w_db w') = []" "erasure_manifests (w_db w') = []" "checkpoints (w_db w') = ck" "model_versions (w_db w') = [?v]"
      "subject_shard_map (w_db w') = fold upsert_entry R []"
    by (simp_all add: w2' w2 c add_version_def load_subjects_def insert_new_def assms(5-9))
  have files: "w_disk w' = (w_disk w)\<lparr>cas_file := c\<rparr>" by (simp add: w2' w2 c)
  have map: "map_of (subject_shard_map (w_db w')) = map_of R" by (simp add: db upsert_empty [OF assms(3)])
  have "files_ok {} (w_disk w)" using assms(4) by (simp add: files_ok_def gone_def)
  then have "files_ok {} (w_disk w')" by (rule files_ok_other) (simp_all add: files)
  then have disk: "disk_ok (w_disk w')" by (simp add: files_ok_def)
  then have start: "sys_start w'" by (simp add: sys_start_def db)
  have routed: "\<exists>en. map_of (subject_shard_map (w_db w')) (row_ref q) = Some en \<and> e_shard en = k"
    if "shard_npz (w_disk w') k = Some rs" "q \<in> set rs" for k rs q
  proof -
    have "aligned (w_disk w')" "routing_json (w_disk w') = Some R" using disk assms(2) by (simp_all add: disk_ok_def files)
    from alignedD [OF this(1,2) that] show ?thesis by (auto simp: map)
  qed
  have ok: "versions_ok (w_db w')"
    by (rule baseline_versions_ok [OF _ cps assms(10)]) (use rows in \<open>simp_all add: db c\<close>)
  have cur: "newest (gw_pick_version gw) v_promoted (model_versions (w_db w')) = Some ?v" by (simp add: newest_def db assms(11))
  have run': "\<not> w_failed w'" using w2 w2' by simp
  have "?v \<in> set (model_versions (w_db w'))" by (simp add: db)
  from current_model_complete [OF ok run' cur this] obtain paths where paths: "current_model gw w' = (Inr (Answer (''v0-baseline'', paths)), w')"
      "\<forall>(k, h)\<in>set cps. \<exists>row\<in>set (checkpoints (w_db w')). k_hash row = h \<and> k_shard row = k \<and> map_of paths k = Some (k_path row)"
    by auto
  have "map_of paths k \<noteq> None" if "k < ?n" for k
  proof -
    have "(k, ?h k) \<in> set cps" using that by (auto simp: cps)
    with bspec [OF paths(2) this] show ?thesis by auto
  qed
  with start map routed paths(1) show ?thesis by blast
qed

text \<open>A deployment with one shard.\<close>

definition boot_worker :: "(int, unit, nat, int) worker" where
  "boot_worker = small_worker\<lparr>wk_rt := (small_runtime ENGINE_GBDT)\<lparr>rt_env := small_env\<lparr>NUM_SHARDS := 1\<rparr>\<rparr>\<rparr>"

definition boot_world :: "(int, int) world" where
  "boot_world = small_world\<lparr>w_db := (w_db small_world)\<lparr>subject_shard_map := []\<rparr>\<rparr>"

lemma small_bootstrap: "\<exists>score w'. load_routing_main (\<lambda>_. []) boot_worker 0 boot_world = (Inr score, w')"
proof -
  let ?wk = boot_worker and ?h = "to_hex (sha256 [])"
  note wk = boot_worker_def small_worker_def small_runtime_def
  let ?p = "cas_path (rt_env (wk_rt ?wk)) ?h ''.json''"
  let ?row = "\<lparr>k_hash = ?h, k_shard = 0, k_slice = int (NUM_SLICES (rt_env (wk_rt ?wk))) - 1, k_path = ?p, k_code = CODE_DIGEST (rt_env (wk_rt ?wk))\<rparr>"
  let ?w0 = "boot_world\<lparr>w_failed := False, w_db := load_subjects small_routing (w_db boot_world)\<rparr>"
  let ?d = "(small_disk 3)\<lparr>cas_file := [?p \<mapsto> Booster_File [1, 3]]\<rparr>"
  let ?w1 = "?w0\<lparr>w_disk := ?d, w_db := add_checkpoint ?row (w_db ?w0)\<rparr>"
  have live: "live_model (wk_rt ?wk) 0 (small_disk 3) = Some (Booster_File [1, 3])"
    by (simp add: live_model_def wk small_disk_def)
  have suffix: "live_suffix (rt_engine (wk_rt ?wk)) = ''.json''" by (simp add: live_suffix_def wk)
  have base: "baseline_shard (\<lambda>_. []) (wk_rt ?wk) 0 [] ?w0 = (Inr [(0, ?h)], ?w1)"
    by (simp add: baseline_shard_def file_hash_def io_bind_def on_disk_def io_read_def io_return_def update_def execute_def live
        promote_artifact_def Let_def io_get_def io_modify_def suffix boot_world_def small_world_def)
      (simp add: small_disk_def)
  have n: "nat (NUM_SHARDS (rt_env (wk_rt ?wk))) = 1" by (simp add: wk)
  let ?v = "\<lparr>v_name = ''v0-baseline'', v_checkpoints = [(0, ?h)], v_eval_set = ''v0'', v_promoted = 0\<rparr>"
  let ?w2 = "?w1\<lparr>w_db := add_version ?v (w_db ?w1)\<rparr>"
  have ready: "boosters_ready ?w2"
    by (simp add: boosters_ready_def boot_world_def small_world_def load_subjects_def add_checkpoint_def add_version_def insert_new_def)
  have "checkpoint_files [?h] (w_db ?w2) = [(0, ?p)]"
    by (simp add: checkpoint_files_def boot_world_def small_world_def load_subjects_def add_checkpoint_def add_version_def insert_new_def dict_of_def)
  with boosters_load [OF ready, of "wk_rt ?wk" "[?h]" "wk_gen ?wk"] obtain bs c
    where load: "load_ensemble (wk_rt ?wk) (wk_gen ?wk) (checkpoint_files [?h] (w_db ?w2)) (w_disk ?w2, w_cache ?w2) = (Inr (Gbdt_Ensemble bs), (w_disk ?w2, c))"
    by (auto simp: wk)
  have probs: "predict_proba (wk_rt ?wk) (Gbdt_Ensemble bs) (eval_rows ?wk) = Inr []"
    by (simp add: predict_proba_def probabilities_defs wk features_def)
  have score: "auc (eval_labels ?wk) ([] :: int list) = Inr (1 / 2)" by (simp add: auc_def wk)
  have "\<not> w_failed ?w2" by simp
  with load probs score have "\<exists>w3. record_eval ?wk 0 ''v0-baseline'' [(0, ?h)] ?w2 = (Inr (1 / 2), w3)"
    by (simp add: record_eval_def io_bind_def select_def execute_def on_models_def io_lift_def update_def io_return_def)
  then obtain w3 where ev: "record_eval ?wk 0 ''v0-baseline'' [(0, ?h)] ?w2 = (Inr (1 / 2), w3)" by blast
  have 1: "on_disk load_routing boot_world = (Inr small_routing, boot_world)"
    by (simp add: on_disk_def load_routing_def io_read_def boot_world_def small_world_def small_disk_def)
  have 2: "update (load_subjects small_routing) (boot_world\<lparr>w_failed := False\<rparr>) = (Inr (), ?w0)"
    by (simp add: update_def execute_def)
  have 3: "io_fold (baseline_shard (\<lambda>_. []) (wk_rt ?wk)) [0..<nat (NUM_SHARDS (rt_env (wk_rt ?wk)))] [] ?w0 = (Inr [(0, ?h)], ?w1)"
    unfolding n using base by (simp add: io_bind_def io_return_def)
  have 4: "update (add_version ?v) ?w1 = (Inr (), ?w2)" by (simp add: update_def execute_def)
  let ?body = "io_bind (update (load_subjects small_routing)) (\<lambda>_.
      io_bind (io_fold (baseline_shard (\<lambda>_. []) (wk_rt ?wk)) [0..<nat (NUM_SHARDS (rt_env (wk_rt ?wk)))] []) (\<lambda>cps.
      io_bind (update (add_version \<lparr>v_name = ''v0-baseline'', v_checkpoints = cps, v_eval_set = ''v0'', v_promoted = 0\<rparr>)) (\<lambda>_.
      record_eval ?wk 0 ''v0-baseline'' cps)))"
  have "?body (boot_world\<lparr>w_failed := False\<rparr>) = (Inr (1 / 2), w3)"
    by (rule io_bind_intro, rule 2, rule io_bind_intro, rule 3, rule io_bind_intro, rule 4, rule ev)
  then have "\<exists>w'. transaction ?body boot_world = (Inr (1 / 2), w')" by (simp add: transaction_def)
  then obtain w' where run: "transaction ?body boot_world = (Inr (1 / 2), w')" by blast
  have "load_routing_main (\<lambda>_. []) ?wk 0 boot_world = (Inr (1 / 2), w')"
    unfolding load_routing_main_def by (rule io_bind_intro, rule 1, rule run)
  then show ?thesis by blast
qed

theorem bootstrap_ready_witness:
  "\<exists>score w' paths. load_routing_main (\<lambda>_. []) boot_worker 0 boot_world = (Inr score, w') \<and> sys_start w'
     \<and> map_of (subject_shard_map (w_db w')) erin = Some (small_entry 1) \<and> current_model small_gateway w' = (Inr (Answer (''v0-baseline'', paths)), w')"
proof -
  obtain score w' where run: "load_routing_main (\<lambda>_. []) boot_worker 0 boot_world = (Inr score, w')" using small_bootstrap by blast
  have R: "routing_json (w_disk boot_world) = Some small_routing" "distinct (map fst small_routing)" "disk_ok (w_disk boot_world)"
      "map_of small_routing erin = Some (small_entry 1)"
    using small_disk_ok [of 3] by (simp_all add: boot_world_def small_world_def small_disk_def small_routing_def)
  have e: "erasure_jobs (w_db boot_world) = []" "erasure_manifests (w_db boot_world) = []" "subject_shard_map (w_db boot_world) = []"
      "checkpoints (w_db boot_world) = []" "model_versions (w_db boot_world) = []"
    by (simp_all add: boot_world_def small_world_def)
  have "inj_on (live_hash (\<lambda>_. []) (wk_rt boot_worker) (w_disk boot_world)) {..<nat (NUM_SHARDS (rt_env (wk_rt boot_worker)))}"
      "\<forall>v. gw_pick_version small_gateway [v] = v"
    by (simp_all add: inj_on_def boot_worker_def small_worker_def small_gateway_def)
  from bootstrap_ready [OF run R(1,2,3) e this] run R(4) show ?thesis by auto
qed

end
