(* ===== verification/Pool.thy ===== *)
theory Pool
  imports Prelude
begin

text \<open>
  The shared pool of \<open>db/conn.py\<close>: \<open>_get_pool\<close> checks the global twice around a lock, and
  \<open>reset_pool\<close> drops the pool under the same lock. Threads interleave between any two reads
  or writes of the globals.
\<close>

section \<open>Threads\<close>

text \<open>
  Where a thread is. \<open>Got\<close> is the value that \<open>_get_pool\<close> has returned: it reads the global
  once more after the checks.
\<close>

datatype pc =
    At_Check | At_Lock | At_Recheck | At_Create | At_Unlock | At_Return | Got "nat option"
  | Reset_Lock | Reset_Test | Reset_Close | Reset_Clear | Reset_Unlock | Reset_Done

text \<open>
  The globals \<open>_pool\<close> and \<open>_pool_lock\<close> (the thread that holds it), the pools that have been
  made and closed, by number, and the threads.
\<close>

record pool_state =
  the_pool :: "nat option"
  pool_lock :: "nat option"
  pools_made :: "nat list"
  pools_closed :: "nat set"
  threads :: "nat \<Rightarrow> pc"

definition goto :: "nat \<Rightarrow> pc \<Rightarrow> pool_state \<Rightarrow> pool_state" where
  "goto t p s = s\<lparr>threads := (threads s)(t := p)\<rparr>"

inductive pool_step :: "nat \<Rightarrow> pool_state \<Rightarrow> pool_state \<Rightarrow> bool" for t where
  check: "threads s t = At_Check \<Longrightarrow> pool_step t s (goto t (if the_pool s = None then At_Lock else At_Return) s)"
| lock: "threads s t = At_Lock \<Longrightarrow> pool_lock s = None \<Longrightarrow> pool_step t s (goto t At_Recheck (s\<lparr>pool_lock := Some t\<rparr>))"
| recheck: "threads s t = At_Recheck \<Longrightarrow> pool_step t s (goto t (if the_pool s = None then At_Create else At_Unlock) s)"
| create: "threads s t = At_Create \<Longrightarrow> p \<notin> set (pools_made s)
    \<Longrightarrow> pool_step t s (goto t At_Unlock (s\<lparr>the_pool := Some p, pools_made := pools_made s @ [p]\<rparr>))"
| unlock: "threads s t = At_Unlock \<Longrightarrow> pool_step t s (goto t At_Return (s\<lparr>pool_lock := None\<rparr>))"
| return: "threads s t = At_Return \<Longrightarrow> pool_step t s (goto t (Got (the_pool s)) s)"
| reset_lock: "threads s t = Reset_Lock \<Longrightarrow> pool_lock s = None
    \<Longrightarrow> pool_step t s (goto t Reset_Test (s\<lparr>pool_lock := Some t\<rparr>))"
| reset_test: "threads s t = Reset_Test
    \<Longrightarrow> pool_step t s (goto t (if the_pool s = None then Reset_Unlock else Reset_Close) s)"
| reset_close: "threads s t = Reset_Close \<Longrightarrow> the_pool s = Some p
    \<Longrightarrow> pool_step t s (goto t Reset_Clear (s\<lparr>pools_closed := insert p (pools_closed s)\<rparr>))"
| reset_clear: "threads s t = Reset_Clear \<Longrightarrow> pool_step t s (goto t Reset_Unlock (s\<lparr>the_pool := None\<rparr>))"
| reset_unlock: "threads s t = Reset_Unlock \<Longrightarrow> pool_step t s (goto t Reset_Done (s\<lparr>pool_lock := None\<rparr>))"

definition some_step :: "pool_state \<Rightarrow> pool_state \<Rightarrow> bool" where
  "some_step s s' \<longleftrightarrow> (\<exists>t. pool_step t s s')"

definition pool_start :: "pool_state \<Rightarrow> bool" where
  "pool_start s \<longleftrightarrow> the_pool s = None \<and> pool_lock s = None \<and> pools_made s = [] \<and> pools_closed s = {}
     \<and> (\<forall>t. threads s t = At_Check \<or> threads s t = Reset_Lock)"

section \<open>The invariant\<close>

definition holding :: "pc set" where
  "holding = {At_Recheck, At_Create, At_Unlock, Reset_Test, Reset_Close, Reset_Clear, Reset_Unlock}"

definition resetting :: "pc set" where
  "resetting = {Reset_Lock, Reset_Test, Reset_Close, Reset_Clear, Reset_Unlock, Reset_Done}"

text \<open>
  The lock is held by the thread that is between its ends; a pool that has been made and not
  closed is the current one; what the holder, at \<open>p\<close>, has tested is still so.
\<close>

definition globals_ok :: "pc option \<Rightarrow> pool_state \<Rightarrow> bool" where
  "globals_ok p s \<longleftrightarrow> set (pools_made s) - pools_closed s \<subseteq> set_option (the_pool s)
     \<and> set_option (the_pool s) \<subseteq> set (pools_made s) \<and> distinct (pools_made s)
     \<and> (p = Some At_Create \<longrightarrow> the_pool s = None) \<and> (p = Some Reset_Close \<longrightarrow> the_pool s \<noteq> None)
     \<and> (p = Some Reset_Clear \<longrightarrow> set (pools_made s) \<subseteq> pools_closed s)"

definition held_by :: "nat option \<Rightarrow> (nat \<Rightarrow> pc) \<Rightarrow> bool" where
  "held_by l ts \<longleftrightarrow> (\<forall>t. ts t \<in> holding \<longleftrightarrow> l = Some t)"

definition pool_inv :: "pool_state \<Rightarrow> bool" where
  "pool_inv s \<longleftrightarrow> held_by (pool_lock s) (threads s) \<and> globals_ok (map_option (threads s) (pool_lock s)) s"

text \<open>A thread moves outside the lock, inside it, into it or out of it.\<close>

lemma held_outside: "held_by l ts \<Longrightarrow> ts t \<notin> holding \<Longrightarrow> p \<notin> holding \<Longrightarrow> held_by l (ts(t := p))"
  by (simp add: held_by_def)

lemma held_inside: "held_by l ts \<Longrightarrow> ts t \<in> holding \<Longrightarrow> p \<in> holding \<Longrightarrow> held_by l (ts(t := p))"
  by (simp add: held_by_def)

lemma held_enter: "held_by None ts \<Longrightarrow> p \<in> holding \<Longrightarrow> held_by (Some t) (ts(t := p))"
  by (auto simp: held_by_def)

lemma held_leave: "held_by l ts \<Longrightarrow> ts t \<in> holding \<Longrightarrow> p \<notin> holding \<Longrightarrow> held_by None (ts(t := p))"
  by (auto simp: held_by_def)

lemma holder: "held_by l ts \<Longrightarrow> ts t \<in> holding \<Longrightarrow> l = Some t"
  by (simp add: held_by_def)

lemma pool_start_inv: "pool_start s \<Longrightarrow> pool_inv s"
proof -
  assume s: "pool_start s"
  then have "threads s t \<notin> holding" for t by (auto simp: pool_start_def holding_def dest: spec [of _ t])
  with s show ?thesis by (simp add: pool_inv_def held_by_def globals_ok_def pool_start_def)
qed

lemma globals_goto [simp]: "globals_ok q (goto t p s) \<longleftrightarrow> globals_ok q s"
  by (simp add: globals_ok_def goto_def)

text \<open>Steps outside the lock leave the globals alone.\<close>

lemma pool_inv_outside:
  assumes "pool_inv s" "threads s t \<notin> holding" "p \<notin> holding"
  shows "pool_inv (goto t p s)"
proof -
  have "pool_lock s \<noteq> Some t" using assms(1,2) by (simp add: pool_inv_def held_by_def)
  then have "map_option ((threads s)(t := p)) (pool_lock s) = map_option (threads s) (pool_lock s)" by (cases "pool_lock s") auto
  with assms show ?thesis by (simp add: pool_inv_def goto_def held_outside globals_ok_def)
qed

lemma pool_inv_inside:
  assumes "held_by (pool_lock s) (threads s)" "threads s t \<in> holding" "p \<in> holding" "globals_ok (Some p) s'"
    "threads s' = threads s" "pool_lock s' = pool_lock s"
  shows "pool_inv (goto t p s')"
proof -
  have "pool_lock s = Some t" by (rule holder [OF assms(1,2)])
  with assms(4-6) held_inside [OF assms(1-3)] show ?thesis by (simp add: pool_inv_def goto_def globals_ok_def)
qed

lemma pool_step_inv:
  assumes "pool_step t s s'" "pool_inv s"
  shows "pool_inv s'"
proof -
  have held: "held_by (pool_lock s) (threads s)" and globals: "globals_ok (map_option (threads s) (pool_lock s)) s"
    using assms(2) by (simp_all add: pool_inv_def)
  then have inside: "globals_ok (Some (threads s t)) s" if "threads s t \<in> holding"
    using holder [OF held that] by simp
  note h = holding_def
  show ?thesis
    using assms(1)
  proof (cases rule: pool_step.cases)
    case check
    then show ?thesis using pool_inv_outside [OF assms(2)] by (simp add: h)
  next
    case lock
    then show ?thesis using held globals held_enter [of "threads s" At_Recheck t] by (simp add: pool_inv_def goto_def globals_ok_def h)
  next
    case recheck
    then show ?thesis using inside by (auto intro!: pool_inv_inside [OF held] simp: globals_ok_def h)
  next
    case (create p)
    then show ?thesis using inside by (auto intro!: pool_inv_inside [OF held] simp: globals_ok_def h)
  next
    case unlock
    then show ?thesis using inside held_leave [OF held, of t At_Return] by (simp add: pool_inv_def goto_def globals_ok_def h)
  next
    case return
    then show ?thesis using pool_inv_outside [OF assms(2)] by (simp add: h)
  next
    case reset_lock
    then show ?thesis using held globals held_enter [of "threads s" Reset_Test t] by (simp add: pool_inv_def goto_def globals_ok_def h)
  next
    case reset_test
    then show ?thesis using inside by (auto intro!: pool_inv_inside [OF held] simp: globals_ok_def h)
  next
    case (reset_close p)
    then show ?thesis using inside by (auto intro!: pool_inv_inside [OF held] simp: globals_ok_def h)
  next
    case reset_clear
    then show ?thesis using inside by (auto intro!: pool_inv_inside [OF held] simp: globals_ok_def h)
  next
    case reset_unlock
    then show ?thesis using inside held_leave [OF held, of t Reset_Done] by (simp add: pool_inv_def goto_def globals_ok_def h)
  qed
qed

text \<open>Without resets: one pool at most, and who is past the checks finds it.\<close>

definition one_pool :: "pool_state \<Rightarrow> bool" where
  "one_pool s \<longleftrightarrow> pool_inv s \<and> (\<forall>t. threads s t \<notin> resetting)
     \<and> (case the_pool s of None \<Rightarrow> pools_made s = [] | Some p \<Rightarrow> pools_made s = [p])
     \<and> (\<forall>t. threads s t \<in> {At_Unlock, At_Return} \<longrightarrow> the_pool s \<noteq> None)
     \<and> (\<forall>t v. threads s t = Got v \<longrightarrow> v = the_pool s \<and> v \<noteq> None)"

lemma one_pool_step:
  assumes "pool_step t s s'" "one_pool s"
  shows "one_pool s'"
proof -
  have inv: "pool_inv s'" using pool_step_inv [OF assms(1)] assms(2) by (simp add: one_pool_def)
  have create: "the_pool s = None" if "threads s t = At_Create"
    using that assms(2) holder [of "pool_lock s" "threads s" t] by (simp add: one_pool_def pool_inv_def globals_ok_def holding_def)
  have no: "threads s t \<notin> resetting" using assms(2) by (simp add: one_pool_def)
  show ?thesis
    using assms(1)
  proof (cases rule: pool_step.cases)
    case (create p)
    with \<open>threads s t = At_Create \<Longrightarrow> the_pool s = None\<close> have "the_pool s = None" by blast
    then have "pools_made s = []" "\<And>u v. threads s u \<noteq> Got v" "\<And>u. threads s u \<noteq> At_Unlock \<and> threads s u \<noteq> At_Return"
      using assms(2) by (auto simp: one_pool_def)
    with create inv assms(2) show ?thesis by (simp add: one_pool_def goto_def resetting_def)
  qed (use no inv assms(2) in \<open>auto simp: one_pool_def goto_def resetting_def split: option.splits if_splits\<close>)
qed

section \<open>Properties\<close>

text \<open>
  C33 No pool is leaked. Whatever the interleaving of requests and resets, a pool that has
  been made and not closed is the current one, so there is at most one. If nobody resets,
  at most one pool is ever made and every request gets it.
\<close>

theorem pool_never_leaks:
  assumes "some_step\<^sup>*\<^sup>* s0 s" "pool_start s0"
  shows "set (pools_made s) - pools_closed s \<subseteq> set_option (the_pool s)
     \<and> ((\<forall>t. threads s0 t = At_Check) \<longrightarrow> length (pools_made s) \<le> 1
          \<and> (\<forall>t v. threads s t = Got v \<longrightarrow> (\<exists>p. v = Some p \<and> pools_made s = [p])))"
proof -
  have "pool_inv s"
    using assms(1) by (induction rule: rtranclp_induct) (use pool_start_inv [OF assms(2)] pool_step_inv in \<open>auto simp: some_step_def\<close>)
  moreover have "one_pool s" if "\<forall>t. threads s0 t = At_Check"
  proof -
    have "one_pool s0" using that assms(2) pool_start_inv [OF assms(2)] by (simp add: one_pool_def resetting_def pool_start_def)
    with assms(1) show ?thesis
      by (induction rule: rtranclp_induct) (use one_pool_step in \<open>auto simp: some_step_def\<close>)
  qed
  moreover have "length (pools_made s) \<le> 1 \<and> (\<forall>t v. threads s t = Got v \<longrightarrow> (\<exists>p. v = Some p \<and> pools_made s = [p]))" if "one_pool s"
  proof (cases "the_pool s")
    case None
    with that have "pools_made s = []" "\<And>t v. threads s t \<noteq> Got v" by (auto simp: one_pool_def)
    then show ?thesis by simp
  next
    case (Some p)
    with that have "pools_made s = [p]" "\<And>t v. threads s t = Got v \<Longrightarrow> v = Some p" by (auto simp: one_pool_def)
    then show ?thesis by auto
  qed
  ultimately show ?thesis unfolding pool_inv_def globals_ok_def by blast
qed

definition small_pools :: pool_state where
  "small_pools = \<lparr>the_pool = None, pool_lock = None, pools_made = [], pools_closed = {}, threads = (\<lambda>_. At_Check)\<rparr>"

text \<open>Two requests at once: the second finds the pool that the first has made.\<close>

lemma small_pools_run:
  "\<exists>s. some_step\<^sup>*\<^sup>* small_pools s \<and> threads s 1 = Got (Some 7)"
proof -
  let ?s = small_pools
  let ?a = "goto 0 At_Lock ?s" let ?b = "goto 1 At_Lock ?a"
  let ?c = "goto 0 At_Recheck (?b\<lparr>pool_lock := Some 0\<rparr>)" let ?d = "goto 0 At_Create ?c"
  let ?e = "goto 0 At_Unlock (?d\<lparr>the_pool := Some 7, pools_made := pools_made ?d @ [7]\<rparr>)"
  let ?f = "goto 0 At_Return (?e\<lparr>pool_lock := None\<rparr>)"
  let ?g = "goto 1 At_Recheck (?f\<lparr>pool_lock := Some 1\<rparr>)" let ?h = "goto 1 At_Unlock ?g"
  let ?i = "goto 1 At_Return (?h\<lparr>pool_lock := None\<rparr>)" let ?j = "goto 1 (Got (Some 7)) ?i"
  note defs = goto_def small_pools_def
  have "pool_step 0 ?s ?a" using check [of ?s 0] by (simp add: defs)
  moreover have "pool_step 1 ?a ?b" using check [of ?a 1] by (simp add: defs)
  moreover have "pool_step 0 ?b ?c" using lock [of ?b 0] by (simp add: defs)
  moreover have "pool_step 0 ?c ?d" using recheck [of ?c 0] by (simp add: defs)
  moreover have "pool_step 0 ?d ?e" using create [of ?d 0 7] by (simp add: defs)
  moreover have "pool_step 0 ?e ?f" using unlock [of ?e 0] by (simp add: defs)
  moreover have "pool_step 1 ?f ?g" using lock [of ?f 1] by (simp add: defs)
  moreover have "pool_step 1 ?g ?h" using recheck [of ?g 1] by (simp add: defs)
  moreover have "pool_step 1 ?h ?i" using unlock [of ?h 1] by (simp add: defs)
  moreover have "pool_step 1 ?i ?j" using return [of ?i 1] by (simp add: defs)
  ultimately have "some_step\<^sup>*\<^sup>* ?s ?j"
    by (meson some_step_def rtranclp.rtrancl_into_rtrancl rtranclp.rtrancl_refl)
  moreover have "threads ?j 1 = Got (Some 7)" by (simp add: goto_def del: One_nat_def)
  ultimately show ?thesis by blast
qed

theorem pool_never_leaks_witness:
  "\<exists>s. some_step\<^sup>*\<^sup>* small_pools s \<and> threads s 1 = Got (Some 7) \<and> pools_made s = [7]"
proof -
  obtain s where s: "some_step\<^sup>*\<^sup>* small_pools s" "threads s 1 = Got (Some 7)" using small_pools_run by blast
  have "pool_start small_pools" "\<forall>t. threads small_pools t = At_Check" by (simp_all add: pool_start_def small_pools_def)
  with pool_never_leaks [OF s(1)] s show ?thesis by (metis option.inject)
qed

end
