(* ===== verification/Drain.thy ===== *)
theory Drain
  imports Serving
begin

text \<open>
  The loop of \<open>worker/main.py\<close> ends up idle: every cycle that returns closes each job it has
  claimed, so that a worker left alone with the queue empties it.
\<close>

section \<open>Open jobs\<close>

definition finished :: "job \<Rightarrow> bool" where
  "finished j \<longleftrightarrow> j_status j = Done \<or> j_status j = Failed"

definition open_jobs :: "db \<Rightarrow> nat" where
  "open_jobs db = length (filter (\<lambda>j. \<not> finished j) (erasure_jobs db))"

text \<open>\<open>main\<close> without \<open>--once\<close>, for a number of iterations; each has its times and locks.\<close>

fun cycles ::
  "('f::linorder, 'o, 'g, 't) worker \<Rightarrow> (int \<times> string set \<times> int \<times> (nat \<Rightarrow> string \<times> string)) list
    \<Rightarrow> (('f, 't) world, nat list) io" where
  "cycles wk [] = io_return []"
| "cycles wk ((now, locked, later, stamp) # ticks) =
     io_bind (run_once wk now locked later stamp) (\<lambda>n.
     io_bind (cycles wk ticks) (\<lambda>ns. io_return (n # ns)))"

section \<open>What a cycle closes\<close>

text \<open>The jobs are those of \<open>ids\<close>, and the ones in \<open>A\<close> are finished; \<open>live\<close> adds that no statement has failed.\<close>

definition settled :: "string list \<Rightarrow> string set \<Rightarrow> db \<Rightarrow> bool" where
  "settled ids A db \<longleftrightarrow> map j_id (erasure_jobs db) = ids \<and> (\<forall>j\<in>set (erasure_jobs db). j_id j \<in> A \<longrightarrow> finished j)"

definition live :: "string list \<Rightarrow> string set \<Rightarrow> ('f, 't) world \<Rightarrow> bool" where
  "live ids A w \<longleftrightarrow> \<not> w_failed w \<and> settled ids A (w_db w)"

abbreviation stable_jobs :: "string list \<Rightarrow> string set \<Rightarrow> ('f, 't) world \<Rightarrow> bool" where
  "stable_jobs ids A \<equiv> wpred (\<lambda>_. settled ids A)"

lemma settled_same: "settled ids A db \<Longrightarrow> erasure_jobs db' = erasure_jobs db \<Longrightarrow> settled ids A db'"
  by (simp add: settled_def)

lemma settled_manifests [simp]: "settled ids A (db\<lparr>erasure_manifests := ms\<rparr>) = settled ids A db"
  by (simp add: settled_def)

lemma settled_failed: "settled ids A db \<Longrightarrow> settled ids (A \<union> X) (set_failed err X db)"
  by (auto simp: settled_def set_failed_def finished_def comp_def)

lemma settled_done: "settled ids A db \<Longrightarrow> settled ids (insert i A) (set_done now i db)"
  by (auto simp: settled_def set_done_def finished_def comp_def)

lemma settled_mono: "settled ids A db \<Longrightarrow> B \<subseteq> A \<Longrightarrow> settled ids B db"
  by (auto simp: settled_def)

lemma live_stable: "live ids A w \<Longrightarrow> B \<subseteq> A \<Longrightarrow> stable_jobs ids B w"
  by (auto simp: live_def wpred_def intro: settled_mono)

lemma live_disk: "hoare (live ids A) (on_disk m) (\<lambda>_. live ids A) (live ids A)"
  by (rule hoareI) (auto simp: on_disk_def live_def split: prod.splits)

lemma live_update:
  assumes "\<And>db. settled ids A db \<Longrightarrow> settled ids B (f db)"
  shows "hoare (stable_jobs ids A) (update f) (\<lambda>_. live ids B) (\<lambda>_. True)"
  by (rule hoareI) (auto simp: io_simps wpred_def live_def assms)

lemma keeps_jobs_promote: "keeps (stable_jobs ids A) (promote wk now k h)"
  unfolding promote_def record_eval_def Let_def
  by (intro keeps_intros keeps_update keeps_on_disk keeps_on_models)
    (auto simp: add_checkpoint_def add_version_def load_ensemble_def keeps_def Let_def intro: settled_same split: option.splits sum.splits)

lemma live_promote: "hoare (live ids A) (promote wk now k h) (\<lambda>_. live ids A) (stable_jobs ids A)"
proof (rule hoareI)
  fix w x w' assume w: "live ids A w" "promote wk now k h w = (Inr x, w')"
  then have "promote wk now k h w = (Inr (), w')" by simp
  then have "\<not> w_failed w'" by (rule promote_tables)
  moreover have "stable_jobs ids A w'"
    by (rule keepsD [OF keeps_jobs_promote live_stable [OF w(1)] w(2)]) simp
  ultimately show "live ids A w'" by (simp add: live_def wpred_def)
next
  fix w e w' assume w: "live ids A w" "promote wk now k h w = (Inl e, w')"
  show "stable_jobs ids A w'" by (rule keepsD [OF keeps_jobs_promote live_stable [OF w(1)] w(2)]) simp
qed

lemma live_finish_job: "hoare (live ids A) (finish_job now ms c) (\<lambda>_. live ids (insert (c_id c) A)) (stable_jobs ids A)"
proof (rule hoareI)
  fix w x w' assume w: "live ids A w" "finish_job now ms c w = (Inr x, w')"
  then show "live ids (insert (c_id c) A) w'"
    by (auto simp: finish_job_def io_simps insert_manifest_def res_simps live_def intro!: settled_done split: if_splits)
next
  have "keeps (stable_jobs ids A) (finish_job now ms c)"
    unfolding finish_job_def
    by (intro keeps_intros keeps_execute keeps_update)
      (auto simp: insert_manifest_def res_simps intro: settled_same settled_mono [OF settled_done] split: if_splits)
  then show "stable_jobs ids A w'" if "live ids A w" "finish_job now ms c w = (Inl e, w')" for w e w'
    using live_stable [OF that(1) subset_refl] that(2) by (rule keepsD)
qed

text \<open>A loop whose steps close more and more.\<close>

lemma hoare_fold_grow:
  assumes "\<And>x s A. x \<in> set xs \<Longrightarrow> B \<subseteq> A \<Longrightarrow> hoare (live ids A) (f x s) (\<lambda>_. live ids (A \<union> h x)) E" "B \<subseteq> A"
  shows "hoare (live ids A) (io_fold f xs s) (\<lambda>_. live ids (A \<union> \<Union>(h ` set xs))) E"
  using assms
proof (induction xs arbitrary: A s)
  case Nil
  then show ?case by (simp add: hoare_return)
next
  case (Cons x xs)
  have "hoare (live ids (A \<union> h x)) (io_fold f xs t) (\<lambda>_. live ids ((A \<union> h x) \<union> \<Union>(h ` set xs))) E" for t
    by (rule Cons.IH) (use Cons.prems in auto)
  moreover have "hoare (live ids A) (f x s) (\<lambda>_. live ids (A \<union> h x)) E" by (rule Cons.prems(1)) (use Cons.prems(2) in auto)
  ultimately show ?case by (auto simp: Un_assoc intro: hoare_bind)
qed

lemma live_finish_all:
  "hoare (live ids A) (io_fold (\<lambda>c _. finish_job now ms c) cs ()) (\<lambda>_. live ids (A \<union> c_id ` set cs)) (stable_jobs ids A)"
proof -
  have "hoare (live ids A) (io_fold (\<lambda>c _. finish_job now ms c) cs ()) (\<lambda>_. live ids (A \<union> \<Union>((\<lambda>c. {c_id c}) ` set cs))) (stable_jobs ids A)"
  proof (rule hoare_fold_grow)
    fix c :: claimed and s :: unit and C assume "A \<subseteq> C"
    then show "hoare (live ids C) (finish_job now ms c) (\<lambda>_. live ids (C \<union> {c_id c})) (stable_jobs ids A)"
      by (intro hoare_weaken [OF live_finish_job [where A = C]]) (auto simp: wpred_def intro: settled_mono)
  qed simp
  moreover have "\<Union>((\<lambda>c. {c_id c}) ` set cs) = c_id ` set cs" by auto
  ultimately show ?thesis by simp
qed

lemma live_spot_check:
  assumes "i \<in> set ids"
  shows "hoare (live ids A) (run_spot_check wk i k p h) (\<lambda>_. live ids A) (live ids A)"
  unfolding run_spot_check_def
proof (rule hoare_bind [OF live_disk], rule hoare_bind)
  fix observed
  let ?row = "\<lparr>r_id = i, r_expected = h, r_observed = observed, r_matched = (observed = h), r_code = CODE_DIGEST (rt_env (wk_rt wk))\<rparr>"
  show "hoare (live ids A) (execute (insert_check ?row)) (\<lambda>_. live ids A) (live ids A)"
  proof (rule hoareI)
    show "live ids A w'" if "live ids A w" "execute (insert_check ?row) w = (Inr x, w')" for w x w'
      using that by (auto simp: io_simps insert_check_def live_def intro: settled_same split: if_splits)
    show "live ids A w'" if w: "live ids A w" "execute (insert_check ?row) w = (Inl e, w')" for w e w'
    proof -
      have "i \<in> j_id ` set (erasure_jobs (w_db w))" using w(1) assms by (auto simp: live_def settled_def)
      with w show ?thesis by (auto simp: execute_def insert_check_def live_def split: if_splits)
    qed
  qed
qed (simp add: hoare_return)

lemma live_process_group:
  fixes wk :: "('f::linorder, 'o, 'g, 't) worker"
  assumes "c_id ` set cs \<subseteq> set ids"
  shows "hoare (live ids A) (process_group wk now stamp (k, cs)) (\<lambda>_. live ids (A \<union> c_id ` set cs)) (\<lambda>_. True)"
  unfolding process_group_def prod.case Let_def
proof (rule hoare_bind [OF hoare_attempt [OF live_disk]])
  fix rebuilt :: "('f, 't) payload rebuild_result res"
  let ?ids = "set (map c_id cs)"
  have fail: "hoare (stable_jobs ids A) (update (set_failed err ?ids)) (\<lambda>_. live ids (A \<union> c_id ` set cs)) (\<lambda>_. True)" for err
    by (rule live_update) (use settled_failed [of ids A _ ?ids err] in simp)
  show "hoare (\<lambda>w. case rebuilt of Inl e \<Rightarrow> live ids A w | Inr x \<Rightarrow> live ids A w)
      (case rebuilt of
         Inl e \<Rightarrow> update (set_failed (Rebuild_Failed e) ?ids)
       | Inr result \<Rightarrow>
           io_bind (io_attempt (io_bind (promote wk now k (result_weights result))
               (\<lambda>_. io_fold (\<lambda>c _. finish_job now (manifests result) c) cs ())))
             (\<lambda>recorded. case recorded of
                Inl e \<Rightarrow> update (set_failed (Bookkeeping_Failed e k) ?ids)
              | Inr _ \<Rightarrow> io_fold (\<lambda>c _. if should_spot_check wk (c_id c)
                  then io_bind (io_attempt (run_spot_check wk (c_id c) k (replay result) (result_weights result))) (\<lambda>_. io_return ())
                  else io_return ()) cs ()))
      (\<lambda>_. live ids (A \<union> c_id ` set cs)) (\<lambda>_. True)"
  proof (cases rebuilt)
    case (Inl e)
    have "hoare (live ids A) (update (set_failed (Rebuild_Failed e) ?ids)) (\<lambda>_. live ids (A \<union> c_id ` set cs)) (\<lambda>_. True)"
      by (rule hoare_weaken [OF fail]) (auto intro: live_stable)
    then show ?thesis by (simp add: Inl)
  next
    case (Inr result)
    let ?book = "io_bind (promote wk now k (result_weights result)) (\<lambda>_. io_fold (\<lambda>c _. finish_job now (manifests result) c) cs ())"
    have book: "hoare (live ids A) ?book (\<lambda>_. live ids (A \<union> c_id ` set cs)) (stable_jobs ids A)"
      by (rule hoare_bind [OF live_promote live_finish_all])
    have spot: "hoare (live ids B) (io_fold (\<lambda>c _. if should_spot_check wk (c_id c)
        then io_bind (io_attempt (run_spot_check wk (c_id c) k (replay result) (result_weights result))) (\<lambda>_. io_return ())
        else io_return ()) cs ()) (\<lambda>_. live ids B) (\<lambda>_. True)" for B
    proof -
      have "hoare (live ids B) (if should_spot_check wk (c_id c)
          then io_bind (io_attempt (run_spot_check wk (c_id c) k (replay result) (result_weights result))) (\<lambda>_. io_return ())
          else io_return ()) (\<lambda>_. live ids (B \<union> {})) (\<lambda>_. True)" if "c \<in> set cs" for c B
      proof -
        have "c_id c \<in> set ids" using that assms by auto
        from hoare_bind [OF hoare_attempt [OF live_spot_check [OF this, of B wk k "replay result" "result_weights result"]]]
        have "hoare (live ids B) (io_bind (io_attempt (run_spot_check wk (c_id c) k (replay result) (result_weights result))) (\<lambda>_. io_return ()))
            (\<lambda>_. live ids B) (\<lambda>_. True)"
          by (rule_tac hoare_bind [OF hoare_attempt [OF live_spot_check]]) (auto intro: hoare_return split: sum.splits simp: \<open>c_id c \<in> set ids\<close>)
        then show ?thesis by (simp add: hoare_return)
      qed
      from hoare_fold_grow [where xs = cs and h = "\<lambda>_. {}" and B = "{}" and A = B, OF this]
      show ?thesis by simp
    qed
    show ?thesis
      unfolding Inr sum.case
    proof (rule hoare_bind [OF hoare_attempt [OF book]])
      fix recorded :: "unit res"
      show "hoare (\<lambda>w. case recorded of Inl e \<Rightarrow> stable_jobs ids A w | Inr x \<Rightarrow> live ids (A \<union> c_id ` set cs) w)
          (case recorded of Inl e \<Rightarrow> update (set_failed (Bookkeeping_Failed e k) ?ids)
            | Inr _ \<Rightarrow> io_fold (\<lambda>c _. if should_spot_check wk (c_id c)
                  then io_bind (io_attempt (run_spot_check wk (c_id c) k (replay result) (result_weights result))) (\<lambda>_. io_return ())
                  else io_return ()) cs ())
          (\<lambda>_. live ids (A \<union> c_id ` set cs)) (\<lambda>_. True)"
        using fail spot by (cases recorded) simp_all
    qed
  qed
qed

lemma live_process_claimed:
  fixes wk :: "('f::linorder, 'o, 'g, 't) worker"
  assumes "c_id ` set cs \<subseteq> set ids"
  shows "hoare (live ids A) (process_claimed wk now stamp cs) (\<lambda>_. live ids (A \<union> c_id ` set cs)) (\<lambda>_. True)"
proof -
  let ?gs = "groupby c_shard (sort_key c_shard cs)"
  have sets: "\<Union>((\<lambda>g. set (snd g)) ` set ?gs) = set cs"
  proof -
    have "set (concat (map snd ?gs)) = set cs" by (simp add: groupby_concat)
    then show ?thesis by (simp add: set_concat)
  qed
  have "hoare (live ids A) (process_claimed wk now stamp cs) (\<lambda>_. live ids (A \<union> \<Union>((\<lambda>g. c_id ` set (snd g)) ` set ?gs))) (\<lambda>_. True)"
    unfolding process_claimed_def
  proof (rule hoare_fold_grow [where B = "{}"])
    fix g :: "nat \<times> claimed list" and s :: unit and C assume "g \<in> set ?gs"
    then have "set (snd g) \<subseteq> set cs" using sets by blast
    then have "c_id ` set (snd g) \<subseteq> set ids" using assms by blast
    then show "hoare (live ids C) (process_group wk now stamp g) (\<lambda>_. live ids (C \<union> c_id ` set (snd g))) (\<lambda>_. True)"
      using live_process_group [of "snd g" ids C wk now stamp "fst g"] by simp
  qed simp
  moreover have "\<Union>((\<lambda>g. c_id ` set (snd g)) ` set ?gs) = c_id ` set cs" using sets by blast
  ultimately show ?thesis by simp
qed

section \<open>Counting\<close>

definition finished_ids :: "db \<Rightarrow> string set" where
  "finished_ids db = j_id ` {j \<in> set (erasure_jobs db). finished j}"

lemma open_jobs_card:
  assumes "distinct (map j_id (erasure_jobs db))"
  shows "open_jobs db = card (j_id ` set (erasure_jobs db) - finished_ids db)"
proof -
  let ?open = "filter (\<lambda>j. \<not> finished j) (erasure_jobs db)"
  have inj: "inj_on j_id (set (erasure_jobs db))" using assms by (simp add: distinct_map)
  have "j_id ` set (erasure_jobs db) - finished_ids db = j_id ` set ?open"
    unfolding finished_ids_def using inj by (auto dest: inj_onD)
  moreover have "distinct (map j_id ?open)" using assms by (simp add: distinct_map inj_on_def)
  ultimately show ?thesis by (metis distinct_card length_map list.set_map open_jobs_def)
qed

lemma settled_open:
  assumes "settled ids A db" "distinct ids"
  shows "open_jobs db \<le> card (set ids - A)"
proof -
  have ids: "map j_id (erasure_jobs db) = ids" using assms(1) by (simp add: settled_def)
  then have "j_id ` set (erasure_jobs db) = set ids" by (metis list.set_map)
  moreover have "A \<inter> set ids \<subseteq> finished_ids db" using assms(1) ids by (auto simp: settled_def finished_ids_def)
  ultimately have "j_id ` set (erasure_jobs db) - finished_ids db \<subseteq> set ids - A" by blast
  then show ?thesis using open_jobs_card [of db] assms(2) ids by (simp add: card_mono)
qed

lemma finished_by_id:
  "j_id j \<in> finished_ids db \<Longrightarrow> distinct (map j_id (erasure_jobs db)) \<Longrightarrow> j \<in> set (erasure_jobs db) \<Longrightarrow> finished j"
  by (auto simp: finished_ids_def distinct_map dest: inj_onD)

lemma finished_image:
  assumes "\<And>j. j \<in> J \<Longrightarrow> j_id (f j) = j_id j" "\<And>j. j \<in> J \<Longrightarrow> finished (f j) = finished j"
  shows "j_id ` {j \<in> f ` J. finished j} = j_id ` {j \<in> J. finished j}"
proof -
  have "{j \<in> f ` J. finished j} = f ` {j \<in> J. finished (f j)}" by auto
  also have "\<dots> = f ` {j \<in> J. finished j}" using assms(2) by (metis (mono_tags, lifting))
  finally show ?thesis using assms(1) by (simp add: image_image cong: image_cong_simp)
qed

lemma finished_ids_map:
  assumes "erasure_jobs db' = map f (erasure_jobs db)" "\<And>j. j_id (f j) = j_id j"
    and "\<And>j. j \<in> set (erasure_jobs db) \<Longrightarrow> finished (f j) = finished j"
  shows "map j_id (erasure_jobs db') = map j_id (erasure_jobs db)" "finished_ids db' = finished_ids db"
proof -
  show "map j_id (erasure_jobs db') = map j_id (erasure_jobs db)" by (simp add: assms(1,2))
  show "finished_ids db' = finished_ids db"
    unfolding finished_ids_def assms(1) set_map by (rule finished_image) (simp_all add: assms(2,3))
qed

lemma reap_open:
  "map j_id (erasure_jobs (snd (reap_expired_leases now db))) = map j_id (erasure_jobs db)"
  "finished_ids (snd (reap_expired_leases now db)) = finished_ids db"
  by (rule finished_ids_map [where f = "\<lambda>j. if expired now j then requeue j else j"];
      simp add: reap_expired_leases_def requeue_def finished_def expired_def)+

text \<open>A claim takes open jobs and closes none.\<close>

lemma claim_batch_open:
  assumes dist: "distinct (map j_id (erasure_jobs db))" and claim: "claim_batch worker now secs locked limit db = (cs, db')"
  shows "map j_id (erasure_jobs db') = map j_id (erasure_jobs db)" "finished_ids db' = finished_ids db"
    and "distinct (map c_id cs)" "c_id ` set cs \<subseteq> j_id ` set (erasure_jobs db) - finished_ids db"
    and "cs = [] \<Longrightarrow> locked = {} \<Longrightarrow> 0 < limit \<Longrightarrow> \<forall>j\<in>set (erasure_jobs db'). j_status j \<noteq> Queued"
proof -
  let ?ids = "claimable locked limit (erasure_jobs db)" and ?ret = "\<lambda>ids. filter (\<lambda>j. j_id j \<in> set ids) (erasure_jobs db)"
  let ?g = "\<lambda>j. if j_id j \<in> set ?ids then lease_job worker (now + secs) j else j"
  have cs: "cs = sort_key c_shard (map (\<lambda>j. \<lparr>c_id = j_id j, c_ref = j_ref j, c_shard = j_shard j\<rparr>) (?ret ?ids))"
    and db': "erasure_jobs db' = map ?g (erasure_jobs db)"
    using claim by (auto simp: claim_batch_def Let_def)
  note facts = claimable_facts [OF dist, where locked = locked and limit = limit]
  have "finished (?g j) = finished j" if "j \<in> set (erasure_jobs db)" for j
    using facts(3) [OF that] by (simp add: finished_def lease_job_def)
  note same = finished_ids_map [OF db' _ this]
  show "map j_id (erasure_jobs db') = map j_id (erasure_jobs db)" "finished_ids db' = finished_ids db"
    by (rule same; simp add: lease_job_def)+
  have "map c_id (map (\<lambda>j. \<lparr>c_id = j_id j, c_ref = j_ref j, c_shard = j_shard j\<rparr>) (?ret ?ids)) = map j_id (?ret ?ids)"
    by (simp add: comp_def)
  moreover have "distinct (map j_id (?ret ?ids))" by (rule distinct_map_filter [OF dist])
  ultimately have "distinct (map c_id (map (\<lambda>j. \<lparr>c_id = j_id j, c_ref = j_ref j, c_shard = j_shard j\<rparr>) (?ret ?ids)))"
    by (simp only:)
  then show "distinct (map c_id cs)" unfolding cs by (simp only: distinct_map distinct_sort set_sort simp_thms)
  show "c_id ` set cs \<subseteq> j_id ` set (erasure_jobs db) - finished_ids db"
  proof
    fix i assume "i \<in> c_id ` set cs"
    then obtain j where j: "j \<in> set (erasure_jobs db)" "j_id j \<in> set ?ids" "i = j_id j" unfolding cs by auto
    have "j_status j = Queued" using facts(3) [OF j(1,2)] by blast
    then have "\<not> finished j" by (simp add: finished_def)
    with finished_by_id [OF _ dist j(1)] have "i \<notin> finished_ids db" unfolding j(3) by blast
    with j show "i \<in> j_id ` set (erasure_jobs db) - finished_ids db" by blast
  qed
  show "\<forall>j\<in>set (erasure_jobs db'). j_status j \<noteq> Queued" if idle: "cs = []" "locked = {}" "0 < limit"
  proof -
    have "length (?ret ?ids) = length cs" by (simp add: cs)
    then have "?ret ?ids = []" using idle(1) by simp
    then have "set ?ids \<inter> j_id ` set (erasure_jobs db) = {}" by (auto simp: filter_empty_conv)
    with facts(4) have none: "?ids = []" by (metis Int_absorb2 set_empty)
    have "j_status j \<noteq> Queued" if "j \<in> set (erasure_jobs db)" for j
      using facts(5) [OF that] idle(2,3) none by auto
    then show ?thesis by (simp add: db' none)
  qed
qed

lemma claim_step_open:
  assumes "distinct (map j_id (erasure_jobs (w_db w)))" "claim_step wk now locked w = (Inr cs, w')"
  shows "map j_id (erasure_jobs (w_db w')) = map j_id (erasure_jobs (w_db w))" "finished_ids (w_db w') = finished_ids (w_db w)"
    and "distinct (map c_id cs)" "c_id ` set cs \<subseteq> j_id ` set (erasure_jobs (w_db w)) - finished_ids (w_db w)"
    and "cs = [] \<Longrightarrow> locked = {} \<Longrightarrow> 0 < POLL_BATCH_SIZE wk \<Longrightarrow> \<forall>j\<in>set (erasure_jobs (w_db w')). j_status j \<noteq> Queued"
proof -
  let ?db = "snd (reap_expired_leases now (w_db w))"
  have claim: "claim_batch (WORKER_ID wk) now (LEASE_SECONDS wk) locked (POLL_BATCH_SIZE wk) ?db = (cs, w_db w')"
    using assms(2) by (auto simp: claim_step_def transaction_def io_bind_def execute_def split: prod.splits)
  note reap = reap_open [of now "w_db w"]
  have "distinct (map j_id (erasure_jobs ?db))" using assms(1) by (simp only: reap)
  note c = claim_batch_open [OF this claim]
  have "j_id ` set (erasure_jobs ?db) = j_id ` set (erasure_jobs (w_db w))" using reap(1) by (metis list.set_map)
  with c reap show "map j_id (erasure_jobs (w_db w')) = map j_id (erasure_jobs (w_db w))" "finished_ids (w_db w') = finished_ids (w_db w)"
      "distinct (map c_id cs)" "c_id ` set cs \<subseteq> j_id ` set (erasure_jobs (w_db w)) - finished_ids (w_db w)"
    by (simp_all only:)
  show "cs = [] \<Longrightarrow> locked = {} \<Longrightarrow> 0 < POLL_BATCH_SIZE wk \<Longrightarrow> \<forall>j\<in>set (erasure_jobs (w_db w')). j_status j \<noteq> Queued" by (rule c(5))
qed

lemma process_open:
  fixes wk :: "('f::linorder, 'o, 'g, 't) worker"
  assumes dist: "distinct (map j_id (erasure_jobs (w_db w)))"
    and c: "map j_id (erasure_jobs (w_db w1)) = map j_id (erasure_jobs (w_db w))" "finished_ids (w_db w1) = finished_ids (w_db w)"
      "distinct (map c_id cs)" "c_id ` set cs \<subseteq> j_id ` set (erasure_jobs (w_db w)) - finished_ids (w_db w)"
    and run: "transaction (process_claimed wk later stamp cs) w1 = (Inr (), w')"
  shows "map j_id (erasure_jobs (w_db w')) = map j_id (erasure_jobs (w_db w))"
    and "open_jobs (w_db w') + length cs \<le> open_jobs (w_db w)"
proof -
  let ?ids = "map j_id (erasure_jobs (w_db w))" and ?A = "finished_ids (w_db w)"
  obtain r w2 where w2: "process_claimed wk later stamp cs (w1\<lparr>w_failed := False\<rparr>) = (r, w2)"
    by (cases "process_claimed wk later stamp cs (w1\<lparr>w_failed := False\<rparr>)")
  with run have r: "r = Inr ()" by (auto simp: transaction_def split: sum.splits)
  have start: "live ?ids ?A (w1\<lparr>w_failed := False\<rparr>)"
  proof -
    have "distinct (map j_id (erasure_jobs (w_db w1)))" using c(1) dist by simp
    note fin = finished_by_id [OF _ this]
    have "settled ?ids ?A (w_db w1)"
      unfolding settled_def c(2) [symmetric]
    proof (rule conjI [OF c(1)], intro ballI impI)
      show "finished j" if "j \<in> set (erasure_jobs (w_db w1))" "j_id j \<in> finished_ids (w_db w1)" for j
        by (rule fin [OF that(2,1)])
    qed
    then show ?thesis by (simp add: live_def)
  qed
  have sub: "c_id ` set cs \<subseteq> set ?ids" using c(4) by auto
  have live: "live ?ids (?A \<union> c_id ` set cs) w2"
    by (rule hoareD [OF live_process_claimed [OF sub] start w2 [unfolded r]])
  then have w': "w_db w' = w_db w2" using run w2 r by (simp add: transaction_def live_def)
  have set: "settled ?ids (?A \<union> c_id ` set cs) (w_db w')" using live by (simp add: live_def w')
  then show "map j_id (erasure_jobs (w_db w')) = ?ids" by (simp add: settled_def)
  have n: "card (c_id ` set cs) = length cs" using c(3) distinct_card [OF c(3)] by simp
  have "set ?ids - (?A \<union> c_id ` set cs) = (j_id ` set (erasure_jobs (w_db w)) - ?A) - c_id ` set cs" by auto
  with settled_open [OF set dist] have "open_jobs (w_db w') \<le> card ((j_id ` set (erasure_jobs (w_db w)) - ?A) - c_id ` set cs)" by simp
  also have "\<dots> = card (j_id ` set (erasure_jobs (w_db w)) - ?A) - card (c_id ` set cs)"
    by (rule card_Diff_subset) (use c(4) in auto)
  finally have "open_jobs (w_db w') \<le> open_jobs (w_db w) - length cs" using open_jobs_card [OF dist] n by simp
  moreover have "length cs \<le> open_jobs (w_db w)"
  proof -
    have "card (c_id ` set cs) \<le> card (j_id ` set (erasure_jobs (w_db w)) - ?A)" by (rule card_mono) (use c(4) in auto)
    then show ?thesis using open_jobs_card [OF dist] n by simp
  qed
  ultimately show "open_jobs (w_db w') + length cs \<le> open_jobs (w_db w)" by simp
qed

lemma open_jobs_same:
  assumes "distinct (map j_id (erasure_jobs db))" "map j_id (erasure_jobs db') = map j_id (erasure_jobs db)"
    and "finished_ids db' = finished_ids db"
  shows "open_jobs db' = open_jobs db"
proof -
  have "j_id ` set (erasure_jobs db') = j_id ` set (erasure_jobs db)" using assms(2) by (metis list.set_map)
  then show ?thesis using open_jobs_card [OF assms(1)] open_jobs_card [of db'] assms by simp
qed

lemma run_once_open:
  fixes wk :: "('f::linorder, 'o, 'g, 't) worker"
  assumes "distinct (map j_id (erasure_jobs (w_db w)))" "run_once wk now locked later stamp w = (Inr n, w')"
  shows "map j_id (erasure_jobs (w_db w')) = map j_id (erasure_jobs (w_db w))" "open_jobs (w_db w') + n \<le> open_jobs (w_db w)"
    and "n = 0 \<Longrightarrow> locked = {} \<Longrightarrow> 0 < POLL_BATCH_SIZE wk \<Longrightarrow> \<forall>j\<in>set (erasure_jobs (w_db w')). j_status j \<noteq> Queued"
proof -
  obtain cs w1 where claim: "claim_step wk now locked w = (Inr cs, w1)"
      and rest: "if cs = [] then n = 0 \<and> w' = w1 else n = length cs
        \<and> transaction (process_claimed wk later stamp cs) w1 = (Inr (), w')"
    using assms(2) by (auto simp: run_once_def io_simps split: if_splits)
  note c = claim_step_open [OF assms(1) claim]
  have "map j_id (erasure_jobs (w_db w')) = map j_id (erasure_jobs (w_db w)) \<and> open_jobs (w_db w') + n \<le> open_jobs (w_db w)"
  proof (cases "cs = []")
    case True
    then have "n = 0" "w' = w1" using rest by simp_all
    with c(1) open_jobs_same [OF assms(1) c(1,2)] show ?thesis by simp
  next
    case False
    then have n: "n = length cs" and run: "transaction (process_claimed wk later stamp cs) w1 = (Inr (), w')" using rest by simp_all
    from process_open [OF assms(1) c(1-4) run] show ?thesis by (simp add: n)
  qed
  then show "map j_id (erasure_jobs (w_db w')) = map j_id (erasure_jobs (w_db w))" "open_jobs (w_db w') + n \<le> open_jobs (w_db w)"
    by blast+
  show "\<forall>j\<in>set (erasure_jobs (w_db w')). j_status j \<noteq> Queued" if "n = 0" "locked = {}" "0 < POLL_BATCH_SIZE wk"
  proof -
    have "cs = []" using rest that(1) by (cases "cs = []") auto
    with c(5) [OF this that(2,3)] rest show ?thesis by simp
  qed
qed

section \<open>Property\<close>

text \<open>
  C34 A worker left alone becomes idle. Each cycle that returns closes all the jobs it
  reports, and no finished job opens again. So among any cycles that are more than there
  were open jobs there is one, no later than that number, which claims nothing; when
  nobody else holds a lock, no job waits in the queue at that point.
\<close>

theorem worker_becomes_idle:
  fixes wk :: "('f::linorder, 'o, 'g, 't) worker"
  assumes "distinct (map j_id (erasure_jobs (w_db w)))" "cycles wk ticks w = (Inr ns, w')"
  shows "sum_list ns + open_jobs (w_db w') \<le> open_jobs (w_db w)
     \<and> (open_jobs (w_db w) < length ticks \<and> (\<forall>t\<in>set ticks. fst (snd t) = {}) \<and> 0 < POLL_BATCH_SIZE wk
        \<longrightarrow> (\<exists>i\<le>open_jobs (w_db w). \<exists>ms v. cycles wk (take (Suc i) ticks) w = (Inr ms, v)
              \<and> (\<forall>j\<in>set (erasure_jobs (w_db v)). j_status j \<noteq> Queued)))"
  using assms
proof (induction ticks arbitrary: w ns)
  case Nil
  then show ?case by (simp add: io_return_def)
next
  case (Cons t ticks)
  obtain now locked later stamp where t: "t = (now, locked, later, stamp)" by (metis prod.exhaust)
  from Cons.prems(2) obtain n v ns' where v: "run_once wk now locked later stamp w = (Inr n, v)" "cycles wk ticks v = (Inr ns', w')"
      "ns = n # ns'"
    by (auto simp: t io_simps)
  note one = run_once_open [OF Cons.prems(1) v(1)]
  have dist: "distinct (map j_id (erasure_jobs (w_db v)))" using one(1) Cons.prems(1) by simp
  note IH = Cons.IH [OF dist v(2)]
  have "\<exists>i\<le>open_jobs (w_db w). \<exists>ms u. cycles wk (take (Suc i) (t # ticks)) w = (Inr ms, u)
      \<and> (\<forall>j\<in>set (erasure_jobs (w_db u)). j_status j \<noteq> Queued)"
    if many: "open_jobs (w_db w) < length (t # ticks)" "\<forall>t\<in>set (t # ticks). fst (snd t) = {}" "0 < POLL_BATCH_SIZE wk"
  proof (cases "n = 0")
    case True
    have "\<forall>j\<in>set (erasure_jobs (w_db v)). j_status j \<noteq> Queued" by (rule one(3) [OF True]) (use many(2,3) t in simp_all)
    moreover have "cycles wk (take (Suc 0) (t # ticks)) w = (Inr [n], v)" by (simp add: t io_bind_def v(1) io_return_def)
    ultimately show ?thesis by blast
  next
    case False
    then have "open_jobs (w_db v) < length ticks" using one(2) many(1) by simp
    with IH many(2,3) obtain i ms u where i: "i \<le> open_jobs (w_db v)" "cycles wk (take (Suc i) ticks) v = (Inr ms, u)"
        "\<forall>j\<in>set (erasure_jobs (w_db u)). j_status j \<noteq> Queued"
      by auto
    have "cycles wk (take (Suc (Suc i)) (t # ticks)) w = (Inr (n # ms), u)"
      using i(2) by (simp add: t io_bind_def v(1) io_return_def)
    moreover have "Suc i \<le> open_jobs (w_db w)" using i(1) one(2) False by simp
    ultimately show ?thesis using i(3) by blast
  qed
  moreover have "sum_list ns + open_jobs (w_db w') \<le> open_jobs (w_db w)" using IH one(2) v(3) by simp
  ultimately show ?case by blast
qed

text \<open>The deployment with one queued job: the first cycle closes it, the second finds nothing.\<close>

definition queued_world :: "(int, int) world" where
  "queued_world = small_world\<lparr>w_db := (w_db small_world)\<lparr>erasure_jobs := [small_new_job]\<rparr>\<rparr>"

lemma small_cycles:
  "\<exists>w'. cycles small_worker [(0, {}, 1, \<lambda>_. ([], [])), (2, {}, 3, \<lambda>_. ([], []))] queued_world = (Inr [1, 0], w')"
proof -
  let ?j2 = "lease_job ''w'' 30 small_new_job"
  let ?w2 = "small_world\<lparr>w_db := (w_db small_world)\<lparr>erasure_jobs := [?j2]\<rparr>, w_failed := False\<rparr>"
  have claim: "claim_step small_worker 0 {} queued_world = (Inr [small_claim], ?w2)"
    by (simp add: claim_step_def transaction_def io_bind_def execute_def small_world_def reap_expired_leases_def expired_def
        small_new_job_def new_job_def claim_batch_def Let_def claimable_def lease_job_def small_worker_def small_claim_def queued_world_def)
  obtain w3 where w3: "transaction (process_claimed small_worker 1 (\<lambda>_. ([], [])) [small_claim]) ?w2 = (Inr (), w3)"
      "erasure_jobs (w_db w3) = [?j2\<lparr>j_status := Done, j_completed := Some 1, j_worker := None, j_lease := None\<rparr>]"
    using small_process [of ?w2 ?j2 1] by (auto simp: small_world_def small_new_job_def new_job_def lease_job_def)
  have "\<exists>w4. claim_step small_worker 2 {} w3 = (Inr [], w4)"
    by (simp add: claim_step_def transaction_def io_bind_def execute_def reap_expired_leases_def expired_def
        claim_batch_def Let_def claimable_def w3(2) lease_job_def)
  then obtain w4 where "claim_step small_worker 2 {} w3 = (Inr [], w4)" by blast
  with claim w3(1) show ?thesis by (simp add: run_once_def io_bind_def io_return_def)
qed

theorem worker_becomes_idle_witness:
  "\<exists>i\<le>1. \<exists>ms v. cycles small_worker (take (Suc i) [(0, {}, 1, \<lambda>_. ([], [])), (2, {}, 3, \<lambda>_. ([], []))]) queued_world = (Inr ms, v)
     \<and> (\<forall>j\<in>set (erasure_jobs (w_db v)). j_status j \<noteq> Queued)"
proof -
  obtain w' where run: "cycles small_worker [(0, {}, 1, \<lambda>_. ([], [])), (2, {}, 3, \<lambda>_. ([], []))] queued_world = (Inr [1, 0], w')"
    using small_cycles by blast
  have "distinct (map j_id (erasure_jobs (w_db queued_world)))" "open_jobs (w_db queued_world) = 1" "0 < POLL_BATCH_SIZE small_worker"
    by (simp_all add: queued_world_def open_jobs_def finished_def small_new_job_def new_job_def small_worker_def)
  with worker_becomes_idle [OF _ run] show ?thesis by simp
qed

end
