(* ===== verification/Dashboard.thy ===== *)
theory Dashboard
  imports Drain "HOL-Library.Multiset"
begin

text \<open>
  \<open>dashboard/app.py\<close>, the operators' console: queries over the tables, the live check of a
  certificate, and the button that asks the gateway for an erasure. Every query has its own
  autocommit connection, so a handler with several queries sees the tables at several moments.
\<close>

section \<open>Queries\<close>

text \<open>
  The settings, how Postgres and the gateway's HTTP server read texts, and the orders in
  which Postgres returns rows when \<open>ORDER BY\<close> leaves a choice.
\<close>

record console =
  PUBLIC_KEY :: string
  DASHBOARD_GATEWAY_TOKEN :: string
  cs_uuid :: "string \<Rightarrow> string option"
  cs_header :: "string \<Rightarrow> string option"
  cs_groups :: "((nat \<times> job_status) \<times> nat) list \<Rightarrow> ((nat \<times> job_status) \<times> nat) list"
  cs_jobs :: "job list \<Rightarrow> job list"
  cs_manifests :: "manifest_row list \<Rightarrow> manifest_row list"
  cs_evals :: "eval_row list \<Rightarrow> eval_row list"
  cs_version :: "version_row list \<Rightarrow> version_row"

text \<open>\<open>SELECT key, count(*) ... GROUP BY key\<close>\<close>

definition count_by :: "('r \<Rightarrow> 'k) \<Rightarrow> 'r list \<Rightarrow> ('k \<times> nat) list" where
  "count_by key rows = map (\<lambda>k. (k, length (filter (\<lambda>r. key r = k) rows))) (remdups (map key rows))"

record current_row =
  cur_version :: string
  cur_promoted :: int
  cur_eval :: "(rat \<times> nat) option"

record overview =
  ov_counts :: "(job_status \<times> nat) list"
  ov_by_shard :: "((nat \<times> job_status) \<times> nat) list"
  ov_current :: "current_row option"
  ov_history :: "eval_row list"
  ov_drift :: nat
  ov_subjects :: nat

text \<open>The newest version with its score: \<open>LEFT JOIN eval_results USING (model_version)\<close>.\<close>

definition current_of :: "console \<Rightarrow> db \<Rightarrow> current_row option" where
  "current_of cs db =
     map_option (\<lambda>v. \<lparr>cur_version = v_name v, cur_promoted = v_promoted v,
         cur_eval = map_option (\<lambda>e. (e_auc e, e_n e)) (List.find (\<lambda>e. e_version e = v_name v) (eval_results db))\<rparr>)
       (newest (cs_version cs) v_promoted (model_versions db))"

definition overview_page :: "console \<Rightarrow> (nat \<Rightarrow> db) \<Rightarrow> overview" where
  "overview_page cs seen =
     (let counts = count_by j_status (erasure_jobs (seen 0)) in
      \<lparr>ov_counts = map (\<lambda>s. (s, case map_of counts s of Some n \<Rightarrow> n | None \<Rightarrow> 0)) [Queued, Processing, Done, Failed],
       ov_by_shard = sort_key (\<lambda>g. fst (fst g)) (cs_groups cs (count_by (\<lambda>j. (j_shard j, j_status j)) (erasure_jobs (seen 1)))),
       ov_current = current_of cs (seen 2),
       ov_history = sort_key e_computed (cs_evals cs (eval_results (seen 3))),
       ov_drift = length (filter (\<lambda>r. \<not> r_matched r) (reproducibility_checks (seen 4))),
       ov_subjects = length (subject_shard_map (seen 5))\<rparr>)"

section \<open>Lists of jobs and certificates\<close>

text \<open>
  Hours left, in tenths: \<open>round(seconds / 3600, 1)\<close>. The quotient of two integers is rounded
  to 53 significant bits, and \<open>round\<close> takes the even tenth of a tie.
\<close>

definition half_even :: "rat \<Rightarrow> int" where
  "half_even x = (let f = floor x; r = x - of_int f in if r < 1 / 2 then f else if 1 / 2 < r then f + 1 else if even f then f else f + 1)"

definition quotient :: "nat \<Rightarrow> nat \<Rightarrow> rat" where
  "quotient n d =
     (let s = 53 + int (bitlen d) - int (bitlen n); x = of_nat n / of_nat d :: rat;
          scale = (\<lambda>e. if 0 \<le> e then 2 ^ nat e else 1 / 2 ^ nat (- e));
          t = (if x * scale s < 2 ^ 53 then s else s - 1)
      in of_int (half_even (x * scale t)) / scale t)"

definition hours_remaining :: "int \<Rightarrow> int" where
  "hours_remaining seconds = sgn seconds * half_even (10 * quotient (nat \<bar>seconds\<bar>) 3600)"

record failed_row =
  fj_id :: string
  fj_ref :: string
  fj_shard :: nat
  fj_reason :: string
  fj_attempts :: nat
  fj_error :: "job_error option"

record pending_row = failed_row +
  pj_status :: job_status
  pj_deadline :: int
  pj_created :: int
  pj_hours :: int

definition pending_row_of :: "int \<Rightarrow> job \<Rightarrow> pending_row" where
  "pending_row_of now j =
     \<lparr>fj_id = j_id j, fj_ref = j_ref j, fj_shard = j_shard j, fj_reason = j_reason j, fj_attempts = j_attempts j,
      fj_error = j_error j, pj_status = j_status j, pj_deadline = j_deadline j, pj_created = j_created j,
      pj_hours = hours_remaining (j_deadline j - now)\<rparr>"

definition pending_page :: "console \<Rightarrow> int \<Rightarrow> db \<Rightarrow> pending_row list" where
  "pending_page cs now db =
     map (pending_row_of now)
       (take 100 (sort_key j_deadline (cs_jobs cs (filter (\<lambda>j. j_status j = Queued \<or> j_status j = Processing) (erasure_jobs db)))))"

text \<open>\<open>ORDER BY completed_at DESC NULLS LAST\<close>\<close>

definition by_completion :: "job list \<Rightarrow> job list" where
  "by_completion js =
     sort_key (\<lambda>j. - the (j_completed j)) (filter (\<lambda>j. j_completed j \<noteq> None) js) @ filter (\<lambda>j. j_completed j = None) js"

definition failed_page :: "console \<Rightarrow> db \<Rightarrow> (failed_row \<times> int option) list" where
  "failed_page cs db =
     map (\<lambda>j. (\<lparr>fj_id = j_id j, fj_ref = j_ref j, fj_shard = j_shard j, fj_reason = j_reason j, fj_attempts = j_attempts j,
                 fj_error = j_error j\<rparr>, j_completed j))
       (take 50 (by_completion (cs_jobs cs (filter (\<lambda>j. j_status j = Failed) (erasure_jobs db)))))"

definition certificates_page :: "console \<Rightarrow> db \<Rightarrow> (string \<times> pyval option \<times> pyval option \<times> int) list" where
  "certificates_page cs db =
     map (\<lambda>m. (m_id m, map_of (m_columns m) ''shard'', map_of (m_columns m) ''model_version'', m_created m))
       (take 200 (sort_key (\<lambda>m. - m_created m) (cs_manifests cs (erasure_manifests db))))"

text \<open>
  One certificate with the verdict of the verifier. \<open>manifest_json\<close> is a JSON object, so
  \<open>dict(manifest)\<close> copies it.
\<close>

definition certificate ::
  "(bytes \<Rightarrow> bytes \<Rightarrow> bytes \<Rightarrow> bool) \<Rightarrow> console \<Rightarrow> string \<Rightarrow> db \<Rightarrow> (pyval \<times> bool \<times> finding list) answer res" where
  "certificate ed_verify cs erasure_id db =
     (case cs_uuid cs erasure_id of
        None \<Rightarrow> Inl DatabaseError
      | Some i \<Rightarrow>
          case List.find (\<lambda>m. m_id m = i) (erasure_manifests db) of
            None \<Rightarrow> Inr (HTTPException 404)
          | Some m \<Rightarrow>
              bind_res (load_public_key (PUBLIC_KEY cs)) (\<lambda>public_key.
              bind_res (verify_certificate ed_verify (m_json m) public_key) (\<lambda>(ok, findings).
              Inr (Answer (m_json m, ok, findings)))))"

section \<open>The button\<close>

text \<open>
  \<open>http.client\<close> refuses a header value with a line break that does not continue the line. The
  request reaches the gateway or not; when the reply is late, the gateway has done its work.
\<close>

fun illegal_header :: "string \<Rightarrow> bool" where
  "illegal_header [] = False"
| "illegal_header (c # s) =
     (c = CHR 0x0A \<and> (s = [] \<or> hd s \<notin> {CHR 0x20, CHR 0x09})
      \<or> c = CHR 0x0D \<and> (s = [] \<or> hd s \<notin> {CHR 0x20, CHR 0x09, CHR 0x0A})
      \<or> illegal_header s)"

datatype delivery = Delivered | Unreachable | Reply_Late

definition ops_key :: "string \<Rightarrow> string \<Rightarrow> string" where
  "ops_key subject_id stamp = ''ops-'' @ subject_id @ ''-'' @ stamp"

text \<open>
  \<open>stamp\<close> is the text of the console's clock. An error code of the gateway is passed on, an
  internal error of it arrives as 500, and a late reply raises past the handlers.
\<close>

definition force_rebuild ::
  "console \<Rightarrow> ('f, 'o, 'g, 't) gateway \<Rightarrow> delivery \<Rightarrow> int \<Rightarrow> int \<Rightarrow> string \<Rightarrow> string \<Rightarrow> string \<Rightarrow> string
    \<Rightarrow> (('f, 't) world, accepted answer) io" where
  "force_rebuild cs gw line now clock new_id stamp subject_id reason =
     (if strip_ws subject_id = [] then io_return (HTTPException 400)
      else if illegal_header (''Bearer '' @ DASHBOARD_GATEWAY_TOKEN cs) \<or> illegal_header (ops_key subject_id stamp)
      then io_lift (Inl ValueError)
      else if line = Unreachable then io_return (HTTPException 502)
      else
        io_bind (case cs_header cs (ops_key subject_id stamp) of
            None \<Rightarrow> io_return (Inr (HTTPException 400))
          | Some key \<Rightarrow> io_attempt (create_erasure gw now clock new_id (Some (DASHBOARD_GATEWAY_TOKEN cs)) (Some key) subject_id reason)) (\<lambda>reply.
        if line = Reply_Late then io_lift (Inl OtherError)
        else io_return (case reply of Inl e \<Rightarrow> HTTPException 500 | Inr a \<Rightarrow> a)))"

section \<open>Counting\<close>

lemma map_of_count_by:
  "map_of (count_by key rows) k = (if k \<in> key ` set rows then Some (length (filter (\<lambda>r. key r = k) rows)) else None)"
proof -
  have "map_of (map (\<lambda>k. (k, f k)) ks) k = (if k \<in> set ks then Some (f k) else None)" for ks and f :: "'a \<Rightarrow> nat"
    by (induction ks) auto
  then show ?thesis by (simp add: count_by_def)
qed

lemma distinct_count_by [simp]: "distinct (map fst (count_by key rows))"
  by (simp add: count_by_def comp_def)

lemma count_by_total: "sum_list (map snd (count_by key rows)) = length rows"
proof -
  have "length rows = (\<Sum>k\<in>key ` set rows. length (filter (\<lambda>r. key r = k) rows))"
  proof (induction rows)
    case (Cons r rows)
    have "(\<Sum>k\<in>insert (key r) (key ` set rows). length (filter (\<lambda>q. key q = k) (r # rows)))
        = (\<Sum>k\<in>insert (key r) (key ` set rows). (if k = key r then 1 else 0) + length (filter (\<lambda>q. key q = k) rows))"
      by (rule sum.cong) auto
    also have "\<dots> = 1 + (\<Sum>k\<in>insert (key r) (key ` set rows). length (filter (\<lambda>q. key q = k) rows))"
      by (simp add: sum.distrib)
    also have "(\<Sum>k\<in>insert (key r) (key ` set rows). length (filter (\<lambda>q. key q = k) rows))
        = (\<Sum>k\<in>key ` set rows. length (filter (\<lambda>q. key q = k) rows))"
    proof (cases "key r \<in> key ` set rows")
      case False
      then have "key q \<noteq> key r" if "q \<in> set rows" for q using that by (metis image_eqI)
      then have "filter (\<lambda>q. key q = key r) rows = []" by (simp add: filter_empty_conv)
      with False show ?thesis by simp
    qed (simp add: insert_absorb)
    finally show ?case using Cons.IH by simp
  qed simp
  then show ?thesis by (simp add: count_by_def comp_def sum_list_distinct_conv_sum_set)
qed

lemma set_count_by:
  "(k, n) \<in> set (count_by key rows) \<longleftrightarrow> n = length (filter (\<lambda>r. key r = k) rows) \<and> n \<noteq> 0"
  by (auto simp: count_by_def filter_empty_conv)

lemma status_total:
  "length (filter (\<lambda>j. j_status j = Queued) js) + (length (filter (\<lambda>j. j_status j = Processing) js)
     + (length (filter (\<lambda>j. j_status j = Done) js) + length (filter (\<lambda>j. j_status j = Failed) js))) = length js"
proof (induction js)
  case (Cons j js)
  then show ?case by (cases "j_status j") simp_all
qed simp

section \<open>Properties\<close>

text \<open>
  The overview adds up. Each query sees the tables at its own moment: the four counts are
  those of the jobs at the first one and sum to their number; the table by shard lists at the
  second one each shard and status with a job exactly once, in the order of the shards, with
  its number of jobs, and sums to their number too.
\<close>

theorem overview_adds_up:
  assumes "\<forall>gs. mset (cs_groups cs gs) = mset gs"
  shows "(\<forall>s. map_of (ov_counts (overview_page cs seen)) s = Some (length (filter (\<lambda>j. j_status j = s) (erasure_jobs (seen 0)))))
     \<and> sum_list (map snd (ov_counts (overview_page cs seen))) = length (erasure_jobs (seen 0))
     \<and> sorted (map (fst \<circ> fst) (ov_by_shard (overview_page cs seen))) \<and> distinct (map fst (ov_by_shard (overview_page cs seen)))
     \<and> (\<forall>k s n. ((k, s), n) \<in> set (ov_by_shard (overview_page cs seen))
          \<longleftrightarrow> n = length (filter (\<lambda>j. (j_shard j, j_status j) = (k, s)) (erasure_jobs (seen 1))) \<and> n \<noteq> 0)
     \<and> sum_list (map snd (ov_by_shard (overview_page cs seen))) = length (erasure_jobs (seen 1))"
proof -
  let ?o = "overview_page cs seen" and ?js = "erasure_jobs (seen 0)"
  let ?g = "count_by (\<lambda>j. (j_shard j, j_status j)) (erasure_jobs (seen 1))"
  have count: "(case map_of (count_by j_status ?js) s of Some n \<Rightarrow> n | None \<Rightarrow> 0) = length (filter (\<lambda>j. j_status j = s) ?js)" for s
    by (auto simp: map_of_count_by filter_empty_conv image_iff)
  have ov: "ov_counts ?o = map (\<lambda>s. (s, length (filter (\<lambda>j. j_status j = s) ?js))) [Queued, Processing, Done, Failed]"
    by (simp only: overview_page_def Let_def overview.simps count)
  have "map_of (ov_counts ?o) s = Some (length (filter (\<lambda>j. j_status j = s) ?js))" for s
    by (cases s) (simp_all add: ov)
  moreover have "sum_list (map snd (ov_counts ?o)) = length ?js" using status_total [of ?js] by (simp add: ov)
  moreover have "mset (ov_by_shard ?o) = mset ?g" using assms by (simp add: overview_page_def Let_def)
  then have "set (ov_by_shard ?o) = set ?g" "mset (map fst (ov_by_shard ?o)) = mset (map fst ?g)"
      "mset (map snd (ov_by_shard ?o)) = mset (map snd ?g)"
    by (auto dest: mset_eq_setD simp del: set_mset_mset)
  moreover from this(2) have "distinct (map fst (ov_by_shard ?o))" using distinct_count_by mset_eq_imp_distinct_iff by blast
  moreover from \<open>mset (map snd (ov_by_shard ?o)) = mset (map snd ?g)\<close>
  have "sum_list (map snd (ov_by_shard ?o)) = sum_list (map snd ?g)" by (metis sum_mset_sum_list)
  moreover have "sorted (map (fst \<circ> fst) (ov_by_shard ?o))" by (simp add: overview_page_def Let_def comp_def)
  ultimately show ?thesis by (simp add: set_count_by count_by_total del: mset_map)
qed

definition small_console :: console where
  "small_console = \<lparr>PUBLIC_KEY = to_hex (replicate 32 9), DASHBOARD_GATEWAY_TOKEN = ''dev-token'', cs_uuid = Some, cs_header = Some,
     cs_groups = (\<lambda>gs. gs), cs_jobs = (\<lambda>js. js), cs_manifests = (\<lambda>ms. ms), cs_evals = (\<lambda>es. es), cs_version = hd\<rparr>"

theorem overview_adds_up_witness:
  "sum_list (map snd (ov_counts (overview_page small_console (\<lambda>_. w_db queued_world)))) = 1"
proof -
  have "\<forall>gs. mset (cs_groups small_console gs) = mset gs" by (simp add: small_console_def)
  from overview_adds_up [OF this, of "\<lambda>_. w_db queued_world"] show ?thesis by (simp add: queued_world_def)
qed

text \<open>
  The most urgent jobs are shown. The list of pending jobs has at most 100 open jobs, by
  deadline; an open job that it leaves out is due no earlier than any it shows, and none is
  left out while there is room.
\<close>

theorem pending_most_urgent:
  assumes "\<forall>js. mset (cs_jobs cs js) = mset js"
  defines "open_at \<equiv> \<lambda>db. filter (\<lambda>j. j_status j = Queued \<or> j_status j = Processing) (erasure_jobs db)"
  shows "length (pending_page cs now db) = min 100 (length (open_at db))
     \<and> sorted (map pj_deadline (pending_page cs now db))
     \<and> (\<forall>p\<in>set (pending_page cs now db). \<exists>j\<in>set (open_at db). p = pending_row_of now j)
     \<and> (\<forall>j\<in>set (open_at db). pending_row_of now j \<in> set (pending_page cs now db)
          \<or> length (pending_page cs now db) = 100 \<and> (\<forall>p\<in>set (pending_page cs now db). pj_deadline p \<le> j_deadline j))"
proof -
  let ?js = "sort_key j_deadline (cs_jobs cs (open_at db))"
  have page: "pending_page cs now db = map (pending_row_of now) (take 100 ?js)"
    by (simp add: pending_page_def open_at_def)
  have m: "mset ?js = mset (open_at db)" using assms(1) by simp
  then have s: "set ?js = set (open_at db)" "length ?js = length (open_at db)" by (metis mset_eq_setD, metis size_mset)
  have sorted: "sorted (map j_deadline ?js)" by simp
  have "map pj_deadline (pending_page cs now db) = map j_deadline (take 100 ?js)"
    by (simp add: page pending_row_of_def comp_def)
  then have "sorted (map pj_deadline (pending_page cs now db))"
    using sorted by (simp only: take_map [symmetric] sorted_wrt_take)
  moreover have "length (pending_page cs now db) = min 100 (length (open_at db))" using s(2) by (simp add: page min.commute)
  moreover have "\<exists>j\<in>set (open_at db). p = pending_row_of now j" if "p \<in> set (pending_page cs now db)" for p
  proof -
    from that obtain j where "j \<in> set (take 100 ?js)" "p = pending_row_of now j" by (auto simp: page)
    then show ?thesis using in_set_takeD [of j 100 ?js] s(1) by blast
  qed
  moreover have "pending_row_of now j \<in> set (pending_page cs now db)
      \<or> length (pending_page cs now db) = 100 \<and> (\<forall>p\<in>set (pending_page cs now db). pj_deadline p \<le> j_deadline j)"
    if "j \<in> set (open_at db)" for j
  proof (cases "j \<in> set (take 100 ?js)")
    case False
    have split: "?js = take 100 ?js @ drop 100 ?js" by simp
    from that s(1) False have late: "j \<in> set (drop 100 ?js)" by (metis Un_iff append_take_drop_id set_append)
    then have "100 < length ?js" using drop_eq_Nil by fastforce
    moreover have "sorted (map j_deadline (take 100 ?js) @ map j_deadline (drop 100 ?js))"
      using sorted unfolding map_append [symmetric] append_take_drop_id .
    then have "\<forall>x\<in>set (take 100 ?js). j_deadline x \<le> j_deadline j" using late by (auto simp: sorted_append)
    ultimately show ?thesis by (auto simp: page pending_row_of_def)
  qed (simp add: page)
  ultimately show ?thesis by blast
qed

theorem pending_most_urgent_witness:
  "length (pending_page small_console 0 (w_db queued_world)) = 1"
proof -
  have "\<forall>js. mset (cs_jobs small_console js) = mset js" by (simp add: small_console_def)
  from pending_most_urgent [OF this, of 0 "w_db queued_world"] show ?thesis by (simp add: queued_world_def small_new_job_def new_job_def)
qed

section \<open>The verdict\<close>

lemma verify_certificate_refuses:
  assumes "missing_fields (PDict d) = Inr []" "map_of d (KStr ''signature'') = Some (PStr (to_hex x))" "x \<noteq> []"
    and "\<not> signature_ok ed_verify pk (PDict (filter (\<lambda>p. fst p \<noteq> KStr ''signature'') d)) (PStr (to_hex x))"
  shows "verify_certificate ed_verify (PDict d) pk = Inr (False, [Signature_Invalid])"
  using assms by (simp add: verify_certificate_def)

text \<open>A manifest of a rebuild, once it has been stored and read back.\<close>

lemma stored_verdict:
  assumes "issued ref m" "verify_certificate ed_verify (PDict m) pk = Inr (True, fs0)"
  shows "\<exists>sibs b b2 sg ok fs. getitem (PDict m) ''absence_proof'' = Inr (proof_of_siblings sibs) \<and> ed_verify pk b sg
     \<and> verify_certificate ed_verify (reload (PDict m)) pk = Inr (ok, fs) \<and> (ok \<longleftrightarrow> ed_verify pk b2 sg)
     \<and> (b2 = b \<longleftrightarrow> sorted (depth_texts sibs))"
proof -
  from assms(1) obtain k rf root sibs cd cfg w mv pa ca x where
      m: "m = manifest_build ref k rf root (proof_of_siblings sibs) cd cfg w mv pa ca @ [(KStr ''signature'', PStr (to_hex x))]"
    and sibs: "sorted_wrt (<) (map fst sibs)"
    unfolding issued_def by blast
  let ?m = "manifest_build ref k rf root (proof_of_siblings sibs) cd cfg w mv pa ca"
  obtain b where b: "canonical_bytes (PDict ?m) = Inr b" using canonical_manifest_ok by blast
  have wf: "wf_val (PDict ?m)" unfolding wf_manifest by (rule wf_proof [OF sibs])
  obtain b2 where b2: "canonical_bytes (reload (PDict ?m)) = Inr b2"
  proof -
    from b obtain s where "missing_fields (PDict ?m) = Inr []" "dumps (PDict ?m) = Inr s" by (auto simp: canonical_bytes_eq)
    moreover from reload_dumps_ok [OF wf this(2)] obtain t where "dumps (reload (PDict ?m)) = Inr t" by blast
    ultimately have "canonical_bytes (reload (PDict ?m)) = Inr (encode_ascii t)"
      using missing_fields_reload [OF str_dict_manifest] by (simp add: canonical_bytes_eq del: reload.simps)
    then show thesis by (rule that)
  qed
  have same: "b2 = b \<longleftrightarrow> sorted (depth_texts sibs)"
    using canonical_reload [OF str_dict_manifest wf b] b2 stable_proof [OF sibs] unfolding stable_manifest by simp
  have acc: "certificate_accepts (PStr ref) (proof_of_siblings sibs) (PStr root) = Inr True"
    and sg: "signature_ok ed_verify pk (PDict ?m) (PStr (to_hex x))"
  proof -
    from assms(2) obtain d where d: "PDict m = PDict d"
        "signature_ok ed_verify pk (PDict (filter (\<lambda>p. fst p \<noteq> KStr ''signature'') d))
           (case map_of d (KStr ''signature'') of Some v \<Rightarrow> v | None \<Rightarrow> PNone)"
        "\<And>subject pf root. getitem (PDict m) ''subject_ref'' = Inr subject
           \<Longrightarrow> getitem (PDict m) ''absence_proof'' = Inr pf \<Longrightarrow> getitem (PDict m) ''dataset_root'' = Inr root
           \<Longrightarrow> certificate_accepts subject pf root = Inr True"
      by (rule verify_certificate_accepts) blast
    show "certificate_accepts (PStr ref) (proof_of_siblings sibs) (PStr root) = Inr True"
      by (rule d(3)) (simp_all add: m manifest_fields del: getitem.simps)
    have "map_of m (KStr ''signature'') = Some (PStr (to_hex x))" by (simp add: m manifest_build_def)
    moreover have "filter (\<lambda>p. fst p \<noteq> KStr ''signature'') m = ?m" unfolding m filter_signature ..
    ultimately show "signature_ok ed_verify pk (PDict ?m) (PStr (to_hex x))" using d(1,2) by auto
  qed
  have "x \<noteq> []"
  proof
    assume "x = []"
    then have "map_of m (KStr ''signature'') = Some (PStr [])" "missing_fields (PDict m) = Inr []"
      by (simp add: m manifest_build_def, simp only: m missing_manifest)
    with assms(2) show False by (simp add: verify_certificate_def)
  qed
  have ed: "ed_verify pk b x" using sg signature_ok_eq [OF b] by blast
  have added: "m = add_signature ?m (to_hex x)" by (simp only: m add_signature_manifest)
  note iff = reloaded_certificate [OF refl b \<open>x \<noteq> []\<close> refl sibs acc b2, of ed_verify pk, folded added]
  have sd: "str_dict m" by (simp add: m str_dict_def manifest_build_def)
  have refused: "verify_certificate ed_verify (reload (PDict m)) pk = Inr (False, [Signature_Invalid])" if "\<not> ed_verify pk b2 x"
  proof -
    let ?d = "map (\<lambda>p. (fst p, reload (snd p))) (sort_key fst m)"
    have d: "reload (PDict m) = PDict ?d" by (rule str_dict_reload [OF sd])
    have "PDict (filter (\<lambda>p. fst p \<noteq> KStr ''signature'') ?d) = reload (PDict ?m)"
      using filter_reload [OF sd, of "KStr ''signature''"] unfolding m filter_signature by simp
    then have "\<not> signature_ok ed_verify pk (PDict (filter (\<lambda>p. fst p \<noteq> KStr ''signature'') ?d)) (PStr (to_hex x))"
      using signature_ok_eq [OF b2] that by simp
    moreover have "missing_fields (PDict ?d) = Inr []"
      unfolding d [symmetric] missing_fields_reload [OF sd] unfolding m by (rule missing_manifest)
    moreover have "map_of ?d (KStr ''signature'') = Some (PStr (to_hex x))"
      using map_of_str_reload [OF sd, of "KStr ''signature''"] by (simp add: m manifest_build_def)
    ultimately show ?thesis unfolding d using \<open>x \<noteq> []\<close> by (intro verify_certificate_refuses)
  qed
  obtain ok fs where ver: "verify_certificate ed_verify (reload (PDict m)) pk = Inr (ok, fs)" "ok \<longleftrightarrow> ed_verify pk b2 x"
    using iff refused by (cases "ed_verify pk b2 x") blast+
  moreover have "getitem (PDict m) ''absence_proof'' = Inr (proof_of_siblings sibs)" by (simp add: m manifest_fields del: getitem.simps)
  ultimately show ?thesis using ed ver same by blast
qed

text \<open>
  C36 The verdict of the console. For a certificate that a rebuild issued, the console shows the
  stored manifest and a verdict without raising. The rebuild signed some bytes \<open>b\<close>; the
  console checks the signature over bytes \<open>b2\<close>, which are the same exactly when the depths of
  the proof keep their order as decimal texts. Otherwise the genuine certificate is shown as
  verified only if its signature also verifies for different bytes.
\<close>

theorem console_verdict:
  assumes "files_ok X d" "active_rebuild rt pa ca refs d = (Inr r, d')" "signs rt ed_verify pk" "ref \<in> set refs"
    and "map_of (manifests r) ref = Some m" "manifest_row_of now i m = Inr row"
    and "cs_uuid cs erasure_id = Some i" "List.find (\<lambda>q. m_id q = i) (erasure_manifests db) = Some row"
    and "load_public_key (PUBLIC_KEY cs) = Inr pk"
  shows "\<exists>sibs b b2 sg ok fs. certificate ed_verify cs erasure_id db = Inr (Answer (m_json row, ok, fs))
     \<and> getitem (PDict m) ''absence_proof'' = Inr (proof_of_siblings sibs)
     \<and> ed_verify pk b sg \<and> (ok \<longleftrightarrow> ed_verify pk b2 sg) \<and> (b2 = b \<longleftrightarrow> sorted (depth_texts sibs))"
proof -
  from active_issued [OF assms(1,2,4)] assms(5) have "issued ref m" by simp
  moreover from active_certifies [OF assms(1-4)] assms(5) obtain fs0 where "verify_certificate ed_verify (PDict m) pk = Inr (True, fs0)"
    by (auto simp: certifies_def)
  ultimately obtain sibs b b2 sg ok fs where v: "getitem (PDict m) ''absence_proof'' = Inr (proof_of_siblings sibs)" "ed_verify pk b sg"
      "verify_certificate ed_verify (reload (PDict m)) pk = Inr (ok, fs)" "ok \<longleftrightarrow> ed_verify pk b2 sg"
      "b2 = b \<longleftrightarrow> sorted (depth_texts sibs)"
    using stored_verdict by blast
  have "m_json row = reload (PDict m)" using assms(6) by (auto simp: manifest_row_of_def res_simps)
  with v(3) assms(7-9) have "certificate ed_verify cs erasure_id db = Inr (Answer (m_json row, ok, fs))"
    by (simp add: certificate_def del: reload.simps)
  with v show ?thesis by blast
qed

theorem console_verdict_witness:
  "\<exists>r d' m row fs. active_rebuild (small_runtime ENGINE_GBDT) [] [] [erin] (small_disk 3) = (Inr r, d')
     \<and> map_of (manifests r) erin = Some m \<and> manifest_row_of 7 ''e'' m = Inr row
     \<and> certificate (\<lambda>pk b s. s = pk) small_console ''e'' ((w_db small_world)\<lparr>erasure_manifests := [row]\<rparr>) = Inr (Answer (m_json row, True, fs))"
proof -
  obtain r d' where run: "active_rebuild (small_runtime ENGINE_GBDT) [] [] [erin] (small_disk 3) = (Inr r, d')"
    using small_active by blast
  have ok: "files_ok {} (small_disk 3)" using small_disk_ok by (simp add: files_ok_def gone_def)
  from active_issued [OF ok run, of erin] obtain m where m: "map_of (manifests r) erin = Some m" "issued erin m" by auto
  from issued_row [OF m(2)] obtain row where row: "manifest_row_of 7 ''e'' m = Inr row" by blast
  then have i: "m_id row = ''e''" by (auto simp: manifest_row_of_def res_simps)
  let ?db = "(w_db small_world)\<lparr>erasure_manifests := [row]\<rparr>"
  have "cs_uuid small_console ''e'' = Some ''e''" "List.find (\<lambda>q. m_id q = ''e'') (erasure_manifests ?db) = Some row"
      "load_public_key (PUBLIC_KEY small_console) = Inr (replicate 32 9)"
    using i by (simp_all add: small_console_def load_public_key_hex)
  from console_verdict [OF ok run small_signs _ m(1) row this] obtain ok fs where
      "certificate (\<lambda>pk b s. s = pk) small_console ''e'' ?db = Inr (Answer (m_json row, ok, fs))" ok
    by auto
  with run m(1) row show ?thesis by auto
qed

section \<open>The button twice\<close>

lemma create_two:
  assumes "db_ok (w_db w)" "allowed gw ''erasure:write'' creds p" "text_param p = Inr caller" "reason \<in> set reasons"
    and "map_of (subject_shard_map (w_db w)) (ref_of gw subject_id) = Some en"
    and "job_with_key caller key (erasure_jobs (w_db w)) = None" "i \<notin> j_id ` set (erasure_jobs (w_db w))"
  shows "create_erasure gw now clock i creds (Some key) subject_id reason w
     = (Inr (Answer \<lparr>a_id = i, a_deadline = clock + 3600 * SLA_HOURS gw\<rparr>), w\<lparr>w_db := (w_db w)\<lparr>erasure_jobs := erasure_jobs (w_db w)
         @ [new_job i (ref_of gw subject_id) reason (e_shard en) key (clock + 3600 * SLA_HOURS gw) caller now]\<rparr>, w_failed := False\<rparr>)"
proof -
  let ?j = "new_job i (ref_of gw subject_id) reason (e_shard en) key (clock + 3600 * SLA_HOURS gw) caller now"
  have "insert_or_get i now (ref_of gw subject_id) reason (e_shard en) key (clock + 3600 * SLA_HOURS gw) caller (w_db w)
      = Inr ((i, True), (w_db w)\<lparr>erasure_jobs := erasure_jobs (w_db w) @ [?j]\<rparr>)"
    using assms(4,6,7) by (simp add: insert_or_get_def insert_row_def new_job_def)
  from create_erasure_run [OF assms(2-4,1,5) this, of ?j] show ?thesis by (simp add: new_job_def)
qed

lemma rebuild_distinct:
  assumes "active_rebuild rt pa ca refs d = (Inr r, d')"
  shows "distinct refs"
proof (cases "rt_engine rt")
  case ENGINE_MLP
  with assms show ?thesis by (auto simp: active_mlp rebuild_iff mlp_plan_def dest: routing_pops_dest)
next
  case ENGINE_GBDT
  with assms show ?thesis by (auto simp: active_gbdt gbdt_rebuild_iff gbdt_plan_def dest: routing_pops_dest)
qed

lemma process_twice:
  fixes wk :: "('f::linorder, 'o, 'g, 't) worker"
  assumes "c_shard c = c_shard c'" "c_ref c = c_ref c'"
  shows "\<exists>w' e. transaction (process_claimed wk now stamp [c, c']) w = (Inr (), w')
     \<and> w_db w' = set_failed (Rebuild_Failed e) {c_id c, c_id c'} (w_db w)"
proof -
  let ?m = "active_rebuild (wk_rt wk) (fst (stamp (c_shard c'))) (snd (stamp (c_shard c'))) [c_ref c', c_ref c']"
  obtain x d where x: "?m (w_disk w) = (x, d)" by (cases "?m (w_disk w)")
  obtain e where "?m (w_disk w) = (Inl e, d)"
  proof (cases x)
    case (Inr r)
    from rebuild_distinct [OF x [unfolded Inr]] show ?thesis by simp
  qed (use x that in simp)
  then have "transaction (process_claimed wk now stamp [c, c']) w
     = (Inr (), w\<lparr>w_disk := d, w_db := set_failed (Rebuild_Failed e) {c_id c, c_id c'} (w_db w), w_failed := False\<rparr>)"
    using assms by (simp add: transaction_def process_claimed_def process_group_def Let_def io_bind_def io_attempt_def on_disk_def
        update_def execute_def io_return_def)
  moreover have "w_db (w\<lparr>w_disk := d, w_db := x, w_failed := False\<rparr>) = x" for x by simp
  ultimately show ?thesis by blast
qed

lemma press_stores:
  fixes v :: "('f, 't) world" and gw :: "('f, 'o, 'g, 't) gateway"
  assumes "db_ok (w_db v)" "allowed gw ''erasure:write'' (Some (DASHBOARD_GATEWAY_TOKEN cs)) p" "text_param p = Inr caller"
    and "reason \<in> set reasons" "map_of (subject_shard_map (w_db v)) (ref_of gw subject_id) = Some en"
    and "strip_ws subject_id \<noteq> []" "\<not> illegal_header (''Bearer '' @ DASHBOARD_GATEWAY_TOKEN cs)"
    and "\<not> illegal_header (ops_key subject_id t)" "cs_header cs (ops_key subject_id t) = Some k"
    and "job_with_key caller k (erasure_jobs (w_db v)) = None" "i \<notin> j_id ` set (erasure_jobs (w_db v))" "line \<noteq> Unreachable"
    and "force_rebuild cs gw line n clock i t subject_id reason v = (r, v')"
  shows "v' = v\<lparr>w_db := (w_db v)\<lparr>erasure_jobs := erasure_jobs (w_db v)
       @ [new_job i (ref_of gw subject_id) reason (e_shard en) k (clock + 3600 * SLA_HOURS gw) caller n]\<rparr>, w_failed := False\<rparr>"
  using create_two [OF assms(1-5,10,11), of n clock] assms(6-9,12,13)
  by (cases "line = Reply_Late") (auto simp: force_rebuild_def io_bind_def io_attempt_def io_return_def io_lift_def)



end
