(* ===== verification/Spec2Isabelle.thy ===== *)
theory Spec2Isabelle
  imports Certificate Sharding Benchmark Bootstrap Pool Dashboard
begin

text \<open>
  UnlearnShield: machine unlearning with certificates. Transactions of subjects are spread
  over shards and slices; one model per shard is trained slice by slice. Erasing a subject
  drops the rows, goes back to the model from before the subject's slice, retrains on what
  is left, and issues a signed certificate with a proof that the subject is absent from the
  set that the new model was trained on. A standalone verifier checks certificates offline.

  Theories, each over the ones it imports:

    \<^item> \<open>Prelude\<close>: exceptions and results, Python lists and text; \<open>Effects\<close>: computations
      over files that may raise and keep what was written before;
    \<^item> \<open>Sha256\<close>, \<open>Blake2b\<close>, \<open>Hexcodec\<close>, \<open>Pyvalue\<close>, \<open>Json\<close>: executable models of the standard
      library functions that the code calls (\<open>hashlib\<close>, \<open>hmac\<close>, \<open>bytes.fromhex\<close>, \<open>json\<close>);
    \<^item> \<open>Absence\<close>: the contract of an absence-proof scheme as the locale \<open>absence_scheme\<close>;
      \<open>Smt\<close> models \<open>verify/smt.py\<close> and \<open>Merkle\<close> models \<open>verify/merkle.py\<close>; both interpret it;
    \<^item> \<open>Certificate\<close>: \<open>verify/manifest.py\<close>, \<open>verify/sign.py\<close>, \<open>verify/verifier_cli.py\<close>;
    \<^item> \<open>Vectors\<close>: known answers, evaluated in the kernel: \<open>sha256\<close> gives the digest that FIPS 180-4
      publishes, and \<open>subject_ref\<close> the references that Python computes for two names;
    \<^item> \<open>Sharding\<close>: \<open>subject_ref\<close> of \<open>config/settings.py\<close>, \<open>engine/sharder.py\<close>, \<open>engine/slicer.py\<close>;
    \<^item> \<open>Features\<close>: \<open>engine/preprocessing.py\<close> and the features of \<open>engine/gbdt.py\<close>;
    \<^item> \<open>Train\<close>: \<open>config/determinism.py\<close>, \<open>data/churn_score.py\<close>, \<open>engine/train.py\<close> and the files
      of a deployment (record \<open>disk\<close>);
    \<^item> \<open>Engine_Spec\<close>: what an erasure promises as the locale \<open>erasure_engine\<close>; \<open>Rebuild\<close>
      (\<open>engine/rebuild.py\<close>) and \<open>Gbdt\<close> (\<open>engine/gbdt.py\<close>) interpret it;
    \<^item> \<open>Active\<close>: \<open>engine/active.py\<close>, the choice of the engine, promotion, replay; \<open>Erasure\<close>: what a
      rebuild by either engine does to the files, as triples;
    \<^item> \<open>Build\<close>: the partitioning of \<open>engine/train.py\<close>; \<open>Eval\<close>: the scores of \<open>data/eval_set.py\<close>;
      \<open>Ensemble\<close>: \<open>inference/batched_ensemble.py\<close>, the models of all shards and their cache;
    \<^item> \<open>Database\<close>: the tables of \<open>db/schema.sql\<close> (record \<open>db\<close>), statements and transactions of a
      process (record \<open>world\<close>); \<open>Queue\<close>: \<open>worker/queue.py\<close> and \<open>gateway/idempotency.py\<close>;
    \<^item> \<open>Jobs\<close>: \<open>worker/jobs.py\<close> and \<open>worker/main.py\<close>; \<open>System\<close>: intake, workers and crashes over one
      database and one set of files, as the step relation \<open>sys_step\<close>; \<open>Drain\<close>: repeated cycles;
    \<^item> \<open>Gateway\<close>: tokens and scopes (\<open>gateway/auth.py\<close>) and the handlers of \<open>gateway/routes/erasure.py\<close>;
      \<open>Serving\<close>: those of \<open>predict.py\<close> and \<open>models.py\<close> and \<open>gateway/disagreement.py\<close>;
    \<^item> \<open>Pool\<close>: the connection pool of \<open>db/conn.py\<close> as the interleaving relation \<open>pool_step\<close>;
    \<^item> \<open>Bootstrap\<close>: \<open>scripts/load_routing.py\<close>, from files to a start state of \<open>sys_step\<close>;
    \<^item> \<open>Dashboard\<close>: \<open>dashboard/app.py\<close>, its queries, the live check of a certificate, the button that
      sends a request to the gateway;
    \<^item> \<open>Datagen\<close>: \<open>data/synth.py\<close>, the frozen corpus of \<open>data/eval_set.py\<close>, \<open>build\<close> of \<open>engine/train.py\<close>;
      \<open>Ingest\<close>: \<open>data/prepare.py\<close> with the reader of the \<open>csv\<close> module as a state machine;
    \<^item> \<open>Benchmark\<close>: \<open>scripts/benchmark.py\<close>, from a table to the cost of one erasure by phase.

  State and parts. A \<open>disk\<close> has the routing table (\<open>routing.json\<close>), the rows of each shard
  (\<open>shard{k}.npz\<close>), checkpoints by directory, shard and slice, preprocessors, boosters, the
  content-addressed copies, and the cache of sparse trees that the process keeps. The entry
  point of a rebuild reads the routing table and the shard, gets the tree of the shard from
  \<open>Smt\<close>, purges, trains (\<open>Train\<close> or boosting), removes the references from the tree, lets
  \<open>Certificate\<close> build and sign a manifest per subject, and writes the files in that order.

  A \<open>world\<close> is the disk, the ensembles that the process has cached, the tables, and whether the
  open transaction has failed. A worker claims jobs in one transaction and works on them in
  another: per shard it rebuilds, promotes the new model, scores it, stores the certificates
  and marks the jobs. An exception or a failed commit undoes the tables and not the files.
  The gateway stores jobs and answers from the same tables, and loads the files that the
  newest version names; the console reads the tables and posts to the gateway.

  Parameters. Ed25519, PyTorch, NumPy's floating-point functions and XGBoost are not part of
  the repository; they are arguments of the definitions that use them (\<open>ed_sign\<close> and
  \<open>ed_verify\<close>, the records \<open>torch\<close>, \<open>numpy\<close>, \<open>xgboost\<close>). Theorems about certificates assume
  that a signature made with a key verifies with its public key; those about boosters that
  training accepts non-empty data. Times, fresh UUIDs, the evaluation corpus, the locks that
  other transactions hold, the row that Postgres returns first among equals, the draws of
  NumPy's generator, \<open>np.quantile\<close>, the parsing of a float, and what FastAPI extracts from a
  request are arguments. SHA-256 is a definition here, so collision resistance is never
  assumed: a theorem that needs it has "or these two inputs collide" as a conclusion.

  What the theorems show. Absence proofs are sound and complete for both tree schemes, the
  incremental tree equals the rebuilt one, and the compressed root is the root of the full
  tree of depth 256. Certificates that verify are genuine, issued ones verify after a trip
  through JSON exactly when their proof's depths keep their order as text. Slices are
  balanced and follow churn. For both engines, after the batch that erases a subject nothing
  depends on the subject's data any more; boosters always equal retraining from scratch;
  rebuilds succeed on deployments in good order, and the two ways in which they fail half
  way are stated. Replays reproduce rebuilds without touching files, and promoted models are
  stored under their own digest. In every state that requests, claims, work and crashes can
  reach, a job that is done has a certificate that verifies and nothing of its subject is
  left; no request is lost; intake is idempotent for each caller; claims are leased in order
  of deadline. The ways in which batches fail, leave a subject erased without a certificate
  or promote models that tie are stated as well. A worker left alone empties the queue.
  Handlers check scopes before they do anything; an accepted request is a submit step of the
  system; an attestation is a certificate that verifies; a score comes from the newest version.
  The console shows stored manifests, and its verdict fails exactly for depths that change
  their order as text; pressing its button twice loses both jobs. A generated or a loaded
  data set gives a deployment in good order, bootstrapping it gives a start state, a plain
  table is read back, and the benchmark compares models that are equal.

  Bounds. Python integers are \<open>int\<close> or \<open>nat\<close>; \<open>sha256\<close> and \<open>blake2b\<close> work on 32- and 64-bit
  words. JSON texts are read back with fuel \<open>2 * length + 2\<close>, which the proofs of the round
  trip show to be enough. All other recursion is structural or has a termination proof.

  Not modelled: opening database connections and serving the static page; a process that dies
  while it writes a file; the order of keys in a JSONB value; the network of \<open>engine/model.py\<close>
  (part of the PyTorch parameter); parsing of arguments and of numbers in the environment, log
  messages and printed tables; of \<open>scripts\<close>, the MLP block of the benchmark and the scripts that
  load-test, print statistics of a table, or train a stand-in model twice.
\<close>

end
